theory Spec2Isabelle
  imports Main "HOL-Library.Monad_Syntax" "HOL-Library.Product_Lexorder"
begin

unbundle bit_operations_syntax

section \<open>Headers, tuples and nodes\<close>

datatype node_type = OUTER | INNER

record header =
  state :: int
  count :: int

definition is_inner :: "'a header_scheme \<Rightarrow> bool" where
  "is_inner h = (0 \<le> state h)"

definition real_index :: "'a header_scheme \<Rightarrow> int" where
  "real_index h = (if state h < 0 then NOT (state h) else state h)"

definition set_index :: "int \<Rightarrow> node_type \<Rightarrow> 'a header_scheme \<Rightarrow> 'a header_scheme" where
  "set_index index flag h = h\<lparr>state := (case flag of INNER \<Rightarrow> index | OUTER \<Rightarrow> NOT index)\<rparr>"

definition node_type_of_bool :: "bool \<Rightarrow> node_type" where
  "node_type_of_bool b = (if b then INNER else OUTER)"

record ('k, 'v) value_tuple =
  head :: header
  v_pair :: "'k \<times> 'v"

record ('k, 'v) node = header +
  data :: "('k, 'v) value_tuple list"

definition k_comp :: "'a::linorder \<Rightarrow> 'a \<Rightarrow> int" where
  "k_comp a b = (if a < b then - 1 else if b < a then 1 else 0)"

definition MAXN_SIZE :: int where
  "MAXN_SIZE = 1919810"

definition AMORT_SIZE :: "int \<Rightarrow> int" where
  "AMORT_SIZE B = B * 2 div 3"

definition MERGE_SIZE :: "int \<Rightarrow> int" where
  "MERGE_SIZE B = B div 3"

record ('k, 'v) tree =
  nodes :: "int \<Rightarrow> ('k, 'v) node"
  cache_pointer :: int
  free_blocks :: "int list"
  next_block :: int
  modified :: "int set"

partial_function (option) binary_search ::
  "('k::linorder, 'v::linorder) value_tuple list \<Rightarrow> 'k \<Rightarrow> 'v \<Rightarrow> int \<Rightarrow> int \<Rightarrow> int option" where
  "binary_search dat key val l r =
     (if l \<noteq> r then
        (let mid = drop_bit 1 (l + r);
             cmp = k_comp key (fst (v_pair (dat ! nat mid)));
             cmp = (if cmp = 0 then k_comp val (snd (v_pair (dat ! nat mid))) else cmp)
         in if cmp > 0 then binary_search dat key val (mid + 1) r
            else if cmp < 0 then binary_search dat key val l mid
            else Some (NOT mid))
      else Some l)"

partial_function (option) lower_bound ::
  "('k::linorder, 'v) value_tuple list \<Rightarrow> 'k \<Rightarrow> int \<Rightarrow> int \<Rightarrow> int option" where
  "lower_bound dat key l r =
     (if l \<noteq> r then
        (let mid = drop_bit 1 (l + r)
         in if k_comp key (fst (v_pair (dat ! nat mid))) > 0 then lower_bound dat key (mid + 1) r
            else lower_bound dat key l mid)
      else Some l)"

partial_function (option) upper_bound ::
  "('k::linorder, 'v) value_tuple list \<Rightarrow> 'k \<Rightarrow> int \<Rightarrow> int \<Rightarrow> int option" where
  "upper_bound dat key l r =
     (if l \<noteq> r then
        (let mid = drop_bit 1 (l + r)
         in if k_comp key (fst (v_pair (dat ! nat mid))) \<ge> 0 then upper_bound dat key (mid + 1) r
            else upper_bound dat key l mid)
      else Some l)"

declare binary_search.simps [code]
declare lower_bound.simps [code]
declare upper_bound.simps [code]

definition mmove :: "'a list \<Rightarrow> int \<Rightarrow> 'a list \<Rightarrow> int \<Rightarrow> int \<Rightarrow> 'a list" where
  "mmove dst d src s n =
     take (nat d) dst @ take (nat n) (drop (nat s) src) @ drop (nat d + nat n) dst"


section \<open>The node store\<close>

definition upd_node ::
  "int \<Rightarrow> (('k, 'v) node \<Rightarrow> ('k, 'v) node) \<Rightarrow> ('k, 'v) tree \<Rightarrow> ('k, 'v) tree" where
  "upd_node p f s = s\<lparr>nodes := (nodes s)(p := f (nodes s p))\<rparr>"

definition set_state :: "int \<Rightarrow> int \<Rightarrow> ('k, 'v) tree \<Rightarrow> ('k, 'v) tree" where
  "set_state p x s = upd_node p (\<lambda>n. n\<lparr>state := x\<rparr>) s"

definition set_count :: "int \<Rightarrow> int \<Rightarrow> ('k, 'v) tree \<Rightarrow> ('k, 'v) tree" where
  "set_count p c s = upd_node p (\<lambda>n. n\<lparr>count := c\<rparr>) s"

definition set_data :: "int \<Rightarrow> ('k, 'v) value_tuple list \<Rightarrow> ('k, 'v) tree \<Rightarrow> ('k, 'v) tree" where
  "set_data p d s = upd_node p (\<lambda>n. n\<lparr>data := d\<rparr>) s"

definition get_tuple :: "('k, 'v) tree \<Rightarrow> int \<Rightarrow> int \<Rightarrow> ('k, 'v) value_tuple" where
  "get_tuple s p x = data (nodes s p) ! nat x"

definition set_tuple :: "int \<Rightarrow> int \<Rightarrow> ('k, 'v) value_tuple \<Rightarrow> ('k, 'v) tree \<Rightarrow> ('k, 'v) tree" where
  "set_tuple p x t s = set_data p ((data (nodes s p))[nat x := t]) s"

definition node_head :: "('k, 'v) tree \<Rightarrow> int \<Rightarrow> int \<Rightarrow> header" where
  "node_head s p x = head (get_tuple s p x)"

definition set_head :: "int \<Rightarrow> int \<Rightarrow> header \<Rightarrow> ('k, 'v) tree \<Rightarrow> ('k, 'v) tree" where
  "set_head p x h s = set_tuple p x ((get_tuple s p x)\<lparr>head := h\<rparr>) s"

definition set_head_count :: "int \<Rightarrow> int \<Rightarrow> int \<Rightarrow> ('k, 'v) tree \<Rightarrow> ('k, 'v) tree" where
  "set_head_count p x c s = set_head p x ((node_head s p x)\<lparr>count := c\<rparr>) s"

definition set_head_state :: "int \<Rightarrow> int \<Rightarrow> int \<Rightarrow> ('k, 'v) tree \<Rightarrow> ('k, 'v) tree" where
  "set_head_state p x c s = set_head p x ((node_head s p x)\<lparr>state := c\<rparr>) s"

definition set_v :: "int \<Rightarrow> int \<Rightarrow> 'k \<times> 'v \<Rightarrow> ('k, 'v) tree \<Rightarrow> ('k, 'v) tree" where
  "set_v p x kv s = set_tuple p x ((get_tuple s p x)\<lparr>v_pair := kv\<rparr>) s"

definition modify :: "int \<Rightarrow> ('k, 'v) tree \<Rightarrow> ('k, 'v) tree" where
  "modify p s = s\<lparr>modified := insert p (modified s)\<rparr>"

definition get_pointer :: "'a header_scheme \<Rightarrow> int" where
  "get_pointer h = real_index h"

definition zero_node :: "int \<Rightarrow> ('k, 'v) value_tuple \<Rightarrow> ('k, 'v) node" where
  "zero_node B z = \<lparr>state = 0, count = 0, data = replicate (nat (B + 1)) z\<rparr>"

definition allocate ::
  "int \<Rightarrow> ('k, 'v) value_tuple \<Rightarrow> ('k, 'v) tree \<Rightarrow> int \<times> ('k, 'v) tree" where
  "allocate B z s =
     (let (i, s) = (case free_blocks s of
                      [] \<Rightarrow> (next_block s, s\<lparr>next_block := next_block s + 1\<rparr>)
                    | i # fs \<Rightarrow> (i, s\<lparr>free_blocks := fs\<rparr>));
          s = s\<lparr>nodes := (nodes s)(i := zero_node B z)\<rparr>
      in (i, modify i s))"

definition recycle :: "int \<Rightarrow> ('k, 'v) tree \<Rightarrow> ('k, 'v) tree" where
  "recycle p s = s\<lparr>free_blocks := p # free_blocks s, modified := modified s - {p}\<rparr>"

definition init_tree :: "int \<Rightarrow> ('k, 'v) value_tuple \<Rightarrow> ('k, 'v) tree" where
  "init_tree B z =
     \<lparr>nodes = (\<lambda>_. zero_node B z), cache_pointer = 0, free_blocks = [], next_block = 1,
      modified = {0}\<rparr>"

datatype href = RootHead | SlotHead int int

fun read_head :: "('k, 'v) tree \<Rightarrow> href \<Rightarrow> header" where
  "read_head s RootHead = \<lparr>state = state (nodes s 0), count = count (nodes s 0)\<rparr>"
| "read_head s (SlotHead p x) = node_head s p x"

fun write_head_count :: "href \<Rightarrow> int \<Rightarrow> ('k, 'v) tree \<Rightarrow> ('k, 'v) tree" where
  "write_head_count RootHead c s = set_count 0 c s"
| "write_head_count (SlotHead p x) c s = set_head_count p x c s"

section \<open>Structural operations\<close>

definition insert_root ::
  "int \<Rightarrow> ('k, 'v) value_tuple \<Rightarrow> ('k, 'v) tree \<Rightarrow> 'k \<Rightarrow> 'v \<Rightarrow> ('k, 'v) tree" where
  "insert_root B z s key val =
     (let (pointer, s) = allocate B z s;
          s = modify 0 s;
          s = set_count 0 1 s;
          s = set_tuple 0 0 \<lparr>head = \<lparr>state = NOT pointer, count = 1\<rparr>, v_pair = (key, val)\<rparr> s;
          s = modify pointer s;
          s = upd_node pointer (set_index MAXN_SIZE OUTER) s;
          s = set_count pointer 1 s;
          s = set_v pointer 0 (key, val) s
      in s)"

definition split_root :: "int \<Rightarrow> ('k, 'v) value_tuple \<Rightarrow> ('k, 'v) tree \<Rightarrow> ('k, 'v) tree" where
  "split_root B z s =
     (let (prev, s) = allocate B z s;
          (nxt, s) = allocate B z s;
          s = set_state prev nxt s;
          s = set_state nxt MAXN_SIZE s;
          s = set_count prev (drop_bit 1 (count (nodes s 0))) s;
          s = set_count nxt (drop_bit 1 (count (nodes s 0) + 1)) s;
          s = set_data prev (mmove (data (nodes s prev)) 0 (data (nodes s 0)) 0
                (count (nodes s prev))) s;
          s = set_data nxt (mmove (data (nodes s nxt)) 0 (data (nodes s 0))
                (count (nodes s prev)) (count (nodes s nxt))) s;
          s = set_count 0 2 s;
          s = set_head 0 0 \<lparr>state = prev, count = count (nodes s prev)\<rparr> s;
          s = set_head 0 1 \<lparr>state = nxt, count = count (nodes s nxt)\<rparr> s;
          s = set_v 0 1 (v_pair (get_tuple s nxt 0)) s
      in s)"

definition split_node ::
  "int \<Rightarrow> ('k, 'v) value_tuple \<Rightarrow> ('k, 'v) tree \<Rightarrow> int \<Rightarrow> int \<Rightarrow> ('k, 'v) tree" where
  "split_node B z s pointer x =
     (let prev = cache_pointer s;
          (nxt, s) = allocate B z s;
          s = set_state nxt (state (nodes s prev)) s;
          s = upd_node prev (\<lambda>n. set_index nxt (node_type_of_bool (is_inner n)) n) s;
          s = set_count nxt (drop_bit 1 (count (nodes s prev))) s;
          s = set_count prev (count (nodes s prev) - count (nodes s nxt)) s;
          s = set_head_count pointer x (count (nodes s prev)) s;
          s = set_data nxt (mmove (data (nodes s nxt)) 0 (data (nodes s prev))
                (count (nodes s prev)) (count (nodes s nxt))) s;
          x = x + 1;
          s = (if x < count (nodes s pointer)
               then set_data pointer (mmove (data (nodes s pointer)) (x + 1)
                      (data (nodes s pointer)) x (count (nodes s pointer) - x)) s
               else s);
          s = set_v pointer x (v_pair (get_tuple s nxt 0)) s;
          s = set_head_count pointer x (count (nodes s nxt)) s;
          s = set_head_state pointer x (state (nodes s prev)) s
      in s)"

definition merge_node :: "('k, 'v) tree \<Rightarrow> int \<Rightarrow> int \<Rightarrow> ('k, 'v) tree" where
  "merge_node s prev nxt =
     (let s = modify prev s;
          s = set_state prev (state (nodes s nxt)) s;
          s = set_data prev (mmove (data (nodes s prev)) (count (nodes s prev))
                (data (nodes s nxt)) 0 (count (nodes s nxt))) s;
          s = set_count prev (count (nodes s prev) + count (nodes s nxt)) s
      in recycle nxt s)"

definition merge_root :: "('k, 'v) tree \<Rightarrow> int \<Rightarrow> ('k, 'v) tree" where
  "merge_root s x =
     (let prev = (if x \<noteq> 0 then get_pointer (node_head s 0 0) else cache_pointer s);
          nxt = (if x \<noteq> 0 then cache_pointer s else get_pointer (node_head s 0 1));
          s = set_count 0 (count (nodes s prev) + count (nodes s nxt) + 1) s;
          s = set_data 0 (mmove (data (nodes s 0)) 0 (data (nodes s prev)) 0
                (count (nodes s prev))) s;
          s = set_data 0 (mmove (data (nodes s 0)) (count (nodes s prev))
                (data (nodes s nxt)) 0 (count (nodes s nxt))) s;
          s = recycle prev s
      in recycle nxt s)"

definition erase_merge :: "('k, 'v) tree \<Rightarrow> int \<Rightarrow> int \<Rightarrow> ('k, 'v) tree" where
  "erase_merge s pointer x =
     (if count (nodes s pointer) = 2 \<and> is_inner (nodes s (cache_pointer s)) then merge_root s x
      else if count (nodes s pointer) = 1 then
        (if count (nodes s (cache_pointer s)) \<noteq> 0
         then set_count pointer (count (nodes s pointer) + 1) s
         else recycle (cache_pointer s) s)
      else
        (let flag = (x \<noteq> count (nodes s pointer) - 1);
             flag = (if flag \<and> x \<noteq> 0
                     then count (node_head s pointer (x - 1)) > count (node_head s pointer (x + 1))
                     else flag)
         in if flag then
              (let prev = cache_pointer s;
                   nxt = get_pointer (node_head s pointer (x + 1));
                   s = merge_node s prev nxt;
                   s = set_data pointer (mmove (data (nodes s pointer)) (x + 1)
                         (data (nodes s pointer)) (x + 2) (count (nodes s pointer) - x - 2)) s
               in set_head_count pointer x (count (nodes s prev)) s)
            else
              (let prev = get_pointer (node_head s pointer (x - 1));
                   nxt = cache_pointer s;
                   s = merge_node s prev nxt;
                   s = set_data pointer (mmove (data (nodes s pointer)) x
                         (data (nodes s pointer)) (x + 1) (count (nodes s pointer) - x - 1)) s
               in set_head_count pointer (x - 1) (count (nodes s prev)) s)))"

definition amortize_prev :: "('k, 'v) tree \<Rightarrow> int \<Rightarrow> int \<Rightarrow> ('k, 'v) tree" where
  "amortize_prev s prev nxt =
     (let s = modify prev s;
          s = modify nxt s;
          delta = drop_bit 1 (count (nodes s prev) - count (nodes s nxt));
          s = set_data nxt (mmove (data (nodes s nxt)) delta (data (nodes s nxt)) 0
                (count (nodes s nxt))) s;
          s = set_count prev (count (nodes s prev) - delta) s;
          s = set_count nxt (count (nodes s nxt) + delta) s
      in set_data nxt (mmove (data (nodes s nxt)) 0 (data (nodes s prev))
           (count (nodes s prev)) delta) s)"

definition amortize_next :: "('k, 'v) tree \<Rightarrow> int \<Rightarrow> int \<Rightarrow> ('k, 'v) tree" where
  "amortize_next s prev nxt =
     (let s = modify prev s;
          s = modify nxt s;
          delta = drop_bit 1 (count (nodes s nxt) - count (nodes s prev));
          s = set_data prev (mmove (data (nodes s prev)) (count (nodes s prev))
                (data (nodes s nxt)) 0 delta) s;
          s = set_count prev (count (nodes s prev) + delta) s;
          s = set_count nxt (count (nodes s nxt) - delta) s
      in set_data nxt (mmove (data (nodes s nxt)) 0 (data (nodes s nxt)) delta
           (count (nodes s nxt))) s)"

definition insert_amortize ::
  "int \<Rightarrow> ('k, 'v) tree \<Rightarrow> int \<Rightarrow> int \<Rightarrow> ('k, 'v) tree \<times> bool" where
  "insert_amortize B s pointer x =
     (let flag0 = (x \<noteq> count (nodes s pointer) - 1
                   \<and> count (node_head s pointer (x + 1)) < AMORT_SIZE B);
          flag1 = (x \<noteq> 0 \<and> count (node_head s pointer (x - 1)) < AMORT_SIZE B);
          (flag0, flag1) =
             (if flag0 \<and> flag1
              then (if count (node_head s pointer (x - 1)) > count (node_head s pointer (x + 1))
                    then (flag0, False) else (False, flag1))
              else (flag0, flag1))
      in if flag1 then
           (let prev = get_pointer (node_head s pointer (x - 1));
                nxt = cache_pointer s;
                s = amortize_next s prev nxt;
                s = set_head_count pointer (x - 1) (count (nodes s prev)) s;
                s = set_head_count pointer x (count (nodes s nxt)) s;
                s = set_v pointer x (v_pair (get_tuple s nxt 0)) s
            in (s, True))
         else if flag0 then
           (let prev = cache_pointer s;
                nxt = get_pointer (node_head s pointer (x + 1));
                s = amortize_prev s prev nxt;
                s = set_head_count pointer x (count (nodes s prev)) s;
                s = set_head_count pointer (x + 1) (count (nodes s nxt)) s;
                s = set_v pointer (x + 1) (v_pair (get_tuple s nxt 0)) s
            in (s, True))
         else (s, False))"

definition erase_amortize ::
  "int \<Rightarrow> ('k, 'v) tree \<Rightarrow> int \<Rightarrow> int \<Rightarrow> ('k, 'v) tree \<times> bool" where
  "erase_amortize B s pointer x =
     (let flag0 = (x \<noteq> 0 \<and> count (node_head s pointer (x - 1)) \<ge> AMORT_SIZE B);
          flag1 = (x \<noteq> count (nodes s pointer) - 1
                   \<and> count (node_head s pointer (x + 1)) \<ge> AMORT_SIZE B);
          (flag0, flag1) =
             (if flag0 \<and> flag1
              then (if count (node_head s pointer (x - 1)) > count (node_head s pointer (x + 1))
                    then (flag0, False) else (False, flag1))
              else (flag0, flag1))
      in if flag0 then
           (let prev = get_pointer (node_head s pointer (x - 1));
                nxt = cache_pointer s;
                s = amortize_prev s prev nxt;
                s = set_head_count pointer (x - 1) (count (nodes s prev)) s;
                s = set_head_count pointer x (count (nodes s nxt)) s;
                s = set_v pointer x (v_pair (get_tuple s nxt 0)) s
            in (s, True))
         else if flag1 then
           (let prev = cache_pointer s;
                nxt = get_pointer (node_head s pointer (x + 1));
                s = amortize_next s prev nxt;
                s = set_head_count pointer x (count (nodes s prev)) s;
                s = set_head_count pointer (x + 1) (count (nodes s nxt)) s;
                s = set_v pointer (x + 1) (v_pair (get_tuple s nxt 0)) s
            in (s, True))
         else (s, False))"

section \<open>Insertion and erasure\<close>

definition insert_outer ::
  "('k::linorder, 'v::linorder) tree \<Rightarrow> href \<Rightarrow> 'k \<Rightarrow> 'v \<Rightarrow> (('k, 'v) tree \<times> bool) option" where
  "insert_outer s href key val =
     (let hdr = read_head s href;
          pointer = get_pointer hdr
      in do {
        x \<leftarrow> binary_search (data (nodes s pointer)) key val 0 (count hdr);
        if x < 0 then Some (s, False)
        else
          (let s = modify pointer s;
               s = set_data pointer (mmove (data (nodes s pointer)) (x + 1)
                     (data (nodes s pointer)) x (count (read_head s href) - x)) s;
               s = set_v pointer x (key, val) s;
               s = set_count pointer (count (nodes s pointer) + 1) s;
               s = write_head_count href (count (nodes s pointer)) s
           in Some (s\<lparr>cache_pointer := pointer\<rparr>, True))
      })"

definition insert_fixup ::
  "int \<Rightarrow> ('k, 'v) value_tuple \<Rightarrow> ('k, 'v) tree \<Rightarrow> href \<Rightarrow> int \<Rightarrow> int
     \<Rightarrow> ('k, 'v) tree \<times> bool" where
  "insert_fixup B z s href pointer x =
     (let s = modify pointer s in
      if count (nodes s (cache_pointer s)) \<le> B then (s, False)
      else
        (case insert_amortize B s pointer x of
           (s, True) \<Rightarrow> (s, False)
         | (s, False) \<Rightarrow>
             (let s = split_node B z s pointer x;
                  s = set_count pointer (count (nodes s pointer) + 1) s;
                  s = write_head_count href (count (nodes s pointer)) s
              in (s\<lparr>cache_pointer := pointer\<rparr>, True))))"

partial_function (option) insert_inner ::
  "int \<Rightarrow> ('k::linorder, 'v::linorder) value_tuple \<Rightarrow> ('k, 'v) tree \<Rightarrow> href \<Rightarrow> 'k \<Rightarrow> 'v
     \<Rightarrow> (('k, 'v) tree \<times> bool) option" where
  "insert_inner B z s href key val =
     (let hdr = read_head s href in
      if \<not> is_inner hdr then insert_outer s href key val
      else
        (let pointer = get_pointer hdr in do {
           x \<leftarrow> binary_search (data (nodes s pointer)) key val 0 (count hdr);
           if x < 0 then Some (s, False)
           else
             (let (s, x) = (if x > 0 then (s, x - 1)
                            else (set_v pointer 0 (key, val) (modify pointer s), x))
              in do {
                (s, r) \<leftarrow> insert_inner B z s (SlotHead pointer x) key val;
                if \<not> r then Some (s, False)
                else Some (insert_fixup B z s href pointer x)
              })
         }))"

declare insert_inner.simps [code]

definition erase_outer ::
  "('k::linorder, 'v::linorder) tree \<Rightarrow> href \<Rightarrow> 'k \<Rightarrow> 'v \<Rightarrow> (('k, 'v) tree \<times> bool) option" where
  "erase_outer s href key val =
     (let hdr = read_head s href;
          pointer = get_pointer hdr
      in do {
        b \<leftarrow> binary_search (data (nodes s pointer)) key val 0 (count hdr);
        let x = NOT b in
        if x < 0 then Some (s, False)
        else
          (let s = modify pointer s;
               s = set_data pointer (mmove (data (nodes s pointer)) x
                     (data (nodes s pointer)) (x + 1) (count (read_head s href) - x - 1)) s;
               s = set_count pointer (count (nodes s pointer) - 1) s;
               s = write_head_count href (count (nodes s pointer)) s
           in Some (s\<lparr>cache_pointer := pointer\<rparr>, True))
      })"

definition erase_fixup ::
  "int \<Rightarrow> ('k, 'v) tree \<Rightarrow> href \<Rightarrow> int \<Rightarrow> int \<Rightarrow> bool \<Rightarrow> ('k, 'v) tree \<times> bool" where
  "erase_fixup B s href pointer x flag =
     (let s = modify pointer s;
          s = (if flag then set_v pointer x (v_pair (get_tuple s (cache_pointer s) 0)) s else s)
      in if count (nodes s (cache_pointer s)) > MERGE_SIZE B then (s, flag \<and> x = 0)
         else
           (case erase_amortize B s pointer x of
              (s, True) \<Rightarrow> (s, flag \<and> x = 0)
            | (s, False) \<Rightarrow>
                (let s = erase_merge s pointer x;
                     s = set_count pointer (count (nodes s pointer) - 1) s;
                     s = write_head_count href (count (nodes s pointer)) s
                 in (s\<lparr>cache_pointer := pointer\<rparr>, True))))"

partial_function (option) erase_inner ::
  "int \<Rightarrow> ('k::linorder, 'v::linorder) tree \<Rightarrow> href \<Rightarrow> 'k \<Rightarrow> 'v
     \<Rightarrow> (('k, 'v) tree \<times> bool) option" where
  "erase_inner B s href key val =
     (let hdr = read_head s href in
      if \<not> is_inner hdr then erase_outer s href key val
      else
        (let pointer = get_pointer hdr in do {
           x \<leftarrow> binary_search (data (nodes s pointer)) key val 0 (count hdr);
           if x = 0 then Some (s, False)
           else
             (let (x, flag) = (if x > 0 then (x - 1, False) else (NOT x, True))
              in do {
                (s, r) \<leftarrow> erase_inner B s (SlotHead pointer x) key val;
                if \<not> r then Some (s, False)
                else Some (erase_fixup B s href pointer x flag)
              })
         }))"

declare erase_inner.simps [code]

definition empty_tree :: "('k, 'v) tree \<Rightarrow> bool" where
  "empty_tree s = (count (nodes s 0) = 0)"

definition insert_pub ::
  "int \<Rightarrow> ('k::linorder, 'v::linorder) value_tuple \<Rightarrow> ('k, 'v) tree \<Rightarrow> 'k \<Rightarrow> 'v
     \<Rightarrow> ('k, 'v) tree option" where
  "insert_pub B z s key val =
     (if empty_tree s then Some (insert_root B z s key val)
      else do {
        (s, r) \<leftarrow> insert_inner B z s RootHead key val;
        Some (if r \<and> count (nodes s 0) > B then split_root B z s else s)
      })"

definition erase_pub ::
  "int \<Rightarrow> ('k::linorder, 'v::linorder) tree \<Rightarrow> 'k \<Rightarrow> 'v \<Rightarrow> ('k, 'v) tree option" where
  "erase_pub B s key val =
     (if \<not> empty_tree s then map_option fst (erase_inner B s RootHead key val) else Some s)"

section \<open>Queries\<close>

partial_function (option) find_descend ::
  "('k::linorder, 'v) tree \<Rightarrow> 'k \<Rightarrow> header \<Rightarrow> header option" where
  "find_descend s key hdr =
     (if is_inner hdr then
        (let pointer = get_pointer hdr in do {
           x \<leftarrow> lower_bound (drop 1 (data (nodes s pointer))) key 0 (count hdr - 1);
           find_descend s key (node_head s pointer x)
         })
      else Some hdr)"

declare find_descend.simps [code]

partial_function (option) scan_block ::
  "('k::linorder, 'v) value_tuple list \<Rightarrow> 'k \<Rightarrow> ('v \<Rightarrow> bool) \<Rightarrow> int \<Rightarrow> int \<Rightarrow> 'v list
     \<Rightarrow> ('v list \<times> bool) option" where
  "scan_block dat key func x n out =
     (if x \<noteq> n then
        (if k_comp key (fst (v_pair (dat ! nat x))) \<noteq> 0 then Some (out, True)
         else
           (let val = snd (v_pair (dat ! nat x))
            in scan_block dat key func (x + 1) n (if func val then out @ [val] else out)))
      else Some (out, False))"

declare scan_block.simps [code]

partial_function (option) scan_chain ::
  "('k::linorder, 'v) tree \<Rightarrow> 'k \<Rightarrow> ('v \<Rightarrow> bool) \<Rightarrow> int \<Rightarrow> 'v list \<Rightarrow> 'v list option" where
  "scan_chain s key func pointer out =
     (if real_index (nodes s pointer) \<noteq> MAXN_SIZE then
        (let pointer = get_pointer (nodes s pointer) in do {
           (out, stop) \<leftarrow> scan_block (data (nodes s pointer)) key func 0
                             (count (nodes s pointer)) out;
           if stop then Some out else scan_chain s key func pointer out
         })
      else Some out)"

declare scan_chain.simps [code]

definition find_if ::
  "('k::linorder, 'v) tree \<Rightarrow> 'k \<Rightarrow> 'v list \<Rightarrow> ('v \<Rightarrow> bool)
     \<Rightarrow> (('k, 'v) tree \<times> 'v list) option" where
  "find_if s key out func =
     (if empty_tree s then Some (s, out)
      else do {
        hdr \<leftarrow> find_descend s key (read_head s RootHead);
        let pointer = get_pointer hdr;
        x \<leftarrow> lower_bound (data (nodes s pointer)) key 0 (count hdr);
        (out, stop) \<leftarrow> scan_block (data (nodes s pointer)) key func x (count hdr) out;
        if stop then Some (s, out)
        else do {
          out \<leftarrow> scan_chain s key func pointer out;
          Some (s, out)
        }
      })"

definition find_list ::
  "('k::linorder, 'v) tree \<Rightarrow> 'k \<Rightarrow> 'v list \<Rightarrow> (('k, 'v) tree \<times> 'v list) option" where
  "find_list s key out = find_if s key out (\<lambda>_. True)"

record iterator =
  it_pointer :: int
  it_index :: int

definition iterator_next :: "('k, 'v) tree \<Rightarrow> iterator \<Rightarrow> iterator" where
  "iterator_next s it =
     (let it = it\<lparr>it_index := it_index it + 1\<rparr> in
      if it_index it = count (nodes s (it_pointer it)) then
        (if real_index (nodes s (it_pointer it)) = MAXN_SIZE then it\<lparr>it_index := - 1\<rparr>
         else it\<lparr>it_pointer := get_pointer (nodes s (it_pointer it)), it_index := 0\<rparr>)
      else it)"

definition iterator_valid :: "iterator \<Rightarrow> bool" where
  "iterator_valid it = (it_index it \<noteq> - 1)"

definition end_iterator :: iterator where
  "end_iterator = \<lparr>it_pointer = 0, it_index = - 1\<rparr>"

definition find_iter :: "('k::linorder, 'v) tree \<Rightarrow> 'k \<Rightarrow> iterator option" where
  "find_iter s key =
     (if empty_tree s then Some end_iterator
      else do {
        hdr \<leftarrow> find_descend s key (read_head s RootHead);
        let pointer = get_pointer hdr;
        x \<leftarrow> lower_bound (data (nodes s pointer)) key 0 (count hdr);
        let temp = \<lparr>it_pointer = pointer, it_index = x\<rparr>;
        Some (if x = count hdr then iterator_next s (temp\<lparr>it_index := it_index temp - 1\<rparr>)
              else temp)
      })"

section \<open>Runs\<close>

datatype ('k, 'v) op = Insert 'k 'v | Erase 'k 'v

fun step :: "int \<Rightarrow> ('k::linorder, 'v::linorder) value_tuple \<Rightarrow> ('k, 'v) tree \<Rightarrow> ('k, 'v) op
    \<Rightarrow> ('k, 'v) tree option" where
  "step B z s (Insert k v) = insert_pub B z s k v"
| "step B z s (Erase k v) = erase_pub B s k v"

fun run :: "int \<Rightarrow> ('k::linorder, 'v::linorder) value_tuple \<Rightarrow> ('k, 'v) tree \<Rightarrow> ('k, 'v) op list
    \<Rightarrow> ('k, 'v) tree option" where
  "run B z s [] = Some s"
| "run B z s (a # as) = (case step B z s a of None \<Rightarrow> None | Some s' \<Rightarrow> run B z s' as)"


section \<open>Abstract view of the store\<close>

text \<open>
  The tree a store holds, read off from a head: a leaf entry is an \<open>Item\<close> (its unused
  header and its pair), a node is its block index, its own \<open>state\<close> field, the pair its
  parent keeps for it, and its entries in order. Leaf nodes are the nodes with negative
  \<open>state\<close>; their entries are items.
\<close>

datatype ('k, 'v) atree =
  Item header "'k \<times> 'v"
| Node int int "'k \<times> 'v" "('k, 'v) atree list"

fun kids :: "('k, 'v) atree \<Rightarrow> ('k, 'v) atree list" where
  "kids (Item h p) = []"
| "kids (Node i st pp ks) = ks"

fun idx :: "('k, 'v) atree \<Rightarrow> int" where
  "idx (Item h p) = 0"
| "idx (Node i st pp ks) = i"

fun nstate :: "('k, 'v) atree \<Rightarrow> int" where
  "nstate (Item h p) = 0"
| "nstate (Node i st pp ks) = st"

fun ppair :: "('k, 'v) atree \<Rightarrow> 'k \<times> 'v" where
  "ppair (Item h p) = p"
| "ppair (Node i st pp ks) = pp"

fun set_ppair :: "'k \<times> 'v \<Rightarrow> ('k, 'v) atree \<Rightarrow> ('k, 'v) atree" where
  "set_ppair q (Item h p) = Item h q"
| "set_ppair q (Node i st pp ks) = Node i st q ks"

fun entry :: "('k, 'v) atree \<Rightarrow> ('k, 'v) value_tuple" where
  "entry (Item h p) = \<lparr>head = h, v_pair = p\<rparr>"
| "entry (Node i st pp ks) =
     \<lparr>head = \<lparr>state = (if st < 0 then NOT i else i), count = int (length ks)\<rparr>, v_pair = pp\<rparr>"

fun idxs :: "('k, 'v) atree \<Rightarrow> int list" where
  "idxs (Item h p) = []"
| "idxs (Node i st pp ks) = i # concat (map idxs ks)"

fun inorder :: "('k, 'v) atree \<Rightarrow> ('k \<times> 'v) list" where
  "inorder (Item h p) = [p]"
| "inorder (Node i st pp ks) = concat (map inorder ks)"

fun leaves :: "('k, 'v) atree \<Rightarrow> (int \<times> int) list" where
  "leaves (Item h p) = []"
| "leaves (Node i st pp ks) = (if st < 0 then [(i, NOT st)] else concat (map leaves ks))"

definition node_rep ::
  "int \<Rightarrow> ('k, 'v) tree \<Rightarrow> int \<Rightarrow> int \<Rightarrow> ('k, 'v) atree list \<Rightarrow> bool" where
  "node_rep B s i st ks \<longleftrightarrow>
     state (nodes s i) = st \<and> count (nodes s i) = int (length ks)
     \<and> length (data (nodes s i)) = nat (B + 1)
     \<and> take (length ks) (data (nodes s i)) = map entry ks"

fun rep :: "int \<Rightarrow> ('k, 'v) tree \<Rightarrow> ('k, 'v) atree \<Rightarrow> bool" where
  "rep B s (Item h p) = True"
| "rep B s (Node i st pp ks) = (node_rep B s i st ks \<and> (\<forall>k \<in> set ks. rep B s k))"

definition minok :: "('k, 'v) atree \<Rightarrow> bool" where
  "minok t \<longleftrightarrow> ppair t = (case inorder t of [] \<Rightarrow> ppair t | p # _ \<Rightarrow> p)"

text \<open>
  Shape: all leaves at depth \<open>h\<close>, the top node holding between \<open>a\<close> and \<open>b\<close> entries and
  every node below it more than \<open>lo\<close> and at most \<open>hi\<close>, each entry's pair being the least
  pair below it.
\<close>

fun wfb :: "nat \<Rightarrow> nat \<Rightarrow> nat \<Rightarrow> nat \<Rightarrow> nat \<Rightarrow> ('k, 'v) atree \<Rightarrow> bool" where
  "wfb lo hi a b 0 t = (case t of Item h p \<Rightarrow> True | Node i st pp ks \<Rightarrow> False)"
| "wfb lo hi a b (Suc h) t =
     (case t of
        Item h p \<Rightarrow> False
      | Node i st pp ks \<Rightarrow>
          (st < 0 \<longleftrightarrow> h = 0) \<and> a \<le> length ks \<and> length ks \<le> b
          \<and> (\<forall>k \<in> set ks. wfb lo hi (Suc lo) hi h k \<and> minok k))"

fun linked :: "(int \<times> int) list \<Rightarrow> int \<Rightarrow> bool" where
  "linked [] e = True"
| "linked [(i, n)] e = (n = e)"
| "linked ((i, n) # (j, m) # r) e = (n = j \<and> linked ((j, m) # r) e)"

definition avail :: "('k, 'v) tree \<Rightarrow> int set" where
  "avail s = set (free_blocks s) \<union> {i. next_block s \<le> i}"

definition alloc_wf :: "('k, 'v) tree \<Rightarrow> bool" where
  "alloc_wf s \<longleftrightarrow>
     distinct (free_blocks s) \<and> (\<forall>i \<in> set (free_blocks s). 1 \<le> i \<and> i < next_block s)
     \<and> 1 \<le> next_block s"

definition sub_ok :: "int \<Rightarrow> ('k::linorder, 'v::linorder) tree \<Rightarrow> ('k, 'v) atree \<Rightarrow> bool" where
  "sub_ok B s t \<longleftrightarrow>
     rep B s t \<and> sorted_wrt (<) (inorder t) \<and> distinct (idxs t)
     \<and> (\<forall>i \<in> set (idxs t). 0 \<le> i) \<and> alloc_wf s \<and> set (idxs t) \<inter> avail s = {}"

definition root_wf :: "int \<Rightarrow> ('k, 'v) atree \<Rightarrow> bool" where
  "root_wf B t \<longleftrightarrow>
     kids t = []
     \<or> wfb 0 (nat B) 1 1 2 t
     \<or> (\<exists>h. wfb (nat (MERGE_SIZE B)) (nat B) 2 (nat B) (Suc (Suc h)) t)"

definition tree_inv :: "int \<Rightarrow> ('k::linorder, 'v::linorder) tree \<Rightarrow> ('k, 'v) atree \<Rightarrow> bool" where
  "tree_inv B s t \<longleftrightarrow>
     idx t = 0 \<and> nstate t = 0 \<and> (case t of Item h p \<Rightarrow> False | Node i st pp ks \<Rightarrow> True)
     \<and> sub_ok B s t \<and> root_wf B t \<and> linked (leaves t) MAXN_SIZE"

text \<open>
  What one recursive call may do to the subtree \<open>t\<close> it is called on through the head
  reference \<open>href\<close>: it leaves a subtree \<open>t'\<close> in the same block, of the same kind and
  with the same pair in the parent, takes blocks only from those it owns or that are
  available, rewrites the parent's slot to the entry of \<open>t'\<close>, and leaves every other
  block alone.
\<close>

definition chain_pres :: "(int \<times> int) list \<Rightarrow> (int \<times> int) list \<Rightarrow> bool" where
  "chain_pres ls ls' \<longleftrightarrow>
     ls' \<noteq> [] \<and> fst (hd ls') = fst (hd ls) \<and> (\<forall>e. linked ls e \<longrightarrow> linked ls' e)"

definition href_at :: "('k, 'v) tree \<Rightarrow> href \<Rightarrow> ('k, 'v) atree \<Rightarrow> bool" where
  "href_at s href t \<longleftrightarrow>
     (case href of
        RootHead \<Rightarrow> idx t = 0 \<and> nstate t = 0
      | SlotHead p x \<Rightarrow>
          0 \<le> x \<and> nat x < length (data (nodes s p)) \<and> p \<notin> set (idxs t) \<and> p \<notin> avail s
          \<and> data (nodes s p) ! nat x = entry t)"

definition frame_ok ::
  "('k, 'v) tree \<Rightarrow> ('k, 'v) tree \<Rightarrow> href \<Rightarrow> ('k, 'v) atree \<Rightarrow> ('k, 'v) atree \<Rightarrow> bool" where
  "frame_ok s s' href t t' \<longleftrightarrow>
     (\<forall>j. j \<notin> set (idxs t) \<and> j \<notin> avail s \<longrightarrow>
        nodes s' j =
          (case href of
             RootHead \<Rightarrow> nodes s j
           | SlotHead p x \<Rightarrow>
               if j = p then (nodes s p)\<lparr>data := (data (nodes s p))[nat x := entry t']\<rparr>
               else nodes s j))"

definition step_ok ::
  "int \<Rightarrow> ('k::linorder, 'v::linorder) tree \<Rightarrow> href \<Rightarrow> ('k, 'v) atree \<Rightarrow> ('k, 'v) tree
     \<Rightarrow> ('k, 'v) atree \<Rightarrow> bool" where
  "step_ok B s href t s' t' \<longleftrightarrow>
     sub_ok B s' t' \<and> set (idxs t') \<union> avail s' \<subseteq> set (idxs t) \<union> avail s
     \<and> frame_ok s s' href t t' \<and> idx t' = idx t \<and> nstate t' = nstate t
     \<and> ppair t' = ppair t"

text \<open>
  The four amortization branches and the two ordinary merge branches of the source all act
  on a pair of adjacent children \<open>y\<close>, \<open>y + 1\<close> of the parent; these two functions are
  that common shape, used to state what the branches do.
\<close>

definition amortize_pair :: "bool \<Rightarrow> ('k, 'v) tree \<Rightarrow> int \<Rightarrow> int \<Rightarrow> ('k, 'v) tree" where
  "amortize_pair to_prev s pointer y =
     (let prev = get_pointer (node_head s pointer y);
          nxt = get_pointer (node_head s pointer (y + 1));
          s = (if to_prev then amortize_next s prev nxt else amortize_prev s prev nxt);
          s = set_head_count pointer y (count (nodes s prev)) s;
          s = set_head_count pointer (y + 1) (count (nodes s nxt)) s
      in set_v pointer (y + 1) (v_pair (get_tuple s nxt 0)) s)"

definition merge_pair :: "('k, 'v) tree \<Rightarrow> int \<Rightarrow> int \<Rightarrow> ('k, 'v) tree" where
  "merge_pair s pointer y =
     (let prev = get_pointer (node_head s pointer y);
          nxt = get_pointer (node_head s pointer (y + 1));
          s = merge_node s prev nxt;
          s = set_data pointer (mmove (data (nodes s pointer)) (y + 1)
                (data (nodes s pointer)) (y + 2) (count (nodes s pointer) - y - 2)) s
      in set_head_count pointer y (count (nodes s prev)) s)"

text \<open>
  What the recursive insert promises for the subtree it was called on: the pairs below it
  are the old ones and the new pair; when the pair was already there nothing at all
  changes; and the returned flag says whether the subtree's top node gained an entry
  (then it may hold one entry too many, and \<open>cache_pointer\<close> points to it). When the
  only leaf under the root is split, both halves hold more than \<open>MERGE_SIZE\<close> entries.
\<close>

definition ins_post ::
  "int \<Rightarrow> nat \<Rightarrow> nat \<Rightarrow> nat \<Rightarrow> nat \<Rightarrow> nat \<Rightarrow> 'k \<times> 'v \<Rightarrow> ('k::linorder, 'v::linorder) tree \<Rightarrow> href
     \<Rightarrow> ('k, 'v) atree \<Rightarrow> ('k, 'v) tree \<Rightarrow> bool \<Rightarrow> ('k, 'v) atree \<Rightarrow> bool" where
  "ins_post B lo hi a b h kv s href t s' r t' \<longleftrightarrow>
     step_ok B s href t s' t'
     \<and> set (inorder t') = insert kv (set (inorder t))
     \<and> chain_pres (leaves t) (leaves t')
     \<and> (kv \<in> set (inorder t) \<longrightarrow> s' = s \<and> \<not> r)
     \<and> (if r then cache_pointer s' = idx t \<and> length (kids t') = Suc (length (kids t))
                 \<and> wfb lo hi a (Suc b) h t'
                 \<and> (length (kids t) = 1 \<and> h = 2 \<longrightarrow> wfb (nat (MERGE_SIZE B)) hi a (Suc b) h t')
          else length (kids t') = length (kids t) \<and> wfb lo hi a b h t')"

section \<open>Specification vocabulary\<close>

definition pair_less :: "'k::linorder \<times> 'v::linorder \<Rightarrow> 'k \<times> 'v \<Rightarrow> bool" where
  "pair_less p q = (fst p < fst q \<or> (fst p = fst q \<and> snd p < snd q))"

record tree_params =
  TABLE_SIZE :: int
  CACHE_SIZE :: int
  BLOCK_SIZE :: int

definition main_tree_params :: tree_params where
  "main_tree_params = \<lparr>TABLE_SIZE = 4095, CACHE_SIZE = 50, BLOCK_SIZE = 101\<rparr>"

section \<open>Example states\<close>

definition ex_tuple :: "nat \<times> nat \<Rightarrow> (nat, nat) value_tuple" where
  "ex_tuple p = \<lparr>head = \<lparr>state = 0, count = 0\<rparr>, v_pair = p\<rparr>"

definition ex_entry :: "int \<Rightarrow> int \<Rightarrow> nat \<times> nat \<Rightarrow> (nat, nat) value_tuple" where
  "ex_entry st c p = \<lparr>head = \<lparr>state = st, count = c\<rparr>, v_pair = p\<rparr>"

definition ex_node :: "int \<Rightarrow> int \<Rightarrow> (nat, nat) value_tuple list \<Rightarrow> (nat, nat) node" where
  "ex_node st c ts = \<lparr>state = st, count = c, data = ts\<rparr>"

definition ex_store :: "(int \<Rightarrow> (nat, nat) node) \<Rightarrow> int \<Rightarrow> (nat, nat) tree" where
  "ex_store f cp =
     \<lparr>nodes = f, cache_pointer = cp, free_blocks = [], next_block = 20, modified = {}\<rparr>"

text \<open>A root with three leaves; the middle one is overfull (B = 10).\<close>

definition ex_amort_tie :: "(nat, nat) tree" where
  "ex_amort_tie =
     ex_store ((\<lambda>_. ex_node 0 0 [])
       (0 := ex_node 0 3 ([ex_entry (NOT 1) 5 (1, 0), ex_entry (NOT 2) 11 (2, 0), ex_entry (NOT 3) 5 (3, 0)] @ map ex_tuple [(0, 0), (0, 0), (0, 0), (0, 0), (0, 0), (0, 0), (0, 0), (0, 0)]),
        1 := ex_node (NOT 2) 5 (map ex_tuple [(1, 0), (1, 1), (1, 2), (1, 3), (1, 4), (0, 0), (0, 0), (0, 0), (0, 0), (0, 0), (0, 0)]),
        2 := ex_node (NOT 3) 11 (map ex_tuple [(2, 0), (2, 1), (2, 2), (2, 3), (2, 4), (2, 5), (2, 6), (2, 7), (2, 8), (2, 9), (2, 10)]),
        3 := ex_node (NOT MAXN_SIZE) 5 (map ex_tuple [(3, 0), (3, 1), (3, 2), (3, 3), (3, 4), (0, 0), (0, 0), (0, 0), (0, 0), (0, 0), (0, 0)]))) 2"

definition ex_amort_left :: "(nat, nat) tree" where
  "ex_amort_left =
     ex_store ((\<lambda>_. ex_node 0 0 [])
       (0 := ex_node 0 3 ([ex_entry (NOT 1) 5 (1, 0), ex_entry (NOT 2) 11 (2, 0), ex_entry (NOT 3) 4 (3, 0)] @ map ex_tuple [(0, 0), (0, 0), (0, 0), (0, 0), (0, 0), (0, 0), (0, 0), (0, 0)]),
        1 := ex_node (NOT 2) 5 (map ex_tuple [(1, 0), (1, 1), (1, 2), (1, 3), (1, 4), (0, 0), (0, 0), (0, 0), (0, 0), (0, 0), (0, 0)]),
        2 := ex_node (NOT 3) 11 (map ex_tuple [(2, 0), (2, 1), (2, 2), (2, 3), (2, 4), (2, 5), (2, 6), (2, 7), (2, 8), (2, 9), (2, 10)]),
        3 := ex_node (NOT MAXN_SIZE) 4 (map ex_tuple [(3, 0), (3, 1), (3, 2), (3, 3), (0, 0), (0, 0), (0, 0), (0, 0), (0, 0), (0, 0), (0, 0)]))) 2"

text \<open>
  A root with two inner children of four leaves each, four pairs per leaf (B = 10):
  erasing one pair makes a leaf merge, its parent underfull, and the root contract.
\<close>

definition ex_contract :: "(nat, nat) tree" where
  "ex_contract =
     ex_store ((\<lambda>_. ex_node 0 0 [])
       (0 := ex_node 0 2 ([ex_entry 1 4 (1, 0), ex_entry 2 4 (17, 0)] @ map ex_tuple [(0, 0), (0, 0), (0, 0), (0, 0), (0, 0), (0, 0), (0, 0), (0, 0), (0, 0)]),
        1 := ex_node 2 4 ([ex_entry (NOT 3) 4 (1, 0), ex_entry (NOT 4) 4 (5, 0), ex_entry (NOT 5) 4 (9, 0), ex_entry (NOT 6) 4 (13, 0)] @ map ex_tuple [(0, 0), (0, 0), (0, 0), (0, 0), (0, 0), (0, 0), (0, 0)]),
        2 := ex_node MAXN_SIZE 4 ([ex_entry (NOT 7) 4 (17, 0), ex_entry (NOT 8) 4 (21, 0), ex_entry (NOT 9) 4 (25, 0), ex_entry (NOT 10) 4 (29, 0)] @ map ex_tuple [(0, 0), (0, 0), (0, 0), (0, 0), (0, 0), (0, 0), (0, 0)]),
        3 := ex_node (NOT 4) 4 (map ex_tuple [(1, 0), (2, 0), (3, 0), (4, 0), (0, 0), (0, 0), (0, 0), (0, 0), (0, 0), (0, 0), (0, 0)]),
        4 := ex_node (NOT 5) 4 (map ex_tuple [(5, 0), (6, 0), (7, 0), (8, 0), (0, 0), (0, 0), (0, 0), (0, 0), (0, 0), (0, 0), (0, 0)]),
        5 := ex_node (NOT 6) 4 (map ex_tuple [(9, 0), (10, 0), (11, 0), (12, 0), (0, 0), (0, 0), (0, 0), (0, 0), (0, 0), (0, 0), (0, 0)]),
        6 := ex_node (NOT 7) 4 (map ex_tuple [(13, 0), (14, 0), (15, 0), (16, 0), (0, 0), (0, 0), (0, 0), (0, 0), (0, 0), (0, 0), (0, 0)]),
        7 := ex_node (NOT 8) 4 (map ex_tuple [(17, 0), (18, 0), (19, 0), (20, 0), (0, 0), (0, 0), (0, 0), (0, 0), (0, 0), (0, 0), (0, 0)]),
        8 := ex_node (NOT 9) 4 (map ex_tuple [(21, 0), (22, 0), (23, 0), (24, 0), (0, 0), (0, 0), (0, 0), (0, 0), (0, 0), (0, 0), (0, 0)]),
        9 := ex_node (NOT 10) 4 (map ex_tuple [(25, 0), (26, 0), (27, 0), (28, 0), (0, 0), (0, 0), (0, 0), (0, 0), (0, 0), (0, 0), (0, 0)]),
        10 := ex_node (NOT MAXN_SIZE) 4 (map ex_tuple [(29, 0), (30, 0), (31, 0), (32, 0), (0, 0), (0, 0), (0, 0), (0, 0), (0, 0), (0, 0), (0, 0)]))) 0"

definition ex_contract_mid :: "(nat, nat) tree" where
  "ex_contract_mid = fst (the (erase_inner 10 ex_contract (SlotHead 0 0) 6 0))"

section \<open>Searching inside a node\<close>

lemma pair_less_iff: "pair_less p q \<longleftrightarrow> p < q"
  by (cases p; cases q) (auto simp: pair_less_def)

lemma drop_bit_1_int: "drop_bit (Suc 0) (x::int) = x div 2"
  by (simp add: drop_bit_Suc)

lemma binary_search_aux:
  fixes dat :: "('k::linorder, 'v::linorder) value_tuple list"
  assumes "l \<le> r"
    and "\<forall>i j. l \<le> i \<and> i < j \<and> j < r \<longrightarrow> v_pair (dat ! nat i) < v_pair (dat ! nat j)"
  shows "\<exists>b. binary_search dat key val l r = Some b \<and>
           ((l \<le> b \<and> b \<le> r
              \<and> (\<forall>j. l \<le> j \<and> j < b \<longrightarrow> v_pair (dat ! nat j) < (key, val))
              \<and> (\<forall>j. b \<le> j \<and> j < r \<longrightarrow> (key, val) < v_pair (dat ! nat j)))
            \<or> (l \<le> NOT b \<and> NOT b < r \<and> v_pair (dat ! nat (NOT b)) = (key, val)))"
  using assms
proof (induction "nat (r - l)" arbitrary: l r rule: less_induct)
  case less
  show ?case
  proof (cases "l = r")
    case True
    then show ?thesis by (subst binary_search.simps) auto
  next
    case False
    define mid where "mid = (l + r) div 2"
    have mid: "l \<le> mid" "mid < r" using False less.prems by (auto simp: mid_def)
    obtain a b where ab: "v_pair (dat ! nat mid) = (a, b)" by (cases "v_pair (dat ! nat mid)")
    have sorted: "\<And>i j. l \<le> i \<Longrightarrow> i < j \<Longrightarrow> j < r \<Longrightarrow> v_pair (dat ! nat i) < v_pair (dat ! nat j)"
      using less.prems(2) by blast
    consider (gt) "(a, b) < (key, val)" | (lt) "(key, val) < (a, b)" | (eq) "(a, b) = (key, val)"
      using linorder_less_linear by blast
    then show ?thesis
    proof cases
      case gt
      have step: "binary_search dat key val l r = binary_search dat key val (mid + 1) r"
        using gt False ab
        by (subst binary_search.simps) (auto simp: Let_def drop_bit_1_int mid_def k_comp_def)
      have m: "nat (r - (mid + 1)) < nat (r - l)" using mid by auto
      have p1: "mid + 1 \<le> r" using mid by simp
      have p2: "\<forall>i j. mid + 1 \<le> i \<and> i < j \<and> j < r \<longrightarrow> v_pair (dat ! nat i) < v_pair (dat ! nat j)"
        using sorted mid by auto
      from less.hyps[OF m p1 p2] obtain c where c: "binary_search dat key val (mid + 1) r = Some c"
        and cc: "(mid + 1 \<le> c \<and> c \<le> r
              \<and> (\<forall>j. mid + 1 \<le> j \<and> j < c \<longrightarrow> v_pair (dat ! nat j) < (key, val))
              \<and> (\<forall>j. c \<le> j \<and> j < r \<longrightarrow> (key, val) < v_pair (dat ! nat j)))
            \<or> (mid + 1 \<le> NOT c \<and> NOT c < r \<and> v_pair (dat ! nat (NOT c)) = (key, val))"
        by blast
      have below: "v_pair (dat ! nat j) < (key, val)" if "l \<le> j" "j \<le> mid" for j
      proof -
        have "v_pair (dat ! nat j) \<le> v_pair (dat ! nat mid)"
          using sorted[of j mid] mid that by (cases "j = mid") auto
        then show ?thesis unfolding ab using gt by (rule le_less_trans)
      qed
      from cc show ?thesis
      proof
        assume h: "mid + 1 \<le> c \<and> c \<le> r
              \<and> (\<forall>j. mid + 1 \<le> j \<and> j < c \<longrightarrow> v_pair (dat ! nat j) < (key, val))
              \<and> (\<forall>j. c \<le> j \<and> j < r \<longrightarrow> (key, val) < v_pair (dat ! nat j))"
        have "v_pair (dat ! nat j) < (key, val)" if "l \<le> j" "j < c" for j
          using below[of j] h that by (cases "j \<le> mid") auto
        then show ?thesis unfolding step using c h mid by auto
      next
        assume "mid + 1 \<le> NOT c \<and> NOT c < r \<and> v_pair (dat ! nat (NOT c)) = (key, val)"
        then show ?thesis unfolding step using c mid by auto
      qed
    next
      case lt
      have step: "binary_search dat key val l r = binary_search dat key val l mid"
        using lt False ab
        by (subst binary_search.simps) (auto simp: Let_def drop_bit_1_int mid_def k_comp_def)
      have m: "nat (mid - l) < nat (r - l)" using mid by auto
      have p2: "\<forall>i j. l \<le> i \<and> i < j \<and> j < mid \<longrightarrow> v_pair (dat ! nat i) < v_pair (dat ! nat j)"
        using sorted mid by auto
      from less.hyps[OF m mid(1) p2] obtain c where c: "binary_search dat key val l mid = Some c"
        and cc: "(l \<le> c \<and> c \<le> mid
              \<and> (\<forall>j. l \<le> j \<and> j < c \<longrightarrow> v_pair (dat ! nat j) < (key, val))
              \<and> (\<forall>j. c \<le> j \<and> j < mid \<longrightarrow> (key, val) < v_pair (dat ! nat j)))
            \<or> (l \<le> NOT c \<and> NOT c < mid \<and> v_pair (dat ! nat (NOT c)) = (key, val))"
        by blast
      have above: "(key, val) < v_pair (dat ! nat j)" if "mid \<le> j" "j < r" for j
      proof -
        have "v_pair (dat ! nat mid) \<le> v_pair (dat ! nat j)"
          using sorted[of mid j] mid that by (cases "j = mid") auto
        then show ?thesis unfolding ab using lt by (rule order.strict_trans2[rotated])
      qed
      from cc show ?thesis
      proof
        assume h: "l \<le> c \<and> c \<le> mid
              \<and> (\<forall>j. l \<le> j \<and> j < c \<longrightarrow> v_pair (dat ! nat j) < (key, val))
              \<and> (\<forall>j. c \<le> j \<and> j < mid \<longrightarrow> (key, val) < v_pair (dat ! nat j))"
        have "(key, val) < v_pair (dat ! nat j)" if "c \<le> j" "j < r" for j
          using above[of j] h that by (cases "mid \<le> j") auto
        then show ?thesis unfolding step using c h mid by auto
      next
        assume "l \<le> NOT c \<and> NOT c < mid \<and> v_pair (dat ! nat (NOT c)) = (key, val)"
        then show ?thesis unfolding step using c mid by auto
      qed
    next
      case eq
      have "binary_search dat key val l r = Some (NOT mid)"
        using eq False ab
        by (subst binary_search.simps) (auto simp: Let_def drop_bit_1_int mid_def k_comp_def)
      then show ?thesis using mid ab eq by simp
    qed
  qed
qed


text \<open>
  Claim C6. On an entry array that is strictly ascending by (key, value) over the range
  \<open>[l, r)\<close>, \<open>binary_search\<close> returns the bit-complement \<open>NOT m\<close> of the position \<open>m\<close>
  holding exactly the searched pair when there is one; otherwise it returns an index
  \<open>i\<close> with \<open>l \<le> i \<le> r\<close>, every entry before \<open>i\<close> being smaller than the pair and every
  entry from \<open>i\<close> on being larger. Pairs are compared by key first, then by value
  (\<open>pair_less\<close>).
\<close>

theorem binary_search_spec:
  fixes dat :: "('k::linorder, 'v::linorder) value_tuple list"
  assumes "0 \<le> l" "l \<le> r" "nat r \<le> length dat"
    and "\<forall>i j. l \<le> i \<and> i < j \<and> j < r
           \<longrightarrow> pair_less (v_pair (dat ! nat i)) (v_pair (dat ! nat j))"
  shows "(\<forall>m. l \<le> m \<and> m < r \<and> v_pair (dat ! nat m) = (key, val)
            \<longrightarrow> binary_search dat key val l r = Some (NOT m))
       \<and> ((\<forall>m. l \<le> m \<and> m < r \<longrightarrow> v_pair (dat ! nat m) \<noteq> (key, val))
            \<longrightarrow> (\<exists>i. binary_search dat key val l r = Some i \<and> l \<le> i \<and> i \<le> r
                  \<and> (\<forall>j. l \<le> j \<and> j < i \<longrightarrow> pair_less (v_pair (dat ! nat j)) (key, val))
                  \<and> (\<forall>j. i \<le> j \<and> j < r \<longrightarrow> pair_less (key, val) (v_pair (dat ! nat j)))))"
proof -
  have srt: "\<forall>i j. l \<le> i \<and> i < j \<and> j < r \<longrightarrow> v_pair (dat ! nat i) < v_pair (dat ! nat j)"
    using assms(4) by (simp add: pair_less_iff)
  from binary_search_aux[OF assms(2) srt, of key val]
  obtain b where b: "binary_search dat key val l r = Some b"
    and bb: "(l \<le> b \<and> b \<le> r
              \<and> (\<forall>j. l \<le> j \<and> j < b \<longrightarrow> v_pair (dat ! nat j) < (key, val))
              \<and> (\<forall>j. b \<le> j \<and> j < r \<longrightarrow> (key, val) < v_pair (dat ! nat j)))
            \<or> (l \<le> NOT b \<and> NOT b < r \<and> v_pair (dat ! nat (NOT b)) = (key, val))"
    by blast
  have uniq: "m = m'" if "l \<le> m" "m < r" "v_pair (dat ! nat m) = (key, val)"
    "l \<le> m'" "m' < r" "v_pair (dat ! nat m') = (key, val)" for m m'
  proof (rule ccontr)
    assume "m \<noteq> m'"
    then consider "m < m'" | "m' < m" by linarith
    then show False using srt that by cases (metis less_irrefl)+
  qed
  have part1: "binary_search dat key val l r = Some (NOT m)"
    if m: "l \<le> m" "m < r" "v_pair (dat ! nat m) = (key, val)" for m
    using bb
  proof
    assume h: "l \<le> b \<and> b \<le> r
              \<and> (\<forall>j. l \<le> j \<and> j < b \<longrightarrow> v_pair (dat ! nat j) < (key, val))
              \<and> (\<forall>j. b \<le> j \<and> j < r \<longrightarrow> (key, val) < v_pair (dat ! nat j))"
    show ?thesis
    proof (cases "m < b")
      case True
      with h m have "v_pair (dat ! nat m) < (key, val)" by blast
      with m show ?thesis by simp
    next
      case False
      with h m have "(key, val) < v_pair (dat ! nat m)" by (metis not_less)
      with m show ?thesis by simp
    qed
  next
    assume h: "l \<le> NOT b \<and> NOT b < r \<and> v_pair (dat ! nat (NOT b)) = (key, val)"
    then have "NOT b = m" using uniq m by blast
    then have "b = NOT m" by (metis bit.double_compl)
    with b show ?thesis by simp
  qed
  have part2: "\<exists>i. binary_search dat key val l r = Some i \<and> l \<le> i \<and> i \<le> r
                  \<and> (\<forall>j. l \<le> j \<and> j < i \<longrightarrow> pair_less (v_pair (dat ! nat j)) (key, val))
                  \<and> (\<forall>j. i \<le> j \<and> j < r \<longrightarrow> pair_less (key, val) (v_pair (dat ! nat j)))"
    if "\<forall>m. l \<le> m \<and> m < r \<longrightarrow> v_pair (dat ! nat m) \<noteq> (key, val)"
    using bb b that by (auto simp: pair_less_iff)
  show ?thesis using part1 part2 by blast
qed

theorem binary_search_spec_witness:
  "binary_search (map ex_tuple [(1, 1), (1, 5), (2, 0)]) 1 5 0 3 = Some (NOT 1)
   \<and> (\<exists>i. binary_search (map ex_tuple [(1, 1), (1, 5), (2, 0)]) 1 3 0 3 = Some i \<and> 0 \<le> i \<and> i \<le> 3)"
proof -
  let ?d = "map ex_tuple [(1, 1), (1, 5), (2, 0)]"
  have ij: "i = 0 \<and> j = 1 \<or> i = 0 \<and> j = 2 \<or> i = 1 \<and> j = 2" if "0 \<le> i" "i < j" "j < 3" for i j :: int
    using that by arith
  have srt: "\<forall>i j. (0::int) \<le> i \<and> i < j \<and> j < 3
               \<longrightarrow> pair_less (v_pair (?d ! nat i)) (v_pair (?d ! nat j))"
  proof (intro allI impI)
    fix i j :: int
    assume "0 \<le> i \<and> i < j \<and> j < 3"
    then have "i = 0 \<and> j = 1 \<or> i = 0 \<and> j = 2 \<or> i = 1 \<and> j = 2" using ij by blast
    then show "pair_less (v_pair (?d ! nat i)) (v_pair (?d ! nat j))"
      by (elim disjE conjE) (simp_all add: pair_less_def ex_tuple_def)
  qed
  have m3: "m = 0 \<or> m = 1 \<or> m = 2" if "0 \<le> m" "m < 3" for m :: int using that by arith
  have ne: "\<forall>m. (0::int) \<le> m \<and> m < 3 \<longrightarrow> v_pair (?d ! nat m) \<noteq> (1, 3)"
  proof (intro allI impI)
    fix m :: int
    assume "0 \<le> m \<and> m < 3"
    then have "m = 0 \<or> m = 1 \<or> m = 2" using m3 by blast
    then show "v_pair (?d ! nat m) \<noteq> (1, 3)"
      by (elim disjE) (simp_all add: ex_tuple_def)
  qed
  have h0: "(0::int) \<le> 0" "(0::int) \<le> 3" "nat 3 \<le> length ?d" by simp_all
  have "\<forall>m. 0 \<le> m \<and> m < 3 \<and> v_pair (?d ! nat m) = (1, 5)
          \<longrightarrow> binary_search ?d 1 5 0 3 = Some (NOT m)"
    using binary_search_spec[OF h0 srt, of 1 5] by blast
  from this[rule_format, of 1] have a: "binary_search ?d 1 5 0 3 = Some (NOT 1)"
    by (simp add: ex_tuple_def)
  have b: "\<exists>i. binary_search ?d 1 3 0 3 = Some i \<and> 0 \<le> i \<and> i \<le> 3"
    using binary_search_spec[OF h0 srt, of 1 3] ne by blast
  show ?thesis using a b by blast
qed


section \<open>The driver's instantiation\<close>

text \<open>
  Claim C8 (as amended). The driver instantiates the tree with the template arguments
  \<open>4095, 50, 101\<close>, in the order \<open>TABLE_SIZE, CACHE_SIZE, BLOCK_SIZE\<close>: the number of
  entries per node is 101 (thresholds 67 and 33), and 50 is the capacity of the page cache.
\<close>

theorem main_block_size:
  "BLOCK_SIZE main_tree_params = 101 \<and> CACHE_SIZE main_tree_params = 50
   \<and> AMORT_SIZE (BLOCK_SIZE main_tree_params) = 67
   \<and> MERGE_SIZE (BLOCK_SIZE main_tree_params) = 33"
  by (simp add: main_tree_params_def AMORT_SIZE_def MERGE_SIZE_def)

theorem main_block_size_not_50: "BLOCK_SIZE main_tree_params \<noteq> 50"
  by (simp add: main_tree_params_def)

section \<open>Store updates\<close>

lemmas store_defs = upd_node_def set_state_def set_count_def set_data_def get_tuple_def
  set_tuple_def node_head_def set_head_def set_head_count_def set_head_state_def set_v_def
  modify_def

lemma nodes_upd_node [simp]: "nodes (upd_node p f s) = (nodes s)(p := f (nodes s p))"
  by (simp add: upd_node_def)

lemma nodes_set_state [simp]: "nodes (set_state p x s) = (nodes s)(p := (nodes s p)\<lparr>state := x\<rparr>)"
  by (simp add: set_state_def)

lemma nodes_set_count [simp]: "nodes (set_count p c s) = (nodes s)(p := (nodes s p)\<lparr>count := c\<rparr>)"
  by (simp add: set_count_def)

lemma nodes_set_data [simp]: "nodes (set_data p d s) = (nodes s)(p := (nodes s p)\<lparr>data := d\<rparr>)"
  by (simp add: set_data_def)

lemma nodes_set_tuple [simp]:
  "nodes (set_tuple p x t s) = (nodes s)(p := (nodes s p)\<lparr>data := (data (nodes s p))[nat x := t]\<rparr>)"
  by (simp add: set_tuple_def)

lemma nodes_set_head [simp]:
  "nodes (set_head p x h s) =
     (nodes s)(p := (nodes s p)\<lparr>data := (data (nodes s p))[nat x := (data (nodes s p) ! nat x)\<lparr>head := h\<rparr>]\<rparr>)"
  by (simp add: set_head_def get_tuple_def)

lemma nodes_set_head_count [simp]:
  "nodes (set_head_count p x c s) =
     (nodes s)(p := (nodes s p)\<lparr>data := (data (nodes s p))
        [nat x := (data (nodes s p) ! nat x)\<lparr>head := (head (data (nodes s p) ! nat x))\<lparr>count := c\<rparr>\<rparr>]\<rparr>)"
  by (simp add: set_head_count_def node_head_def get_tuple_def)

lemma nodes_set_head_state [simp]:
  "nodes (set_head_state p x c s) =
     (nodes s)(p := (nodes s p)\<lparr>data := (data (nodes s p))
        [nat x := (data (nodes s p) ! nat x)\<lparr>head := (head (data (nodes s p) ! nat x))\<lparr>state := c\<rparr>\<rparr>]\<rparr>)"
  by (simp add: set_head_state_def node_head_def get_tuple_def)

lemma nodes_set_v [simp]:
  "nodes (set_v p x kv s) =
     (nodes s)(p := (nodes s p)\<lparr>data := (data (nodes s p))[nat x := (data (nodes s p) ! nat x)\<lparr>v_pair := kv\<rparr>]\<rparr>)"
  by (simp add: set_v_def get_tuple_def)

lemma nodes_modify [simp]: "nodes (modify p s) = nodes s"
  by (simp add: modify_def)

lemma nodes_recycle [simp]: "nodes (recycle p s) = nodes s"
  by (simp add: recycle_def)

lemma cache_pointer_setters [simp]:
  "cache_pointer (upd_node p f s) = cache_pointer s"
  "cache_pointer (set_state p x s) = cache_pointer s"
  "cache_pointer (set_count p c s) = cache_pointer s"
  "cache_pointer (set_data p d s) = cache_pointer s"
  "cache_pointer (set_tuple p y t s) = cache_pointer s"
  "cache_pointer (set_head p y h s) = cache_pointer s"
  "cache_pointer (set_head_count p y c s) = cache_pointer s"
  "cache_pointer (set_head_state p y c s) = cache_pointer s"
  "cache_pointer (set_v p y kv s) = cache_pointer s"
  "cache_pointer (modify p s) = cache_pointer s"
  "cache_pointer (recycle p s) = cache_pointer s"
  by (simp_all add: store_defs recycle_def)

lemma free_blocks_setters [simp]:
  "free_blocks (upd_node p f s) = free_blocks s"
  "free_blocks (set_state p x s) = free_blocks s"
  "free_blocks (set_count p c s) = free_blocks s"
  "free_blocks (set_data p d s) = free_blocks s"
  "free_blocks (set_tuple p y t s) = free_blocks s"
  "free_blocks (set_head p y h s) = free_blocks s"
  "free_blocks (set_head_count p y c s) = free_blocks s"
  "free_blocks (set_head_state p y c s) = free_blocks s"
  "free_blocks (set_v p y kv s) = free_blocks s"
  "free_blocks (modify p s) = free_blocks s"
  "free_blocks (recycle p s) = p # free_blocks s"
  by (simp_all add: store_defs recycle_def)

lemma next_block_setters [simp]:
  "next_block (upd_node p f s) = next_block s"
  "next_block (set_state p x s) = next_block s"
  "next_block (set_count p c s) = next_block s"
  "next_block (set_data p d s) = next_block s"
  "next_block (set_tuple p y t s) = next_block s"
  "next_block (set_head p y h s) = next_block s"
  "next_block (set_head_count p y c s) = next_block s"
  "next_block (set_head_state p y c s) = next_block s"
  "next_block (set_v p y kv s) = next_block s"
  "next_block (modify p s) = next_block s"
  "next_block (recycle p s) = next_block s"
  by (simp_all add: store_defs recycle_def)

lemma node_head_eq: "node_head s p x = head (data (nodes s p) ! nat x)"
  by (simp add: node_head_def get_tuple_def)

lemma get_tuple_eq: "get_tuple s p x = data (nodes s p) ! nat x"
  by (simp add: get_tuple_def)

section \<open>Amortization on insert\<close>

lemma insert_amortize_left:
  assumes "x \<noteq> 0" "count (node_head s pointer (x - 1)) < AMORT_SIZE B"
    and "x \<noteq> count (nodes s pointer) - 1 \<and> count (node_head s pointer (x + 1)) < AMORT_SIZE B
         \<longrightarrow> \<not> count (node_head s pointer (x - 1)) > count (node_head s pointer (x + 1))"
  shows "insert_amortize B s pointer x =
     (let prev = get_pointer (node_head s pointer (x - 1));
          nxt = cache_pointer s;
          s = amortize_next s prev nxt;
          s = set_head_count pointer (x - 1) (count (nodes s prev)) s;
          s = set_head_count pointer x (count (nodes s nxt)) s;
          s = set_v pointer x (v_pair (get_tuple s nxt 0)) s
      in (s, True))"
  using assms unfolding insert_amortize_def by (auto simp: Let_def)

lemma insert_amortize_right:
  assumes "x \<noteq> count (nodes s pointer) - 1" "count (node_head s pointer (x + 1)) < AMORT_SIZE B"
    and "x \<noteq> 0 \<and> count (node_head s pointer (x - 1)) < AMORT_SIZE B
         \<longrightarrow> count (node_head s pointer (x - 1)) > count (node_head s pointer (x + 1))"
  shows "insert_amortize B s pointer x =
     (let prev = cache_pointer s;
          nxt = get_pointer (node_head s pointer (x + 1));
          s = amortize_prev s prev nxt;
          s = set_head_count pointer x (count (nodes s prev)) s;
          s = set_head_count pointer (x + 1) (count (nodes s nxt)) s;
          s = set_v pointer (x + 1) (v_pair (get_tuple s nxt 0)) s
      in (s, True))"
  using assms unfolding insert_amortize_def by (auto simp: Let_def)

lemma amortize_next_nodes:
  assumes "prev \<noteq> nxt"
  shows "nodes (amortize_next s prev nxt) =
    (let P = nodes s prev; N = nodes s nxt; d = (count N - count P) div 2 in
     (nodes s)(prev := P\<lparr>data := mmove (data P) (count P) (data N) 0 d, count := count P + d\<rparr>,
               nxt := N\<lparr>count := count N - d, data := mmove (data N) 0 (data N) d (count N - d)\<rparr>))"
  using assms
  by (simp add: amortize_next_def Let_def drop_bit_1_int fun_upd_twist)

lemma amortize_prev_nodes:
  assumes "prev \<noteq> nxt"
  shows "nodes (amortize_prev s prev nxt) =
    (let P = nodes s prev; N = nodes s nxt; d = (count P - count N) div 2 in
     (nodes s)(prev := P\<lparr>count := count P - d\<rparr>,
               nxt := N\<lparr>count := count N + d,
                  data := mmove (mmove (data N) d (data N) 0 (count N)) 0 (data P) (count P - d) d\<rparr>))"
  using assms
  by (simp add: amortize_prev_def Let_def drop_bit_1_int fun_upd_twist)

lemma amortize_other_fields [simp]:
  "cache_pointer (amortize_next s prev nxt) = cache_pointer s"
  "cache_pointer (amortize_prev s prev nxt) = cache_pointer s"
  "free_blocks (amortize_next s prev nxt) = free_blocks s"
  "free_blocks (amortize_prev s prev nxt) = free_blocks s"
  "next_block (amortize_next s prev nxt) = next_block s"
  "next_block (amortize_prev s prev nxt) = next_block s"
  by (simp_all add: amortize_next_def amortize_prev_def Let_def)

text \<open>
  Claim C7 (as amended). When both siblings of the overfull child qualify (both counts
  recorded in the parent are below \<open>AMORT_SIZE\<close>), the entries go to the right sibling
  \<open>x + 1\<close> only if its count is strictly lower than the left sibling's; otherwise, and in
  particular when the two counts are equal, they go to the left sibling \<open>x - 1\<close>. The
  sibling that is not chosen keeps its node unchanged, the chosen one grows by half the
  difference to the overfull child.
\<close>

theorem insert_amortize_choice:
  assumes "x \<noteq> 0" "x \<noteq> count (nodes s pointer) - 1"
    and "count (node_head s pointer (x - 1)) < AMORT_SIZE B"
    and "count (node_head s pointer (x + 1)) < AMORT_SIZE B"
    and "L = get_pointer (node_head s pointer (x - 1))"
    and "R = get_pointer (node_head s pointer (x + 1))"
    and "C = cache_pointer s"
    and "distinct [pointer, L, C, R]"
  shows "snd (insert_amortize B s pointer x)
       \<and> (if count (node_head s pointer (x - 1)) > count (node_head s pointer (x + 1))
          then nodes (fst (insert_amortize B s pointer x)) L = nodes s L
             \<and> count (nodes (fst (insert_amortize B s pointer x)) R)
                 = count (nodes s R) + drop_bit 1 (count (nodes s C) - count (nodes s R))
          else nodes (fst (insert_amortize B s pointer x)) R = nodes s R
             \<and> count (nodes (fst (insert_amortize B s pointer x)) L)
                 = count (nodes s L) + drop_bit 1 (count (nodes s C) - count (nodes s L)))"
proof -
  have d: "pointer \<noteq> L" "pointer \<noteq> C" "pointer \<noteq> R" "L \<noteq> C" "L \<noteq> R" "C \<noteq> R"
    using assms(8) by auto
  show ?thesis
  proof (cases "count (node_head s pointer (x - 1)) > count (node_head s pointer (x + 1))")
    case True
    have e: "insert_amortize B s pointer x =
       (let s = amortize_prev s C R;
            s = set_head_count pointer x (count (nodes s C)) s;
            s = set_head_count pointer (x + 1) (count (nodes s R)) s;
            s = set_v pointer (x + 1) (v_pair (get_tuple s R 0)) s
        in (s, True))"
      using assms(1-4) True unfolding assms(5-7)
      by (subst insert_amortize_right) (auto simp: Let_def)
    have n: "nodes (amortize_prev s C R) L = nodes s L"
      "count (nodes (amortize_prev s C R) R)
         = count (nodes s R) + (count (nodes s C) - count (nodes s R)) div 2"
      using d by (simp_all add: amortize_prev_nodes Let_def)
    show ?thesis using True d n unfolding e by (simp add: Let_def drop_bit_1_int)
  next
    case False
    have e: "insert_amortize B s pointer x =
       (let s = amortize_next s L C;
            s = set_head_count pointer (x - 1) (count (nodes s L)) s;
            s = set_head_count pointer x (count (nodes s C)) s;
            s = set_v pointer x (v_pair (get_tuple s C 0)) s
        in (s, True))"
      using assms(1-4) False unfolding assms(5-7)
      by (subst insert_amortize_left) (auto simp: Let_def)
    have n: "nodes (amortize_next s L C) R = nodes s R"
      "count (nodes (amortize_next s L C) L)
         = count (nodes s L) + (count (nodes s C) - count (nodes s L)) div 2"
      using d by (simp_all add: amortize_next_nodes Let_def)
    show ?thesis using False d n unfolding e by (simp add: Let_def drop_bit_1_int)
  qed
qed

lemmas ex_defs = ex_store_def ex_node_def ex_entry_def ex_tuple_def

theorem insert_amortize_choice_witness:
  "nodes (fst (insert_amortize 10 ex_amort_left 0 1)) 1 = nodes ex_amort_left 1
   \<and> count (nodes (fst (insert_amortize 10 ex_amort_left 0 1)) 3) = 7"
proof -
  have h: "(1::int) \<noteq> 0" "1 \<noteq> count (nodes ex_amort_left 0) - 1"
    "count (node_head ex_amort_left 0 (1 - 1)) < AMORT_SIZE 10"
    "count (node_head ex_amort_left 0 (1 + 1)) < AMORT_SIZE 10"
    "1 = get_pointer (node_head ex_amort_left 0 (1 - 1))"
    "3 = get_pointer (node_head ex_amort_left 0 (1 + 1))"
    "2 = cache_pointer ex_amort_left"
    "distinct [0, 1, 2, 3 :: int]"
    by code_simp+
  have c: "count (node_head ex_amort_left 0 (1 - 1)) > count (node_head ex_amort_left 0 (1 + 1))"
    "count (nodes ex_amort_left 3) = 4" "count (nodes ex_amort_left 2) = 11"
    by code_simp+
  show ?thesis
    using insert_amortize_choice[OF h] c by (simp add: drop_bit_1_int)
qed

theorem insert_amortize_tie_counterexample:
  "count (node_head ex_amort_tie 0 0) < AMORT_SIZE 10
   \<and> count (node_head ex_amort_tie 0 2) < AMORT_SIZE 10
   \<and> count (node_head ex_amort_tie 0 0) = count (node_head ex_amort_tie 0 2)
   \<and> cache_pointer ex_amort_tie = get_pointer (node_head ex_amort_tie 0 1)
   \<and> snd (insert_amortize 10 ex_amort_tie 0 1)
   \<and> nodes (fst (insert_amortize 10 ex_amort_tie 0 1)) 3 = nodes ex_amort_tie 3
   \<and> count (nodes ex_amort_tie 1) = 5
   \<and> count (nodes (fst (insert_amortize 10 ex_amort_tie 0 1)) 1) = 8"
  by code_simp

section \<open>Root contraction on erase\<close>

lemma mmove_take_exact:
  "nat d \<le> length dst \<Longrightarrow> nat s + nat n \<le> length src \<Longrightarrow>
   take (nat d + nat n) (mmove dst d src s n) = take (nat d) dst @ take (nat n) (drop (nat s) src)"
  by (simp add: mmove_def)

lemma erase_merge_root_nodes:
  assumes two: "count (nodes s 0) = 2"
    and x01: "x = 0 \<or> x = 1"
    and cp: "cache_pointer s = get_pointer (node_head s 0 x)"
    and inner: "is_inner (nodes s (cache_pointer s))"
    and LR: "L = get_pointer (node_head s 0 0)" "R = get_pointer (node_head s 0 1)"
    and dist: "distinct [0, L, R]"
  shows "nodes (erase_merge s 0 x) 0 =
      (nodes s 0)\<lparr>count := count (nodes s L) + count (nodes s R) + 1,
         data := mmove (mmove (data (nodes s 0)) 0 (data (nodes s L)) 0 (count (nodes s L)))
                   (count (nodes s L)) (data (nodes s R)) 0 (count (nodes s R))\<rparr>"
    and "free_blocks (erase_merge s 0 x) = R # L # free_blocks s"
proof -
  have c: "cache_pointer s = (if x = 0 then L else R)" using cp x01 LR by auto
  have e: "erase_merge s 0 x = merge_root s x" using two inner by (simp add: erase_merge_def)
  have pn: "(if x \<noteq> 0 then get_pointer (node_head s 0 0) else cache_pointer s) = L"
    "(if x \<noteq> 0 then cache_pointer s else get_pointer (node_head s 0 1)) = R"
    using c LR x01 by auto
  show "nodes (erase_merge s 0 x) 0 =
      (nodes s 0)\<lparr>count := count (nodes s L) + count (nodes s R) + 1,
         data := mmove (mmove (data (nodes s 0)) 0 (data (nodes s L)) 0 (count (nodes s L)))
                   (count (nodes s L)) (data (nodes s R)) 0 (count (nodes s R))\<rparr>"
    unfolding e merge_root_def pn using dist by (simp add: Let_def)
  show "free_blocks (erase_merge s 0 x) = R # L # free_blocks s"
    unfolding e merge_root_def pn by (simp add: Let_def)
qed

text \<open>
  Claim C5. Let the public erase descend from the root into child \<open>x\<close>, and let that
  recursive call come back with the child modified. If the root then has exactly two
  children, the child is an inner node that is underfull, and its sibling cannot lend
  entries, then the merge step copies the entries of the left child \<open>L\<close> and then those of
  the right child \<open>R\<close> into the root, puts both blocks on the free list, and when the
  public erase returns the root's count is the sum of the two children's counts.
\<close>

theorem erase_root_contraction:
  fixes s0 s :: "('k::linorder, 'v::linorder) tree"
  assumes root: "count (nodes s0 0) \<noteq> 0" "state (nodes s0 0) = 0"
    and bs: "binary_search (data (nodes s0 0)) key val 0 (count (nodes s0 0)) = Some b" "b \<noteq> 0"
    and x: "x = (if b > 0 then b - 1 else NOT b)"
    and rec: "erase_inner B s0 (SlotHead 0 x) key val = Some (s, True)"
    and two: "count (nodes s 0) = 2"
    and x01: "x = 0 \<or> x = 1"
    and cp: "cache_pointer s = get_pointer (node_head s 0 x)"
    and inner: "is_inner (nodes s (cache_pointer s))"
    and under: "count (nodes s (cache_pointer s)) \<le> MERGE_SIZE B"
    and sib: "count (node_head s 0 (1 - x)) < AMORT_SIZE B"
    and LR: "L = get_pointer (node_head s 0 0)" "R = get_pointer (node_head s 0 1)"
    and dist: "distinct [0, L, R]"
    and rng: "0 \<le> count (nodes s L)" "0 \<le> count (nodes s R)"
      "nat (count (nodes s L)) \<le> length (data (nodes s L))"
      "nat (count (nodes s R)) \<le> length (data (nodes s R))"
      "nat (count (nodes s L) + count (nodes s R)) \<le> length (data (nodes s 0))"
  shows "\<exists>s'. erase_pub B s0 key val = Some s'
     \<and> count (nodes s' 0) = count (nodes s L) + count (nodes s R)
     \<and> take (nat (count (nodes s L) + count (nodes s R))) (data (nodes s' 0))
         = take (nat (count (nodes s L))) (data (nodes s L))
           @ take (nat (count (nodes s R))) (data (nodes s R))
     \<and> L \<in> set (free_blocks s') \<and> R \<in> set (free_blocks s')"
proof -
  define flag where "flag = (b < 0)"
  have xf: "(if b > 0 then (b - 1, False) else (NOT b, True)) = (x, flag)"
    using x bs(2) by (auto simp: flag_def)
  have pub: "erase_pub B s0 key val = Some (fst (erase_fixup B s RootHead 0 x flag))"
    using root bs rec
    by (subst erase_pub_def, subst erase_inner.simps)
       (simp add: empty_tree_def is_inner_def get_pointer_def real_index_def xf)
  define s1 where "s1 = modify 0 s"
  define s2 where "s2 = (if flag then set_v 0 x (v_pair (get_tuple s1 (cache_pointer s1) 0)) s1 else s1)"
  have c: "cache_pointer s = (if x = 0 then L else R)" using cp x01 LR by auto
  then have cn0: "cache_pointer s \<noteq> 0" using dist by auto
  have s2_other: "nodes s2 j = nodes s j" if "j \<noteq> 0" for j
    using that by (simp add: s2_def s1_def)
  have s2_cp: "cache_pointer s2 = cache_pointer s" by (simp add: s2_def s1_def)
  have s2_fb: "free_blocks s2 = free_blocks s" by (simp add: s2_def s1_def)
  have s2_cnt: "count (nodes s2 0) = 2" using two by (simp add: s2_def s1_def)
  have s2_len: "length (data (nodes s2 0)) = length (data (nodes s 0))" by (simp add: s2_def s1_def)
  have s2_head: "node_head s2 0 y = node_head s 0 y" for y
    by (cases "nat y = nat x"; cases "nat x < length (data (nodes s 0))")
       (simp_all add: s2_def s1_def node_head_eq list_update_beyond)
  have am: "erase_amortize B s2 0 x = (s2, False)"
    using x01 sib s2_cnt by (auto simp: erase_amortize_def s2_head)
  have LRn: "L \<noteq> 0" "R \<noteq> 0" "L \<noteq> R" using dist by auto
  have fx: "erase_fixup B s RootHead 0 x flag =
     (let s3 = erase_merge s2 0 x;
          s4 = set_count 0 (count (nodes s3 0) - 1) s3;
          s5 = write_head_count RootHead (count (nodes s4 0)) s4
      in (s5\<lparr>cache_pointer := 0\<rparr>, True))"
    using under cn0 am
    by (simp add: erase_fixup_def Let_def s1_def[symmetric] s2_def[symmetric] s2_cp s2_other)
  have m: "nodes (erase_merge s2 0 x) 0 =
      (nodes s2 0)\<lparr>count := count (nodes s2 L) + count (nodes s2 R) + 1,
         data := mmove (mmove (data (nodes s2 0)) 0 (data (nodes s2 L)) 0 (count (nodes s2 L)))
                   (count (nodes s2 L)) (data (nodes s2 R)) 0 (count (nodes s2 R))\<rparr>"
    and f: "free_blocks (erase_merge s2 0 x) = R # L # free_blocks s2"
    using erase_merge_root_nodes[of s2 x L R] s2_cnt x01 cp inner LR dist cn0
    by (simp_all add: s2_cp s2_head s2_other)
  define s' where "s' = fst (erase_fixup B s RootHead 0 x flag)"
  have n': "nodes s' 0 = (nodes s2 0)\<lparr>count := count (nodes s L) + count (nodes s R),
         data := mmove (mmove (data (nodes s2 0)) 0 (data (nodes s L)) 0 (count (nodes s L)))
                   (count (nodes s L)) (data (nodes s R)) 0 (count (nodes s R))\<rparr>"
    unfolding s'_def fx using m LRn by (simp add: Let_def s2_other)
  have f': "free_blocks s' = R # L # free_blocks s"
    unfolding s'_def fx using f by (simp add: Let_def s2_fb)
  have tk: "take (nat (count (nodes s L) + count (nodes s R))) (data (nodes s' 0))
         = take (nat (count (nodes s L))) (data (nodes s L))
           @ take (nat (count (nodes s R))) (data (nodes s R))"
  proof -
    let ?a = "count (nodes s L)" and ?b = "count (nodes s R)"
    let ?m1 = "mmove (data (nodes s2 0)) 0 (data (nodes s L)) 0 ?a"
    have la: "nat ?a \<le> length (data (nodes s2 0))" using rng s2_len by linarith
    have l1: "length ?m1 = length (data (nodes s2 0))"
      using rng la by (simp add: mmove_def)
    have t1: "take (nat ?a) ?m1 = take (nat ?a) (data (nodes s L))"
      using rng la by (simp add: mmove_def)
    have "take (nat ?a + nat ?b) (mmove ?m1 ?a (data (nodes s R)) 0 ?b)
            = take (nat ?a) ?m1 @ take (nat ?b) (drop (nat 0) (data (nodes s R)))"
      using rng la l1 by (intro mmove_take_exact) auto
    then show ?thesis using rng t1 by (simp add: n' nat_add_distrib)
  qed
  show ?thesis
    using pub n' f' tk unfolding s'_def[symmetric] by simp
qed


theorem erase_root_contraction_witness:
  "\<exists>s'. erase_pub 10 ex_contract 6 0 = Some s'
     \<and> count (nodes s' 0) = 7
     \<and> map v_pair (take 7 (data (nodes s' 0)))
          = [(1, 0), (9, 0), (13, 0), (17, 0), (21, 0), (25, 0), (29, 0)]
     \<and> 1 \<in> set (free_blocks s') \<and> 2 \<in> set (free_blocks s')"
proof -
  let ?s = "ex_contract_mid"
  have h1: "count (nodes ex_contract 0) \<noteq> 0" "state (nodes ex_contract 0) = 0"
    by code_simp+
  have h2: "binary_search (data (nodes ex_contract 0)) 6 0 0 (count (nodes ex_contract 0)) = Some 1"
    "(1::int) \<noteq> 0" "(0::int) = (if 1 > (0::int) then 1 - 1 else NOT 1)"
    by code_simp+
  have "map_option snd (erase_inner 10 ex_contract (SlotHead 0 0) 6 0) = Some True"
    by code_simp
  then have h3: "erase_inner 10 ex_contract (SlotHead 0 0) 6 0 = Some (?s, True)"
    by (cases "erase_inner 10 ex_contract (SlotHead 0 0) 6 0") (auto simp: ex_contract_mid_def)
  have h4: "count (nodes ?s 0) = 2" "(0::int) = 0 \<or> (0::int) = 1"
    "cache_pointer ?s = get_pointer (node_head ?s 0 0)"
    "is_inner (nodes ?s (cache_pointer ?s))"
    "count (nodes ?s (cache_pointer ?s)) \<le> MERGE_SIZE 10"
    "count (node_head ?s 0 (1 - 0)) < AMORT_SIZE 10"
    "1 = get_pointer (node_head ?s 0 0)" "2 = get_pointer (node_head ?s 0 1)"
    "distinct [0, 1, 2 :: int]"
    by code_simp+
  have h5: "0 \<le> count (nodes ?s 1)" "0 \<le> count (nodes ?s 2)"
      "nat (count (nodes ?s 1)) \<le> length (data (nodes ?s 1))"
      "nat (count (nodes ?s 2)) \<le> length (data (nodes ?s 2))"
      "nat (count (nodes ?s 1) + count (nodes ?s 2)) \<le> length (data (nodes ?s 0))"
    by code_simp+
  have v: "count (nodes ?s 1) = 3" "count (nodes ?s 2) = 4"
    "map v_pair (take 3 (data (nodes ?s 1))) = [(1, 0), (9, 0), (13, 0)]"
    "map v_pair (take 4 (data (nodes ?s 2))) = [(17, 0), (21, 0), (25, 0), (29, 0)]"
    by code_simp+
  from erase_root_contraction[OF h1 h2 h3 h4 h5]
  obtain s' where s': "erase_pub 10 ex_contract 6 0 = Some s'"
    "count (nodes s' 0) = count (nodes ?s 1) + count (nodes ?s 2)"
    "take (nat (count (nodes ?s 1) + count (nodes ?s 2))) (data (nodes s' 0))
         = take (nat (count (nodes ?s 1))) (data (nodes ?s 1))
           @ take (nat (count (nodes ?s 2))) (data (nodes ?s 2))"
    "1 \<in> set (free_blocks s')" "2 \<in> set (free_blocks s')"
    by blast
  have "map v_pair (take 7 (data (nodes s' 0)))
          = map v_pair (take 3 (data (nodes ?s 1))) @ map v_pair (take 4 (data (nodes ?s 2)))"
    using s'(3) v(1,2) by simp
  then show ?thesis using s' v by auto
qed

section \<open>The abstract tree\<close>

lemma rep_frame:
  "rep B s t \<Longrightarrow> (\<And>i. i \<in> set (idxs t) \<Longrightarrow> nodes s' i = nodes s i) \<Longrightarrow> rep B s' t"
proof (induction t)
  case (Item h p)
  then show ?case by simp
next
  case (Node i st pp ks)
  have "node_rep B s' i st ks" using Node.prems by (simp add: node_rep_def)
  moreover have "rep B s' k" if "k \<in> set ks" for k
    using Node.IH[OF that] Node.prems that by auto
  ultimately show ?case by simp
qed

lemma node_rep_cong:
  "node_rep B s i st ks \<Longrightarrow> nodes s' i = nodes s i \<Longrightarrow> node_rep B s' i st ks"
  by (simp add: node_rep_def)

lemma node_rep_nth:
  assumes "node_rep B s i st ks" "x < length ks"
  shows "data (nodes s i) ! x = entry (ks ! x)"
proof -
  have "take (length ks) (data (nodes s i)) ! x = map entry ks ! x"
    using assms(1) by (simp add: node_rep_def)
  then show ?thesis using assms(2) by simp
qed

lemma node_rep_length_nat:
  assumes "node_rep B s i st ks"
  shows "length ks \<le> nat (B + 1)"
proof -
  have "length (take (length ks) (data (nodes s i))) = length (map entry ks)"
    using assms by (simp add: node_rep_def)
  then have "length ks \<le> length (data (nodes s i))" by simp
  then show ?thesis using assms by (simp add: node_rep_def)
qed

lemma node_rep_length: "node_rep B s i st ks \<Longrightarrow> 0 \<le> B \<Longrightarrow> int (length ks) \<le> B + 1"
  using node_rep_length_nat[of B s i st ks] by linarith

lemma ppair_entry [simp]: "v_pair (entry t) = ppair t"
  by (cases t) simp_all

lemma entry_set_ppair [simp]: "entry (set_ppair q t) = (entry t)\<lparr>v_pair := q\<rparr>"
  by (cases t) simp_all

lemma set_ppair_simps [simp]:
  "ppair (set_ppair q t) = q" "idxs (set_ppair q t) = idxs t" "leaves (set_ppair q t) = leaves t"
  "kids (set_ppair q t) = kids t" "idx (set_ppair q t) = idx t" "nstate (set_ppair q t) = nstate t"
  "rep B s (set_ppair q t) = rep B s t"
  by (cases t; simp)+

lemma inorder_set_ppair: "wfb lo hi a b (Suc h) t \<Longrightarrow> inorder (set_ppair q t) = inorder t"
  by (cases t) simp_all

lemma wfb_set_ppair: "wfb lo hi a b (Suc h) t \<Longrightarrow> wfb lo hi a b (Suc h) (set_ppair q t)"
  by (cases t) simp_all

lemma wfb_Node:
  "wfb lo hi a b h (Node i st pp ks) \<longleftrightarrow>
     (\<exists>h'. h = Suc h' \<and> (st < 0 \<longleftrightarrow> h' = 0) \<and> a \<le> length ks \<and> length ks \<le> b
        \<and> (\<forall>k \<in> set ks. wfb lo hi (Suc lo) hi h' k \<and> minok k))"
  by (cases h) auto

lemma wfb_Suc_cases:
  assumes "wfb lo hi a b (Suc h) t"
  obtains i st pp ks where "t = Node i st pp ks" "st < 0 \<longleftrightarrow> h = 0" "a \<le> length ks"
    "length ks \<le> b" "\<And>k. k \<in> set ks \<Longrightarrow> wfb lo hi (Suc lo) hi h k \<and> minok k"
  using assms by (cases t) auto

lemma wfb_0_cases:
  assumes "wfb lo hi a b 0 t"
  obtains hh p where "t = Item hh p"
  using assms by (cases t) auto

lemma wfb_bounds:
  "wfb lo hi a b h t \<Longrightarrow> a' \<le> a \<Longrightarrow> b \<le> b' \<Longrightarrow> wfb lo hi a' b' h t"
  by (cases h; cases t) auto

lemma wfb_inorder_nonempty: "wfb lo hi a b h t \<Longrightarrow> 1 \<le> a \<Longrightarrow> inorder t \<noteq> []"
proof (induction h arbitrary: t a b)
  case 0
  then show ?case by (cases t) auto
next
  case (Suc h)
  from Suc.prems(1) obtain i st pp ks where t: "t = Node i st pp ks" by (cases t) auto
  have len: "a \<le> length ks"
    and kd: "\<And>k. k \<in> set ks \<Longrightarrow> wfb lo hi (Suc lo) hi h k \<and> minok k"
    using Suc.prems(1) by (auto simp: t)
  from len Suc.prems(2) obtain k ks' where ks: "ks = k # ks'" by (cases ks) auto
  have "inorder k \<noteq> []" using Suc.IH[of "Suc lo" hi k] kd[of k] ks by simp
  then show ?case using t ks by simp
qed

lemma wfb_leaves_nonempty: "wfb lo hi a b (Suc h) t \<Longrightarrow> 1 \<le> a \<Longrightarrow> leaves t \<noteq> []"
proof (induction h arbitrary: t a b)
  case 0
  then show ?case by (cases t) auto
next
  case (Suc h)
  from Suc.prems(1) obtain i st pp ks where t: "t = Node i st pp ks" by (cases t) auto
  have len: "a \<le> length ks" and st: "st < 0 \<longleftrightarrow> Suc h = 0"
    and kd: "\<And>k. k \<in> set ks \<Longrightarrow> wfb lo hi (Suc lo) hi (Suc h) k \<and> minok k"
    using Suc.prems(1) unfolding t wfb.simps by auto
  from len Suc.prems(2) obtain k ks' where ks: "ks = k # ks'" by (cases ks) auto
  have "leaves k \<noteq> []" using Suc.IH[of "Suc lo" hi k] kd[of k] ks by simp
  then show ?case using t ks st by simp
qed

lemma minok_hd: "inorder t \<noteq> [] \<Longrightarrow> minok t \<longleftrightarrow> ppair t = hd (inorder t)"
  by (cases "inorder t") (auto simp: minok_def)

lemma minok_Item [simp]: "minok (Item h p)"
  by (simp add: minok_def)

subsection \<open>Leaf chains\<close>

lemma linked_Cons:
  "linked ((i, n) # r) e \<longleftrightarrow> (if r = [] then n = e else n = fst (hd r) \<and> linked r e)"
  by (cases r) auto

lemma linked_append:
  "ys \<noteq> [] \<Longrightarrow> linked (xs @ ys) e \<longleftrightarrow> linked xs (fst (hd ys)) \<and> linked ys e"
proof (induction xs)
  case Nil
  then show ?case by simp
next
  case (Cons a xs)
  obtain i n where a: "a = (i, n)" by (cases a)
  show ?case using Cons by (cases xs) (auto simp: a linked_Cons)
qed

lemma linked_append_Nil: "linked (xs @ []) e \<longleftrightarrow> linked xs e"
  by simp

lemma chain_pres_refl: "ls \<noteq> [] \<Longrightarrow> chain_pres ls ls"
  by (simp add: chain_pres_def)

lemma chain_pres_trans: "chain_pres a b \<Longrightarrow> chain_pres b c \<Longrightarrow> chain_pres a c"
  by (auto simp: chain_pres_def)

lemma chain_pres_mid:
  assumes "chain_pres old new" "old \<noteq> []"
  shows "chain_pres (A @ old @ C) (A @ new @ C)"
proof -
  have new: "new \<noteq> []" and hdn: "fst (hd new) = fst (hd old)"
    and lk: "\<And>e. linked old e \<Longrightarrow> linked new e"
    using assms by (auto simp: chain_pres_def)
  have hd1: "fst (hd (A @ new @ C)) = fst (hd (A @ old @ C))"
    using new assms(2) hdn by (cases A) (auto simp: hd_append)
  have "linked (A @ new @ C) e" if h: "linked (A @ old @ C) e" for e
  proof (cases "C = []")
    case True
    then show ?thesis using h new assms(2) hdn lk by (auto simp: linked_append)
  next
    case False
    have "linked A (fst (hd (old @ C)))" "linked old (fst (hd C))" "linked C e"
      using h False assms(2) by (auto simp: linked_append)
    then show ?thesis using False new assms(2) hdn lk
      by (auto simp: linked_append hd_append)
  qed
  then show ?thesis using hd1 new by (auto simp: chain_pres_def)
qed

subsection \<open>Kids of a node\<close>

lemma concat_map_split:
  "x < length ks \<Longrightarrow>
     concat (map f ks) = concat (map f (take x ks)) @ f (ks ! x) @ concat (map f (drop (Suc x) ks))"
proof -
  assume "x < length ks"
  then have "ks = take x ks @ ks ! x # drop (Suc x) ks" by (rule id_take_nth_drop)
  then have "concat (map f ks) = concat (map f (take x ks @ ks ! x # drop (Suc x) ks))"
    by (rule arg_cong)
  then show ?thesis by simp
qed

lemma concat_map_update:
  "x < length ks \<Longrightarrow>
     concat (map f (ks[x := k])) = concat (map f (take x ks)) @ f k @ concat (map f (drop (Suc x) ks))"
  using concat_map_split[of x "ks[x := k]" f] by simp

lemma idxs_kid_subset: "k \<in> set ks \<Longrightarrow> set (idxs k) \<subseteq> set (idxs (Node i st pp ks))"
  by auto

lemma distinct_concat_nth:
  "distinct (concat (map f ks)) \<Longrightarrow> x < length ks \<Longrightarrow> distinct (f (ks ! x))"
  by (auto simp: concat_map_split[of x ks f])

lemma distinct_concat_disjoint:
  assumes "distinct (concat (map f ks))" "x < y" "y < length ks"
  shows "set (f (ks ! x)) \<inter> set (f (ks ! y)) = {}"
proof -
  have "drop (Suc x) ks ! (y - Suc x) = ks ! y" "y - Suc x < length (drop (Suc x) ks)"
    using assms(2,3) by auto
  then have "ks ! y \<in> set (drop (Suc x) ks)" by (metis nth_mem)
  then have "set (f (ks ! y)) \<subseteq> set (concat (map f (drop (Suc x) ks)))" by auto
  moreover have "set (f (ks ! x)) \<inter> set (concat (map f (drop (Suc x) ks))) = {}"
  proof -
    have "x < length ks" using assms(2,3) by simp
    then have "distinct (concat (map f (take x ks)) @ f (ks ! x) @ concat (map f (drop (Suc x) ks)))"
      using assms(1) concat_map_split[of x ks f] by simp
    then show ?thesis by auto
  qed
  ultimately show ?thesis by blast
qed

lemma distinct_concat_disjoint_ne:
  assumes "distinct (concat (map f ks))" "x \<noteq> y" "x < length ks" "y < length ks"
  shows "set (f (ks ! x)) \<inter> set (f (ks ! y)) = {}"
  using distinct_concat_disjoint[OF assms(1), of x y] distinct_concat_disjoint[OF assms(1), of y x]
    assms(2-4) by (cases "x < y") auto

section \<open>Moving entries\<close>

lemma mmove_int:
  "mmove dst (int d) src (int s) (int n) = take d dst @ take n (drop s src) @ drop (d + n) dst"
  by (simp add: mmove_def)

lemma length_mmove_int:
  "d + n \<le> length dst \<Longrightarrow> s + n \<le> length src
   \<Longrightarrow> length (mmove dst (int d) src (int s) (int n)) = length dst"
  by (simp add: mmove_int)

lemma take_mmove_int:
  "d + n \<le> length dst \<Longrightarrow> s + n \<le> length src
   \<Longrightarrow> take (d + n) (mmove dst (int d) src (int s) (int n)) = take d dst @ take n (drop s src)"
  by (simp add: mmove_int)

lemma take_mmove_int_beyond:
  "d + n \<le> m \<Longrightarrow> m \<le> length dst \<Longrightarrow> s + n \<le> length src
   \<Longrightarrow> take m (mmove dst (int d) src (int s) (int n))
       = take d dst @ take n (drop s src) @ take (m - (d + n)) (drop (d + n) dst)"
  by (simp add: mmove_int)

lemma mmove_int_dst0:
  "mmove dst 0 src (int s) (int n) = take n (drop s src) @ drop n dst"
  by (simp add: mmove_def)

lemma mmove_int_src0:
  "mmove dst (int d) src 0 (int n) = take d dst @ take n src @ drop (d + n) dst"
  by (simp add: mmove_def)

lemma take_entries_prefix:
  "take n dat = es \<Longrightarrow> m \<le> n \<Longrightarrow> take m dat = take m es"
  by (metis min.absorb_iff2 take_take min.commute)

lemma take_drop_entries:
  assumes "take n dat = es" "a + m \<le> n"
  shows "take m (drop a dat) = take m (drop a es)"
proof -
  have "take m (drop a es) = take m (drop a (take n dat))" using assms(1) by simp
  also have "\<dots> = take m (take (n - a) (drop a dat))" by (simp add: drop_take)
  also have "\<dots> = take m (drop a dat)" using assms(2) by (simp add: min_def)
  finally show ?thesis by simp
qed

lemma nth_entries:
  "take n dat = es \<Longrightarrow> y < n \<Longrightarrow> dat ! y = es ! y"
  by (metis nth_take)

lemma length_entries: "take n dat = es \<Longrightarrow> length es = n \<Longrightarrow> n \<le> length dat"
  by (metis length_take min.cobounded2 min.commute)

text \<open>Opening a gap at position \<open>x\<close> of a node holding \<open>n\<close> entries and filling it.\<close>

lemma take_insert_at:
  assumes es: "take n dat = es" and len: "length es = n" and n: "n < length dat" and x: "x \<le> n"
    and xi: "xi = int x" and ni: "ni = int n"
  shows "take (Suc n) ((mmove dat (xi + 1) dat xi (ni - xi))[x := t]) = take x es @ t # drop x es"
    and "length ((mmove dat (xi + 1) dat xi (ni - xi))[x := t]) = length dat"
    and "mmove dat (xi + 1) dat xi (ni - xi) ! x = dat ! x"
proof -
  have i1: "xi + 1 = int (Suc x)" using xi by simp
  have i2: "ni - xi = int (n - x)" using x xi ni by simp
  have i3: "xi = int x" by (rule xi)
  let ?m = "mmove dat (int (Suc x)) dat (int x) (int (n - x))"
  have m: "?m = take (Suc x) dat @ take (n - x) (drop x dat) @ drop (Suc n) dat"
    unfolding mmove_int using x by simp
  have lm: "length ?m = length dat" unfolding m using x n by simp
  have tx: "take x dat = take x es" using es x by (rule take_entries_prefix)
  have td: "take (n - x) (drop x dat) = drop x es"
  proof -
    have "take (n - x) (drop x dat) = take (n - x) (drop x es)"
      using es x by (intro take_drop_entries) auto
    then show ?thesis using len by simp
  qed
  have "take (Suc n) (?m[x := t]) = (take (Suc n) ?m)[x := t]" by (simp add: take_update_swap)
  also have "take (Suc n) ?m = take (Suc x) dat @ take (n - x) (drop x dat)"
    unfolding m using x n by simp
  also have "take (Suc x) dat = take x dat @ [dat ! x]"
    using x n by (simp add: take_Suc_conv_app_nth)
  also have "((take x dat @ [dat ! x]) @ take (n - x) (drop x dat))[x := t]
               = take x dat @ t # take (n - x) (drop x dat)"
    using x n by (simp add: list_update_append)
  finally show "take (Suc n) ((mmove dat (xi + 1) dat xi (ni - xi))[x := t])
           = take x es @ t # drop x es"
    unfolding i1 i2 unfolding i3 using tx td by simp
  show "length ((mmove dat (xi + 1) dat xi (ni - xi))[x := t]) = length dat"
    unfolding i1 i2 unfolding i3 using lm by simp
  show "mmove dat (xi + 1) dat xi (ni - xi) ! x = dat ! x"
    unfolding i1 i2 unfolding i3 m using x n by (simp add: nth_append)
qed

text \<open>Closing the gap left by the entry at position \<open>x\<close>.\<close>

lemma take_remove_at:
  assumes es: "take n dat = es" and len: "length es = n" and n: "n \<le> length dat" and x: "x < n"
    and xi: "xi = int x" and ni: "ni = int n"
  shows "take (n - 1) (mmove dat xi dat (xi + 1) (ni - xi - 1)) = take x es @ drop (Suc x) es"
    and "length (mmove dat xi dat (xi + 1) (ni - xi - 1)) = length dat"
proof -
  have i1: "xi + 1 = int (Suc x)" using xi by simp
  have i2: "ni - xi - 1 = int (n - Suc x)" using x xi ni by simp
  have i3: "xi = int x" by (rule xi)
  let ?m = "mmove dat (int x) dat (int (Suc x)) (int (n - Suc x))"
  have m: "?m = take x dat @ take (n - Suc x) (drop (Suc x) dat) @ drop (n - 1) dat"
    unfolding mmove_int using x by simp
  have tx: "take x dat = take x es" using es x by (intro take_entries_prefix) auto
  have td: "take (n - Suc x) (drop (Suc x) dat) = drop (Suc x) es"
  proof -
    have "take (n - Suc x) (drop (Suc x) dat) = take (n - Suc x) (drop (Suc x) es)"
      using es x by (intro take_drop_entries) auto
    then show ?thesis using len by simp
  qed
  have "take (n - 1) ?m = take x dat @ take (n - Suc x) (drop (Suc x) dat)"
    unfolding m using x n by simp
  then show "take (n - 1) (mmove dat xi dat (xi + 1) (ni - xi - 1))
           = take x es @ drop (Suc x) es"
    unfolding i1 i2 unfolding i3 using tx td by simp
  show "length (mmove dat xi dat (xi + 1) (ni - xi - 1)) = length dat"
    unfolding i1 i2 unfolding i3 m using x n by simp
qed

text \<open>Appending \<open>k\<close> entries of another node, taken from its position \<open>ofs\<close>.\<close>

lemma take_append_from:
  assumes es: "take n dst = es" and len: "length es = n" and n: "n + k \<le> length dst"
    and src: "take m src = fs" and ok: "ofs + k \<le> m" "m \<le> length src"
    and ni: "ni = int n" and oi: "oi = int ofs" and ki: "ki = int k"
  shows "take (n + k) (mmove dst ni src oi ki) = es @ take k (drop ofs fs)"
    and "length (mmove dst ni src oi ki) = length dst"
proof -
  have "take k (drop ofs src) = take k (drop ofs fs)"
    using src ok by (intro take_drop_entries) auto
  then show "take (n + k) (mmove dst ni src oi ki) = es @ take k (drop ofs fs)"
    unfolding ni oi ki using n ok es by (simp add: take_mmove_int)
  show "length (mmove dst ni src oi ki) = length dst"
    unfolding ni oi ki using n ok by (simp add: length_mmove_int)
qed

text \<open>Dropping the first \<open>d\<close> entries.\<close>

lemma take_drop_front:
  assumes es: "take n dat = es" and len: "length es = n" and n: "n \<le> length dat" and d: "d \<le> n"
    and di: "di = int d" and ci: "ci = int (n - d)"
  shows "take (n - d) (mmove dat 0 dat di ci) = drop d es"
    and "length (mmove dat 0 dat di ci) = length dat"
proof -
  have "take (n - d) (drop d dat) = take (n - d) (drop d es)"
    using es d by (intro take_drop_entries) auto
  then show "take (n - d) (mmove dat 0 dat di ci) = drop d es"
    unfolding di ci mmove_int_dst0 using n d len by simp
  show "length (mmove dat 0 dat di ci) = length dat"
    unfolding di ci mmove_int_dst0 using n d by simp
qed

text \<open>Putting \<open>d\<close> entries of another node in front.\<close>

lemma take_prepend_from:
  assumes es: "take n dat = es" and len: "length es = n" and n: "n + d \<le> length dat"
    and src: "take m src = fs" and ok: "ofs + d \<le> m" "m \<le> length src"
    and ni: "ni = int n" and oi: "oi = int ofs" and di: "di = int d"
  shows "take (n + d) (mmove (mmove dat di dat 0 ni) 0 src oi di) = take d (drop ofs fs) @ es"
    and "length (mmove (mmove dat di dat 0 ni) 0 src oi di) = length dat"
proof -
  let ?m1 = "mmove dat (int d) dat 0 (int n)"
  have m1: "?m1 = take d dat @ take n dat @ drop (d + n) dat" by (rule mmove_int_src0)
  have l1: "length ?m1 = length dat" unfolding m1 using n by simp
  have sf: "take d (drop ofs src) = take d (drop ofs fs)"
    using src ok by (intro take_drop_entries) auto
  have ld: "length (take d (drop ofs src)) = d" using ok by simp
  have "mmove ?m1 0 src (int ofs) (int d) = take d (drop ofs src) @ drop d ?m1"
    by (rule mmove_int_dst0)
  also have "drop d ?m1 = take n dat @ drop (d + n) dat" unfolding m1 using n by simp
  finally have m2: "mmove ?m1 0 src (int ofs) (int d)
      = take d (drop ofs src) @ take n dat @ drop (d + n) dat" .
  show "take (n + d) (mmove (mmove dat di dat 0 ni) 0 src oi di) = take d (drop ofs fs) @ es"
    unfolding ni oi di m2 using n ld es sf len by simp
  show "length (mmove (mmove dat di dat 0 ni) 0 src oi di) = length dat"
    unfolding ni oi di m2 using n ld by simp
qed

section \<open>Nodes and their entries\<close>

lemma node_repI:
  assumes "state (nodes s i) = st" "count (nodes s i) = int (length ks)"
    "length (data (nodes s i)) = nat (B + 1)" "take (length ks) (data (nodes s i)) = map entry ks"
  shows "node_rep B s i st ks"
  using assms by (simp add: node_rep_def)

lemma node_repD:
  assumes "node_rep B s i st ks"
  shows "state (nodes s i) = st" "count (nodes s i) = int (length ks)"
    "length (data (nodes s i)) = nat (B + 1)" "take (length ks) (data (nodes s i)) = map entry ks"
    "length (map entry ks) = length ks"
  using assms by (simp_all add: node_rep_def)

lemma node_rep_update_entry:
  assumes "node_rep B s p st ks" "y < length ks"
    and "nodes s' p = (nodes s p)\<lparr>data := (data (nodes s p))[y := entry k]\<rparr>"
  shows "node_rep B s' p st (ks[y := k])"
proof -
  note d = node_repD[OF assms(1)]
  have "take (length ks) ((data (nodes s p))[y := entry k]) = (map entry ks)[y := entry k]"
    using d(4) by (simp add: take_update_swap)
  then show ?thesis using d assms(3) by (simp add: node_rep_def map_update)
qed

lemma entry_Node_count:
  "(entry (Node i st pp ks))\<lparr>head := (head (entry (Node i st pp ks)))\<lparr>count := int (length ks')\<rparr>\<rparr>
     = entry (Node i st pp ks')"
  by simp

lemma set_head_count_rep:
  assumes "node_rep B s p st ks" "y < length ks" "ks ! y = Node i sti pp ksi"
    and "c = int (length ksi')" "yi = int y"
  shows "node_rep B (set_head_count p yi c s) p st (ks[y := Node i sti pp ksi'])"
proof -
  have e: "data (nodes s p) ! y = entry (Node i sti pp ksi)"
    using node_rep_nth[OF assms(1,2)] assms(3) by simp
  show ?thesis
    by (rule node_rep_update_entry[OF assms(1,2)])
       (simp add: assms(4,5) e del: entry.simps add: entry_Node_count)
qed

lemma set_v_rep:
  assumes "node_rep B s p st ks" "y < length ks" "yi = int y"
  shows "node_rep B (set_v p yi q s) p st (ks[y := set_ppair q (ks ! y)])"
proof -
  have e: "data (nodes s p) ! y = entry (ks ! y)"
    using node_rep_nth[OF assms(1,2)] by simp
  show ?thesis
    by (rule node_rep_update_entry[OF assms(1,2)]) (simp add: assms(3) e)
qed

lemma amortize_next_rep:
  assumes L: "node_rep B s L stL ksL" and C: "node_rep B s C stC ksC" and ne: "L \<noteq> C"
    and le: "length ksL \<le> length ksC" and d: "d = (length ksC - length ksL) div 2"
    and room: "length ksL + d \<le> nat (B + 1)"
  shows "node_rep B (amortize_next s L C) L stL (ksL @ take d ksC)"
    and "node_rep B (amortize_next s L C) C stC (drop d ksC)"
    and "\<And>j. j \<noteq> L \<Longrightarrow> j \<noteq> C \<Longrightarrow> nodes (amortize_next s L C) j = nodes s j"
proof -
  note l = node_repD[OF L] and c = node_repD[OF C]
  have di: "(count (nodes s C) - count (nodes s L)) div 2 = int d"
    using le by (simp add: l c d zdiv_int of_nat_diff)
  have dle: "d \<le> length ksC" using d by simp
  have lenC: "length ksC \<le> length (data (nodes s C))"
    using c(4) by (metis length_entries c(5))
  let ?s = "amortize_next s L C"
  have nL: "nodes ?s L = (nodes s L)\<lparr>data := mmove (data (nodes s L)) (count (nodes s L))
              (data (nodes s C)) 0 (int d), count := count (nodes s L) + int d\<rparr>"
    and nC: "nodes ?s C = (nodes s C)\<lparr>count := count (nodes s C) - int d,
              data := mmove (data (nodes s C)) 0 (data (nodes s C)) (int d) (count (nodes s C) - int d)\<rparr>"
    using ne by (simp_all add: amortize_next_nodes Let_def di)
  have a: "take (length ksL + d) (mmove (data (nodes s L)) (count (nodes s L)) (data (nodes s C)) 0 (int d))
             = map entry ksL @ take d (drop 0 (map entry ksC))"
    and a': "length (mmove (data (nodes s L)) (count (nodes s L)) (data (nodes s C)) 0 (int d))
             = length (data (nodes s L))"
    using take_append_from[OF l(4) l(5), of d "length ksC" "data (nodes s C)" "map entry ksC" 0
        "count (nodes s L)" 0 "int d"] room l(2,3) c(4) dle lenC by simp_all
  show "node_rep B ?s L stL (ksL @ take d ksC)"
    using a a' l dle by (intro node_repI) (simp_all add: nL take_map)
  have b: "take (length ksC - d) (mmove (data (nodes s C)) 0 (data (nodes s C)) (int d) (count (nodes s C) - int d))
             = drop d (map entry ksC)"
    and b': "length (mmove (data (nodes s C)) 0 (data (nodes s C)) (int d) (count (nodes s C) - int d))
             = length (data (nodes s C))"
    using take_drop_front[OF c(4) c(5) lenC dle, of "int d" "count (nodes s C) - int d"] c(2) dle
    by (simp_all add: of_nat_diff)
  show "node_rep B ?s C stC (drop d ksC)"
    using b b' c dle by (intro node_repI) (simp_all add: nC drop_map of_nat_diff)
  show "\<And>j. j \<noteq> L \<Longrightarrow> j \<noteq> C \<Longrightarrow> nodes ?s j = nodes s j"
    using ne by (simp add: amortize_next_nodes Let_def)
qed

lemma amortize_prev_rep:
  assumes C: "node_rep B s C stC ksC" and R: "node_rep B s R stR ksR" and ne: "C \<noteq> R"
    and le: "length ksR \<le> length ksC" and d: "d = (length ksC - length ksR) div 2"
    and room: "length ksR + d \<le> nat (B + 1)"
  shows "node_rep B (amortize_prev s C R) C stC (take (length ksC - d) ksC)"
    and "node_rep B (amortize_prev s C R) R stR (drop (length ksC - d) ksC @ ksR)"
    and "\<And>j. j \<noteq> C \<Longrightarrow> j \<noteq> R \<Longrightarrow> nodes (amortize_prev s C R) j = nodes s j"
proof -
  note c = node_repD[OF C] and r = node_repD[OF R]
  have di: "(count (nodes s C) - count (nodes s R)) div 2 = int d"
    using le by (simp add: r c d zdiv_int of_nat_diff)
  have dle: "d \<le> length ksC" using d by simp
  have lenC: "length ksC \<le> length (data (nodes s C))"
    using c(4) by (metis length_entries c(5))
  let ?s = "amortize_prev s C R"
  have nC: "nodes ?s C = (nodes s C)\<lparr>count := count (nodes s C) - int d\<rparr>"
    and nR: "nodes ?s R = (nodes s R)\<lparr>count := count (nodes s R) + int d,
              data := mmove (mmove (data (nodes s R)) (int d) (data (nodes s R)) 0 (count (nodes s R)))
                       0 (data (nodes s C)) (count (nodes s C) - int d) (int d)\<rparr>"
    using ne by (simp_all add: amortize_prev_nodes Let_def di)
  have "take (length ksC - d) (data (nodes s C)) = take (length ksC - d) (map entry ksC)"
    using c(4) by (intro take_entries_prefix) auto
  then show "node_rep B ?s C stC (take (length ksC - d) ksC)"
    using c dle by (intro node_repI) (simp_all add: nC take_map of_nat_diff)
  have b: "take (length ksR + d) (mmove (mmove (data (nodes s R)) (int d) (data (nodes s R)) 0 (count (nodes s R)))
                       0 (data (nodes s C)) (count (nodes s C) - int d) (int d))
             = take d (drop (length ksC - d) (map entry ksC)) @ map entry ksR"
    and b': "length (mmove (mmove (data (nodes s R)) (int d) (data (nodes s R)) 0 (count (nodes s R)))
                       0 (data (nodes s C)) (count (nodes s C) - int d) (int d))
             = length (data (nodes s R))"
    using take_prepend_from[OF r(4) r(5), of d "length ksC" "data (nodes s C)" "map entry ksC"
        "length ksC - d" "count (nodes s R)" "count (nodes s C) - int d" "int d"]
      room r(2,3) c(2,4) dle lenC by (simp_all add: of_nat_diff)
  show "node_rep B ?s R stR (drop (length ksC - d) ksC @ ksR)"
    using b b' r dle by (intro node_repI) (simp_all add: nR drop_map add.commute)
  show "\<And>j. j \<noteq> C \<Longrightarrow> j \<noteq> R \<Longrightarrow> nodes ?s j = nodes s j"
    using ne by (simp add: amortize_prev_nodes Let_def)
qed

section \<open>Allocation\<close>

lemma tuple_updates_all:
  "(t::('k, 'v) value_tuple)\<lparr>v_pair := q, head := h\<rparr> = \<lparr>head = h, v_pair = q\<rparr>"
  "(t::('k, 'v) value_tuple)\<lparr>head := h, v_pair := q\<rparr> = \<lparr>head = h, v_pair = q\<rparr>"
  by (cases t; simp)+

lemma header_updates_all:
  "(h::header)\<lparr>count := cc, state := ss\<rparr> = \<lparr>state = ss, count = cc\<rparr>"
  "(h::header)\<lparr>state := ss, count := cc\<rparr> = \<lparr>state = ss, count = cc\<rparr>"
  by (cases h; simp)+

lemma allocate_nodes:
  "allocate B z s = (n, s') \<Longrightarrow>
     nodes s' = (nodes s)(n := zero_node B z) \<and> cache_pointer s' = cache_pointer s"
  by (auto simp: allocate_def Let_def modify_def split: list.splits)

lemma allocate_props_conj:
  assumes wf: "alloc_wf s" and al: "allocate B z s = (n, s1)"
  shows "n \<in> avail s \<and> 1 \<le> n \<and> avail s1 = avail s - {n} \<and> alloc_wf s1"
proof (cases "free_blocks s")
  case Nil
  then have n: "n = next_block s" and s1: "free_blocks s1 = []" "next_block s1 = next_block s + 1"
    using al by (auto simp: allocate_def Let_def modify_def)
  show ?thesis using wf Nil n s1 by (auto simp: avail_def alloc_wf_def)
next
  case (Cons i fs)
  then have n: "n = i" and s1: "free_blocks s1 = fs" "next_block s1 = next_block s"
    using al by (auto simp: allocate_def Let_def modify_def)
  show ?thesis using wf Cons n s1 by (auto simp: avail_def alloc_wf_def)
qed

lemma allocate_props:
  assumes wf: "alloc_wf s" and al: "allocate B z s = (n, s1)"
  shows "n \<in> avail s" "1 \<le> n" "avail s1 = avail s - {n}" "alloc_wf s1"
  using allocate_props_conj[OF assms] by simp_all

lemma zero_node_simps [simp]:
  "state (zero_node B z) = 0" "count (zero_node B z) = 0"
  "length (data (zero_node B z)) = nat (B + 1)"
  by (simp_all add: zero_node_def)

lemma avail_setters [simp]:
  "avail (upd_node p f s) = avail s"
  "avail (set_state p x s) = avail s"
  "avail (set_count p c s) = avail s"
  "avail (set_data p d s) = avail s"
  "avail (set_tuple p y t s) = avail s"
  "avail (set_head p y h s) = avail s"
  "avail (set_head_count p y c s) = avail s"
  "avail (set_head_state p y c s) = avail s"
  "avail (set_v p y kv s) = avail s"
  "avail (modify p s) = avail s"
  "avail (amortize_next s a b) = avail s"
  "avail (amortize_prev s a b) = avail s"
  by (simp_all add: avail_def)

lemma alloc_wf_setters [simp]:
  "alloc_wf (upd_node p f s) = alloc_wf s"
  "alloc_wf (set_state p x s) = alloc_wf s"
  "alloc_wf (set_count p c s) = alloc_wf s"
  "alloc_wf (set_data p d s) = alloc_wf s"
  "alloc_wf (set_tuple p y t s) = alloc_wf s"
  "alloc_wf (set_head p y h s) = alloc_wf s"
  "alloc_wf (set_head_count p y c s) = alloc_wf s"
  "alloc_wf (set_head_state p y c s) = alloc_wf s"
  "alloc_wf (set_v p y kv s) = alloc_wf s"
  "alloc_wf (modify p s) = alloc_wf s"
  "alloc_wf (amortize_next s a b) = alloc_wf s"
  "alloc_wf (amortize_prev s a b) = alloc_wf s"
  by (simp_all add: alloc_wf_def)

lemma avail_cache_pointer [simp]:
  "avail (s\<lparr>cache_pointer := c\<rparr>) = avail s" "alloc_wf (s\<lparr>cache_pointer := c\<rparr>) = alloc_wf s"
  by (simp_all add: avail_def alloc_wf_def)

section \<open>Heads of children\<close>

lemma get_pointer_entry: "0 \<le> i \<Longrightarrow> get_pointer (head (entry (Node i st pp ks))) = i"
  by (simp add: get_pointer_def real_index_def not_int_def)

lemma is_inner_entry: "0 \<le> i \<Longrightarrow> is_inner (head (entry (Node i st pp ks))) \<longleftrightarrow> \<not> st < 0"
  by (simp add: is_inner_def not_int_def)

lemma count_entry: "count (head (entry (Node i st pp ks))) = int (length ks)"
  by simp

lemma node_head_rep:
  assumes "node_rep B s p st ks" "y < length ks" "yi = int y"
  shows "node_head s p yi = head (entry (ks ! y))"
  using node_rep_nth[OF assms(1,2)] assms(3) by (simp add: node_head_eq)

lemma pair_parent_update:
  assumes P: "node_rep B s1 p stp ks" and y: "Suc y < length ks"
    and K1: "ks ! y = Node i1 st1 pp1 as1" and K2: "ks ! Suc y = Node i2 st2 pp2 as2"
    and n1: "node_rep B s1 i1 st1 bs1" and n2: "node_rep B s1 i2 st2 bs2"
    and ne: "p \<noteq> i1" "p \<noteq> i2" and bs2: "bs2 \<noteq> []"
  defines "s2 \<equiv> set_head_count p (int y) (count (nodes s1 i1)) s1"
  defines "s3 \<equiv> set_head_count p (int y + 1) (count (nodes s2 i2)) s2"
  defines "s4 \<equiv> set_v p (int y + 1) (v_pair (get_tuple s3 i2 0)) s3"
  shows "node_rep B s4 p stp (ks[y := Node i1 st1 pp1 bs1, Suc y := Node i2 st2 (ppair (hd bs2)) bs2])"
    and "\<And>j. j \<noteq> p \<Longrightarrow> nodes s4 j = nodes s1 j"
proof -
  have o2: "nodes s2 j = nodes s1 j" if "j \<noteq> p" for j using that by (simp add: s2_def)
  have o3: "nodes s3 j = nodes s1 j" if "j \<noteq> p" for j using that o2 by (simp add: s3_def)
  show o4: "nodes s4 j = nodes s1 j" if "j \<noteq> p" for j using that o3 by (simp add: s4_def)
  have c1: "count (nodes s1 i1) = int (length bs1)" using n1 by (simp add: node_rep_def)
  have c2: "count (nodes s2 i2) = int (length bs2)" using n2 ne o2 by (simp add: node_rep_def)
  have q: "v_pair (get_tuple s3 i2 0) = ppair (hd bs2)"
  proof -
    have "node_rep B s3 i2 st2 bs2" using n2 o3 ne by (intro node_rep_cong[OF n2]) simp
    then have "data (nodes s3 i2) ! 0 = entry (bs2 ! 0)"
      using bs2 by (intro node_rep_nth) auto
    then show ?thesis using bs2 by (simp add: get_tuple_eq hd_conv_nth)
  qed
  have y': "y < length ks" using y by simp
  have r2: "node_rep B s2 p stp (ks[y := Node i1 st1 pp1 bs1])"
    unfolding s2_def by (rule set_head_count_rep[OF P y' K1 c1]) simp
  have k2: "ks[y := Node i1 st1 pp1 bs1] ! Suc y = Node i2 st2 pp2 as2" using K2 by simp
  have r3: "node_rep B s3 p stp (ks[y := Node i1 st1 pp1 bs1, Suc y := Node i2 st2 pp2 bs2])"
    unfolding s3_def using y by (intro set_head_count_rep[OF r2 _ k2 c2]) simp_all
  have "node_rep B s4 p stp (ks[y := Node i1 st1 pp1 bs1, Suc y := Node i2 st2 pp2 bs2,
          Suc y := set_ppair (ppair (hd bs2)) (ks[y := Node i1 st1 pp1 bs1, Suc y := Node i2 st2 pp2 bs2] ! Suc y)])"
    unfolding s4_def q using y by (intro set_v_rep[OF r3]) simp_all
  then show "node_rep B s4 p stp (ks[y := Node i1 st1 pp1 bs1, Suc y := Node i2 st2 (ppair (hd bs2)) bs2])"
    using y by simp
qed

lemma amortize_pair_next_rep:
  assumes P: "node_rep B s p stp ks" and y: "Suc y < length ks"
    and K1: "ks ! y = Node i1 st1 pp1 as1" and K2: "ks ! Suc y = Node i2 st2 pp2 as2"
    and R1: "node_rep B s i1 st1 as1" and R2: "node_rep B s i2 st2 as2"
    and ne: "i1 \<noteq> i2" "p \<noteq> i1" "p \<noteq> i2" and nn: "0 \<le> i1" "0 \<le> i2"
    and le: "length as1 \<le> length as2" and d: "d = (length as2 - length as1) div 2"
    and room: "length as1 + d \<le> nat (B + 1)" and d2: "d < length as2"
  defines "s' \<equiv> amortize_pair True s p (int y)"
  shows "node_rep B s' p stp (ks[y := Node i1 st1 pp1 (as1 @ take d as2),
            Suc y := Node i2 st2 (ppair (as2 ! d)) (drop d as2)])"
    and "node_rep B s' i1 st1 (as1 @ take d as2)" and "node_rep B s' i2 st2 (drop d as2)"
    and "\<And>j. j \<noteq> p \<Longrightarrow> j \<noteq> i1 \<Longrightarrow> j \<noteq> i2 \<Longrightarrow> nodes s' j = nodes s j"
    and "free_blocks s' = free_blocks s" "next_block s' = next_block s"
    and "cache_pointer s' = cache_pointer s"
proof -
  define s1 where "s1 = amortize_next s i1 i2"
  have y': "y < length ks" using y by simp
  have gp: "get_pointer (node_head s p (int y)) = i1" "get_pointer (node_head s p (int y + 1)) = i2"
    using node_head_rep[OF P y', of "int y"] node_head_rep[OF P y, of "int y + 1"] K1 K2 nn
    by (simp_all add: get_pointer_entry del: entry.simps)
  have e: "s' = (let s2 = set_head_count p (int y) (count (nodes s1 i1)) s1;
                     s3 = set_head_count p (int y + 1) (count (nodes s2 i2)) s2
                 in set_v p (int y + 1) (v_pair (get_tuple s3 i2 0)) s3)"
    unfolding s'_def amortize_pair_def gp s1_def Let_def by simp
  note a = amortize_next_rep[OF R1 R2 ne(1) le d room, folded s1_def]
  have P1: "node_rep B s1 p stp ks" using a(3)[of p] ne by (intro node_rep_cong[OF P]) simp
  have ne2: "drop d as2 \<noteq> []" using d2 by simp
  have hd2: "hd (drop d as2) = as2 ! d" using d2 by (simp add: hd_drop_conv_nth)
  note u = pair_parent_update[OF P1 y K1 K2 a(1) a(2) ne(2,3) ne2, unfolded hd2]
  show "node_rep B s' p stp (ks[y := Node i1 st1 pp1 (as1 @ take d as2),
            Suc y := Node i2 st2 (ppair (as2 ! d)) (drop d as2)])"
    unfolding e Let_def by (rule u(1))
  have o: "nodes s' j = nodes s1 j" if "j \<noteq> p" for j unfolding e Let_def using that by (rule u(2))
  show "node_rep B s' i1 st1 (as1 @ take d as2)"
    using o[of i1] ne by (intro node_rep_cong[OF a(1)]) simp
  show "node_rep B s' i2 st2 (drop d as2)"
    using o[of i2] ne by (intro node_rep_cong[OF a(2)]) simp
  show "\<And>j. j \<noteq> p \<Longrightarrow> j \<noteq> i1 \<Longrightarrow> j \<noteq> i2 \<Longrightarrow> nodes s' j = nodes s j"
    using o a(3) by simp
  show "free_blocks s' = free_blocks s" "next_block s' = next_block s"
    "cache_pointer s' = cache_pointer s"
    unfolding e Let_def s1_def by simp_all
qed

lemma amortize_pair_prev_rep:
  assumes P: "node_rep B s p stp ks" and y: "Suc y < length ks"
    and K1: "ks ! y = Node i1 st1 pp1 as1" and K2: "ks ! Suc y = Node i2 st2 pp2 as2"
    and R1: "node_rep B s i1 st1 as1" and R2: "node_rep B s i2 st2 as2"
    and ne: "i1 \<noteq> i2" "p \<noteq> i1" "p \<noteq> i2" and nn: "0 \<le> i1" "0 \<le> i2"
    and le: "length as2 \<le> length as1" and d: "d = (length as1 - length as2) div 2"
    and room: "length as2 + d \<le> nat (B + 1)" and d1: "1 \<le> d \<or> as2 \<noteq> []"
  defines "s' \<equiv> amortize_pair False s p (int y)"
  shows "node_rep B s' p stp (ks[y := Node i1 st1 pp1 (take (length as1 - d) as1),
            Suc y := Node i2 st2 (ppair (hd (drop (length as1 - d) as1 @ as2)))
                       (drop (length as1 - d) as1 @ as2)])"
    and "node_rep B s' i1 st1 (take (length as1 - d) as1)"
    and "node_rep B s' i2 st2 (drop (length as1 - d) as1 @ as2)"
    and "\<And>j. j \<noteq> p \<Longrightarrow> j \<noteq> i1 \<Longrightarrow> j \<noteq> i2 \<Longrightarrow> nodes s' j = nodes s j"
    and "free_blocks s' = free_blocks s" "next_block s' = next_block s"
    and "cache_pointer s' = cache_pointer s"
proof -
  define s1 where "s1 = amortize_prev s i1 i2"
  have y': "y < length ks" using y by simp
  have gp: "get_pointer (node_head s p (int y)) = i1" "get_pointer (node_head s p (int y + 1)) = i2"
    using node_head_rep[OF P y', of "int y"] node_head_rep[OF P y, of "int y + 1"] K1 K2 nn
    by (simp_all add: get_pointer_entry del: entry.simps)
  have e: "s' = (let s2 = set_head_count p (int y) (count (nodes s1 i1)) s1;
                     s3 = set_head_count p (int y + 1) (count (nodes s2 i2)) s2
                 in set_v p (int y + 1) (v_pair (get_tuple s3 i2 0)) s3)"
    unfolding s'_def amortize_pair_def gp s1_def Let_def by simp
  note a = amortize_prev_rep[OF R1 R2 ne(1) le d room, folded s1_def]
  have P1: "node_rep B s1 p stp ks" using a(3)[of p] ne by (intro node_rep_cong[OF P]) simp
  have dle: "d \<le> length as1" using d by simp
  have ne2: "drop (length as1 - d) as1 @ as2 \<noteq> []" using d1 dle by auto
  note u = pair_parent_update[OF P1 y K1 K2 a(1) a(2) ne(2,3) ne2]
  show "node_rep B s' p stp (ks[y := Node i1 st1 pp1 (take (length as1 - d) as1),
            Suc y := Node i2 st2 (ppair (hd (drop (length as1 - d) as1 @ as2)))
                       (drop (length as1 - d) as1 @ as2)])"
    unfolding e Let_def by (rule u(1))
  have o: "nodes s' j = nodes s1 j" if "j \<noteq> p" for j unfolding e Let_def using that by (rule u(2))
  show "node_rep B s' i1 st1 (take (length as1 - d) as1)"
    using o[of i1] ne by (intro node_rep_cong[OF a(1)]) simp
  show "node_rep B s' i2 st2 (drop (length as1 - d) as1 @ as2)"
    using o[of i2] ne by (intro node_rep_cong[OF a(2)]) simp
  show "\<And>j. j \<noteq> p \<Longrightarrow> j \<noteq> i1 \<Longrightarrow> j \<noteq> i2 \<Longrightarrow> nodes s' j = nodes s j"
    using o a(3) by simp
  show "free_blocks s' = free_blocks s" "next_block s' = next_block s"
    "cache_pointer s' = cache_pointer s"
    unfolding e Let_def s1_def by simp_all
qed

section \<open>Splitting a child\<close>

lemma mmove_nothing: "nat d \<le> length dst \<Longrightarrow> mmove dst d src s 0 = dst"
  by (simp add: mmove_def)

lemma split_node_nodes:
  fixes x :: int
  assumes al: "allocate B z s = (n, s1)" and ne: "n \<noteq> c" "n \<noteq> p" "p \<noteq> c" and cp: "cache_pointer s = c"
  defines "C \<equiv> nodes s c" and "P \<equiv> nodes s p"
  defines "m \<equiv> count C div 2"
  defines "st1 \<equiv> (if 0 \<le> state C then n else NOT n)"
  defines "N \<equiv> (zero_node B z)\<lparr>state := state C, count := m,
               data := mmove (data (zero_node B z)) 0 (data C) (count C - m) m\<rparr>"
  defines "d1 \<equiv> (data P)[nat x := (data P ! nat x)\<lparr>head := (head (data P ! nat x))\<lparr>count := count C - m\<rparr>\<rparr>]"
  defines "d2 \<equiv> (if x + 1 < count P then mmove d1 (x + 1 + 1) d1 (x + 1) (count P - (x + 1)) else d1)"
  defines "d3 \<equiv> d2[nat (x + 1) := \<lparr>head = \<lparr>state = st1, count = m\<rparr>, v_pair = v_pair (data N ! 0)\<rparr>]"
  shows "nodes (split_node B z s p x) = (nodes s)(n := N, c := C\<lparr>state := st1, count := count C - m\<rparr>, p := P\<lparr>data := d3\<rparr>)"
    and "free_blocks (split_node B z s p x) = free_blocks s1"
    and "next_block (split_node B z s p x) = next_block s1"
proof -
  define s2 where "s2 = set_state n (state (nodes s1 c)) s1"
  define s3 where "s3 = upd_node c (\<lambda>nd. set_index n (node_type_of_bool (is_inner nd)) nd) s2"
  define s4 where "s4 = set_count n (drop_bit 1 (count (nodes s3 c))) s3"
  define s5 where "s5 = set_count c (count (nodes s4 c) - count (nodes s4 n)) s4"
  define s6 where "s6 = set_head_count p x (count (nodes s5 c)) s5"
  define s7 where "s7 = set_data n (mmove (data (nodes s6 n)) 0 (data (nodes s6 c))
                (count (nodes s6 c)) (count (nodes s6 n))) s6"
  define s8 where "s8 = (if x + 1 < count (nodes s7 p)
               then set_data p (mmove (data (nodes s7 p)) (x + 1 + 1)
                      (data (nodes s7 p)) (x + 1) (count (nodes s7 p) - (x + 1))) s7
               else s7)"
  define s9 where "s9 = set_v p (x + 1) (v_pair (get_tuple s8 n 0)) s8"
  define s10 where "s10 = set_head_count p (x + 1) (count (nodes s9 n)) s9"
  define s11 where "s11 = set_head_state p (x + 1) (state (nodes s10 c)) s10"
  have e: "split_node B z s p x = s11"
    unfolding split_node_def s11_def s10_def s9_def s8_def s7_def s6_def s5_def s4_def s3_def s2_def
      Let_def al prod.case cp by (rule refl)
  have n1: "nodes s1 = (nodes s)(n := zero_node B z)" using allocate_nodes[OF al] by simp
  have n2: "nodes s2 = (nodes s)(n := (zero_node B z)\<lparr>state := state C\<rparr>)"
    using ne by (simp add: s2_def n1 C_def)
  have n3: "nodes s3 = (nodes s2)(c := C\<lparr>state := st1\<rparr>)"
    using ne by (auto simp: s3_def n2 C_def st1_def set_index_def node_type_of_bool_def is_inner_def)
  have n4: "nodes s4 = (nodes s3)(n := (zero_node B z)\<lparr>state := state C, count := m\<rparr>)"
    using ne by (simp add: s4_def n3 n2 m_def drop_bit_1_int)
  have n5: "nodes s5 = (nodes s4)(c := C\<lparr>state := st1, count := count C - m\<rparr>)"
    using ne by (simp add: s5_def n4 n3)
  have n6: "nodes s6 = (nodes s5)(p := P\<lparr>data := d1\<rparr>)"
    using ne by (simp add: s6_def n5 n4 n3 n2 d1_def P_def)
  have n7: "nodes s7 = (nodes s6)(n := N)"
    using ne by (simp add: s7_def n6 n5 n4 N_def zero_node_def)
  have n8: "nodes s8 = (nodes s7)(p := P\<lparr>data := d2\<rparr>)"
    using ne by (auto simp: s8_def n7 n6 d2_def P_def add.commute)
  have n9: "nodes s9 = (nodes s8)(p := P\<lparr>data := d2[nat (x + 1) := (d2 ! nat (x + 1))\<lparr>v_pair := v_pair (data N ! 0)\<rparr>]\<rparr>)"
    using ne by (simp add: s9_def n8 n7 get_tuple_eq)
  have n10: "nodes s10 = (nodes s9)(p := (nodes s9 p)\<lparr>data := (data (nodes s9 p))[nat (x + 1) :=
       (data (nodes s9 p) ! nat (x + 1))\<lparr>head := (head (data (nodes s9 p) ! nat (x + 1)))\<lparr>count := m\<rparr>\<rparr>]\<rparr>)"
    using ne by (simp add: s10_def n9 n8 n7 N_def)
  have n11: "nodes s11 = (nodes s10)(p := (nodes s10 p)\<lparr>data := (data (nodes s10 p))[nat (x + 1) :=
       (data (nodes s10 p) ! nat (x + 1))\<lparr>head := (head (data (nodes s10 p) ! nat (x + 1)))\<lparr>state := st1\<rparr>\<rparr>]\<rparr>)"
    using ne by (simp add: s11_def n10 n9 n8 n7 n6 n5)
  have p11: "nodes s11 p = P\<lparr>data := d3\<rparr>"
    by (cases "nat (x + 1) < length d2")
       (simp_all add: n11 n10 n9 d3_def list_update_beyond tuple_updates_all header_updates_all)
  have c11: "nodes s11 c = C\<lparr>state := st1, count := count C - m\<rparr>"
    using ne by (simp add: n11 n10 n9 n8 n7 n6 n5)
  have m11: "nodes s11 n = N"
    using ne by (simp add: n11 n10 n9 n8 n7)
  have o11: "nodes s11 j = nodes s j" if "j \<noteq> n" "j \<noteq> c" "j \<noteq> p" for j
    using that by (simp add: n11 n10 n9 n8 n7 n6 n5 n4 n3 n2)
  show "nodes (split_node B z s p x) = (nodes s)(n := N, c := C\<lparr>state := st1, count := count C - m\<rparr>, p := P\<lparr>data := d3\<rparr>)"
    unfolding e using p11 c11 m11 o11 by (intro ext) (simp add: fun_upd_def)
  have f2: "free_blocks s2 = free_blocks s1" "next_block s2 = next_block s1"
    by (simp_all add: s2_def)
  have f3: "free_blocks s3 = free_blocks s2" "next_block s3 = next_block s2"
    by (simp_all add: s3_def)
  have f4: "free_blocks s4 = free_blocks s3" "next_block s4 = next_block s3"
    by (simp_all add: s4_def)
  have f5: "free_blocks s5 = free_blocks s4" "next_block s5 = next_block s4"
    by (simp_all add: s5_def)
  have f6: "free_blocks s6 = free_blocks s5" "next_block s6 = next_block s5"
    by (simp_all add: s6_def)
  have f7: "free_blocks s7 = free_blocks s6" "next_block s7 = next_block s6"
    by (simp_all add: s7_def)
  have f8: "free_blocks s8 = free_blocks s7" "next_block s8 = next_block s7"
    by (simp_all add: s8_def)
  have f9: "free_blocks s9 = free_blocks s8" "next_block s9 = next_block s8"
    by (simp_all add: s9_def)
  have f10: "free_blocks s10 = free_blocks s9" "next_block s10 = next_block s9"
    by (simp_all add: s10_def)
  have f11: "free_blocks s11 = free_blocks s10" "next_block s11 = next_block s10"
    by (simp_all add: s11_def)
  show "free_blocks (split_node B z s p x) = free_blocks s1" unfolding e using f2 f3 f4 f5 f6 f7 f8 f9 f10 f11 by simp
  show "next_block (split_node B z s p x) = next_block s1" unfolding e using f2 f3 f4 f5 f6 f7 f8 f9 f10 f11 by simp
qed

lemma split_node_rep:
  assumes al: "allocate B z s = (n, s1)" and P: "node_rep B s p stp ks" and x: "x < length ks"
    and K: "ks ! x = Node c stc ppc ksc" and C: "node_rep B s c stc ksc"
    and ne: "n \<noteq> c" "n \<noteq> p" "p \<noteq> c" and cp: "cache_pointer s = c" and n0: "0 \<le> n"
    and room: "length ks < nat (B + 1)"
    and m: "m = length ksc div 2" "1 \<le> m"
  defines "st1 \<equiv> (if 0 \<le> stc then n else NOT n)"
  defines "s' \<equiv> set_count p (count (nodes (split_node B z s p (int x)) p) + 1)
                   (split_node B z s p (int x))"
  defines "C1 \<equiv> Node c st1 ppc (take (length ksc - m) ksc)"
  defines "C2 \<equiv> Node n stc (ppair (ksc ! (length ksc - m))) (drop (length ksc - m) ksc)"
  shows "node_rep B s' p stp (take x ks @ [C1, C2] @ drop (Suc x) ks)"
    and "node_rep B s' c st1 (take (length ksc - m) ksc)"
    and "node_rep B s' n stc (drop (length ksc - m) ksc)"
    and "\<And>j. j \<noteq> p \<Longrightarrow> j \<noteq> c \<Longrightarrow> j \<noteq> n \<Longrightarrow> nodes s' j = nodes s j"
    and "free_blocks s' = free_blocks s1" "next_block s' = next_block s1"
proof -
  note p = node_repD[OF P] and c = node_repD[OF C]
  let ?C = "nodes s c" and ?P = "nodes s p"
  have mi: "count ?C div 2 = int m" using c(2) m by (simp add: zdiv_int)
  have mle: "m \<le> length ksc" using m by simp
  have lenC: "length ksc \<le> length (data ?C)" using c(4) by (metis length_entries c(5))
  define N where "N = (zero_node B z)\<lparr>state := state ?C, count := int m,
               data := mmove (data (zero_node B z)) 0 (data ?C) (count ?C - int m) (int m)\<rparr>"
  define d1 where "d1 = (data ?P)[nat (int x) := (data ?P ! nat (int x))\<lparr>head := (head (data ?P ! nat (int x)))\<lparr>count := count ?C - int m\<rparr>\<rparr>]"
  define d2 where "d2 = (if int x + 1 < count ?P then mmove d1 (int x + 1 + 1) d1 (int x + 1) (count ?P - (int x + 1)) else d1)"
  define d3 where "d3 = d2[nat (int x + 1) := \<lparr>head = \<lparr>state = (if 0 \<le> state ?C then n else NOT n), count = int m\<rparr>, v_pair = v_pair (data N ! 0)\<rparr>]"
  have sn: "nodes (split_node B z s p (int x)) =
      (nodes s)(n := N, c := ?C\<lparr>state := (if 0 \<le> state ?C then n else NOT n), count := count ?C - int m\<rparr>,
                p := ?P\<lparr>data := d3\<rparr>)"
    using split_node_nodes(1)[OF al ne cp, where x = "int x"]
    unfolding mi N_def d1_def d2_def d3_def by simp
  have e: "s' = set_count p (count ?P + 1) (split_node B z s p (int x))"
    using ne by (simp add: s'_def sn)
  have ns': "nodes s' = (nodes s)(n := N, c := ?C\<lparr>state := st1, count := count ?C - int m\<rparr>,
                p := ?P\<lparr>data := d3, count := count ?P + 1\<rparr>)"
    using ne c(1) by (simp add: e sn st1_def)
  show "\<And>j. j \<noteq> p \<Longrightarrow> j \<noteq> c \<Longrightarrow> j \<noteq> n \<Longrightarrow> nodes s' j = nodes s j"
    by (simp add: ns')
  show "free_blocks s' = free_blocks s1" "next_block s' = next_block s1"
    using split_node_nodes(2,3)[OF al ne cp, where x = "int x"] by (simp_all add: e)
  \<comment> \<open>the old child keeps its lower part\<close>
  have "take (length ksc - m) (data ?C) = take (length ksc - m) (map entry ksc)"
    using c(4) by (intro take_entries_prefix) auto
  then show rc: "node_rep B s' c st1 (take (length ksc - m) ksc)"
    using c mle ne by (intro node_repI) (simp_all add: ns' take_map of_nat_diff)
  \<comment> \<open>the new child receives the upper part\<close>
  have zt: "take 0 (data (zero_node B z)) = []" by simp
  have tn: "take (0 + m) (mmove (data (zero_node B z)) 0 (data ?C) (count ?C - int m) (int m))
              = [] @ take m (drop (length ksc - m) (map entry ksc))"
    and ln: "length (mmove (data (zero_node B z)) 0 (data ?C) (count ?C - int m) (int m))
              = length (data (zero_node B z))"
    using take_append_from[OF zt _ _ c(4), where k = m and ofs = "length ksc - m" and ni = 0
        and oi = "count ?C - int m" and ki = "int m"]
      mle lenC c(2,3) by (simp_all add: of_nat_diff)
  show rn: "node_rep B s' n stc (drop (length ksc - m) ksc)"
    using tn ln c mle ne by (intro node_repI) (simp_all add: ns' N_def drop_map)
  \<comment> \<open>the parent gets one more entry\<close>
  have q: "v_pair (data N ! 0) = ppair (ksc ! (length ksc - m))"
  proof -
    have "data N ! 0 = take (0 + m) (data N) ! 0" using m by simp
    also have "\<dots> = drop (length ksc - m) (map entry ksc) ! 0"
      using tn mle by (simp add: N_def)
    also have "\<dots> = entry (ksc ! (length ksc - m))" using mle m by simp
    finally show ?thesis by simp
  qed
  have lenP: "length ks \<le> length (data ?P)" using p(4) by (metis length_entries p(5))
  have e1: "(data ?P ! x)\<lparr>head := (head (data ?P ! x))\<lparr>count := count ?C - int m\<rparr>\<rparr> = entry C1"
  proof -
    have "data ?P ! x = entry (Node c stc ppc ksc)" using node_rep_nth[OF P x] K by simp
    moreover have "(st1 < 0) = (stc < 0)" using n0 by (simp add: st1_def not_int_def)
    ultimately show ?thesis using c(2) mle by (simp add: C1_def of_nat_diff)
  qed
  have t1: "take (length ks) d1 = map entry (ks[x := C1])"
    using p(4) by (simp add: d1_def e1 take_update_swap map_update)
  have l1: "length d1 = length (data ?P)" by (simp add: d1_def)
  have d2': "d2 = mmove d1 (int (Suc x) + 1) d1 (int (Suc x)) (int (length ks) - int (Suc x))"
  proof (cases "Suc x < length ks")
    case True
    then show ?thesis using p(2) by (simp add: d2_def add.commute)
  next
    case False
    then have xe: "Suc x = length ks" using x by simp
    have "nat (int (Suc x) + 1) \<le> length d1" using xe room p(3) l1 by simp
    then have "mmove d1 (int (Suc x) + 1) d1 (int (Suc x)) 0 = d1" by (rule mmove_nothing)
    then show ?thesis using False p(2) xe by (simp add: d2_def)
  qed
  have e2: "\<lparr>head = \<lparr>state = (if 0 \<le> state ?C then n else NOT n), count = int m\<rparr>,
             v_pair = v_pair (data N ! 0)\<rparr> = entry C2"
    using c(1) mle n0 by (auto simp: C2_def q not_int_def)
  have ins: "take (Suc (length ks)) ((mmove d1 (int (Suc x) + 1) d1 (int (Suc x)) (int (length ks) - int (Suc x)))[Suc x := entry C2])
               = take (Suc x) (map entry (ks[x := C1])) @ entry C2 # drop (Suc x) (map entry (ks[x := C1]))"
    and insl: "length ((mmove d1 (int (Suc x) + 1) d1 (int (Suc x)) (int (length ks) - int (Suc x)))[Suc x := entry C2]) = length d1"
    using take_insert_at(1,2)[OF t1, where x = "Suc x" and xi = "int (Suc x)" and ni = "int (length ks)"
        and t = "entry C2"] x room l1 p(3)
    by simp_all
  have d3': "d3 = (mmove d1 (int (Suc x) + 1) d1 (int (Suc x)) (int (length ks) - int (Suc x)))[Suc x := entry C2]"
    unfolding d3_def d2' e2 by (simp add: nat_add_distrib)
  have "take (Suc x) (map entry (ks[x := C1])) @ entry C2 # drop (Suc x) (map entry (ks[x := C1]))
          = map entry (take x ks @ [C1, C2] @ drop (Suc x) ks)"
    using x by (simp add: take_map drop_map take_Suc_conv_app_nth)
  then have t3: "take (Suc (length ks)) d3 = map entry (take x ks @ [C1, C2] @ drop (Suc x) ks)"
    using ins d3' by simp
  have len': "length (take x ks @ [C1, C2] @ drop (Suc x) ks) = Suc (length ks)"
    using x by simp
  show "node_rep B s' p stp (take x ks @ [C1, C2] @ drop (Suc x) ks)"
  proof (rule node_repI)
    show "state (nodes s' p) = stp" using p(1) by (simp add: ns')
    show "count (nodes s' p) = int (length (take x ks @ [C1, C2] @ drop (Suc x) ks))"
      unfolding len' using p(2) by (simp add: ns')
    show "length (data (nodes s' p)) = nat (B + 1)"
      using insl l1 p(3) unfolding d3'[symmetric] by (simp add: ns')
    show "take (length (take x ks @ [C1, C2] @ drop (Suc x) ks)) (data (nodes s' p))
            = map entry (take x ks @ [C1, C2] @ drop (Suc x) ks)"
      unfolding len' using t3 by (simp add: ns')
  qed
qed

section \<open>Sorted pairs\<close>

lemma sorted_hd_le:
  fixes xs :: "'a::linorder list"
  shows "sorted_wrt (<) xs \<Longrightarrow> x \<in> set xs \<Longrightarrow> hd xs \<le> x"
  by (cases xs) auto

lemma sorted_hd_Min:
  fixes xs :: "'a::linorder list"
  assumes "sorted_wrt (<) xs" "xs \<noteq> []"
  shows "hd xs = Min (set xs)"
proof -
  have "hd xs \<in> set xs" using assms(2) by simp
  moreover have "\<forall>x \<in> set xs. hd xs \<le> x" using sorted_hd_le[OF assms(1)] by blast
  ultimately show ?thesis by (metis List.finite_set Min_eqI)
qed

lemma sorted_insert_mid:
  fixes A :: "'a::linorder list"
  assumes "sorted_wrt (<) (A @ X @ Z)" "sorted_wrt (<) X'" "set X' = insert kv (set X)"
    and "\<forall>a \<in> set A. a < kv" "\<forall>z \<in> set Z. kv < z"
  shows "sorted_wrt (<) (A @ X' @ Z)"
  using assms by (auto simp: sorted_wrt_append)

lemma sorted_subset_mid:
  fixes A :: "'a::linorder list"
  assumes "sorted_wrt (<) (A @ X @ Z)" "sorted_wrt (<) X'" "set X' \<subseteq> set X"
  shows "sorted_wrt (<) (A @ X' @ Z)"
  using assms by (auto simp: sorted_wrt_append)

lemma sorted_map_hd_concat:
  fixes xss :: "'a::linorder list list"
  shows "sorted_wrt (<) (concat xss) \<Longrightarrow> \<forall>xs \<in> set xss. xs \<noteq> [] \<Longrightarrow> sorted_wrt (<) (map hd xss)"
proof (induction xss)
  case Nil
  then show ?case by simp
next
  case (Cons xs xss)
  have c: "sorted_wrt (<) (xs @ concat xss)" using Cons.prems(1) by simp
  have s1: "sorted_wrt (<) xs" and s2: "sorted_wrt (<) (concat xss)"
    using c unfolding sorted_wrt_append by blast+
  have s3: "x < y" if "x \<in> set xs" "y \<in> set (concat xss)" for x y
    using c that unfolding sorted_wrt_append by blast
  have "hd xs < hd ys" if "ys \<in> set xss" for ys
  proof -
    have "hd ys \<in> set ys" using Cons.prems(2) that by simp
    then have "hd ys \<in> set (concat xss)" using that by auto
    moreover have "hd xs \<in> set xs" using Cons.prems(2) by simp
    ultimately show ?thesis using s3 by blast
  qed
  moreover have "sorted_wrt (<) (map hd xss)" using Cons.IH[OF s2] Cons.prems(2) by simp
  ultimately show ?case by simp
qed

lemma kids_ppair_sorted:
  fixes ks :: "('k::linorder, 'v::linorder) atree list"
  assumes "sorted_wrt (<) (concat (map inorder ks))"
    and "\<forall>k \<in> set ks. inorder k \<noteq> [] \<and> minok k"
  shows "sorted_wrt (<) (map ppair ks)"
proof -
  have e: "map ppair ks = map (hd \<circ> inorder) ks"
    by (rule map_cong[OF refl]) (use assms(2) in \<open>auto simp: minok_hd\<close>)
  have "sorted_wrt (<) (map hd (map inorder ks))"
    by (rule sorted_map_hd_concat) (use assms in auto)
  then have "sorted_wrt (<) (map (hd \<circ> inorder) ks)" by simp
  then show ?thesis unfolding e .
qed

lemma wfb_kids:
  assumes "wfb lo hi a b (Suc h) (Node i st pp ks)" "k \<in> set ks"
  shows "wfb lo hi (Suc lo) hi h k" "minok k" "inorder k \<noteq> []"
proof -
  show w: "wfb lo hi (Suc lo) hi h k" and "minok k" using assms by auto
  show "inorder k \<noteq> []" using wfb_inorder_nonempty[OF w] by simp
qed

lemma wfb_kids_sorted:
  fixes ks :: "('k::linorder, 'v::linorder) atree list"
  assumes "wfb lo hi a b (Suc h) (Node i st pp ks)" "sorted_wrt (<) (inorder (Node i st pp ks))"
  shows "sorted_wrt (<) (map ppair ks)"
  using kids_ppair_sorted[of ks] wfb_kids[OF assms(1)] assms(2) by simp

text \<open>Where binary search puts a pair among the children of a node.\<close>

lemma node_search:
  fixes ks :: "('k::linorder, 'v::linorder) atree list"
  assumes R: "node_rep B s i st ks" and srt: "sorted_wrt (<) (map ppair ks)"
  shows "\<exists>b. binary_search (data (nodes s i)) key val 0 (int (length ks)) = Some b \<and>
           ((0 \<le> b \<and> nat b \<le> length ks
              \<and> (\<forall>y < nat b. ppair (ks ! y) < (key, val))
              \<and> (\<forall>y. nat b \<le> y \<and> y < length ks \<longrightarrow> (key, val) < ppair (ks ! y)))
            \<or> (b < 0 \<and> nat (NOT b) < length ks \<and> ppair (ks ! nat (NOT b)) = (key, val)))"
proof -
  let ?d = "data (nodes s i)"
  have vp: "v_pair (?d ! nat j) = ppair (ks ! nat j)" if "0 \<le> j" "j < int (length ks)" for j
    using node_rep_nth[OF R, of "nat j"] that by simp
  have s: "\<forall>a c. 0 \<le> a \<and> a < c \<and> c < int (length ks) \<longrightarrow> v_pair (?d ! nat a) < v_pair (?d ! nat c)"
  proof (intro allI impI)
    fix a c :: int
    assume h: "0 \<le> a \<and> a < c \<and> c < int (length ks)"
    then have l: "nat a < nat c" "nat c < length (map ppair ks)" by auto
    have "map ppair ks ! nat a < map ppair ks ! nat c"
      by (rule sorted_wrt_nth_less[OF srt l])
    moreover have "nat a < length ks" "nat c < length ks" using h by auto
    ultimately show "v_pair (?d ! nat a) < v_pair (?d ! nat c)" using h vp by simp
  qed
  from binary_search_aux[of 0 "int (length ks)" ?d key val, OF _ s]
  obtain b where b: "binary_search ?d key val 0 (int (length ks)) = Some b"
    and bb: "(0 \<le> b \<and> b \<le> int (length ks)
              \<and> (\<forall>j. 0 \<le> j \<and> j < b \<longrightarrow> v_pair (?d ! nat j) < (key, val))
              \<and> (\<forall>j. b \<le> j \<and> j < int (length ks) \<longrightarrow> (key, val) < v_pair (?d ! nat j)))
            \<or> (0 \<le> NOT b \<and> NOT b < int (length ks) \<and> v_pair (?d ! nat (NOT b)) = (key, val))"
    by auto
  from bb show ?thesis
  proof
    assume h: "0 \<le> b \<and> b \<le> int (length ks)
              \<and> (\<forall>j. 0 \<le> j \<and> j < b \<longrightarrow> v_pair (?d ! nat j) < (key, val))
              \<and> (\<forall>j. b \<le> j \<and> j < int (length ks) \<longrightarrow> (key, val) < v_pair (?d ! nat j))"
    have 1: "ppair (ks ! y) < (key, val)" if "y < nat b" for y
    proof -
      have "v_pair (?d ! nat (int y)) < (key, val)" using h that by (intro h[THEN conjunct2, THEN conjunct2, THEN conjunct1, rule_format]) auto
      then show ?thesis using vp[of "int y"] h that by auto
    qed
    have 2: "(key, val) < ppair (ks ! y)" if "nat b \<le> y" "y < length ks" for y
    proof -
      have "(key, val) < v_pair (?d ! nat (int y))" using h that by (intro h[THEN conjunct2, THEN conjunct2, THEN conjunct2, rule_format]) auto
      then show ?thesis using vp[of "int y"] that by auto
    qed
    show ?thesis using b h 1 2 by auto
  next
    assume h: "0 \<le> NOT b \<and> NOT b < int (length ks) \<and> v_pair (?d ! nat (NOT b)) = (key, val)"
    then have "b < 0" by (simp add: not_int_def)
    moreover have "nat (NOT b) < length ks" using h by linarith
    moreover have "ppair (ks ! nat (NOT b)) = (key, val)" using h vp[of "NOT b"] by simp
    ultimately show ?thesis using b by blast
  qed
qed

section \<open>Head references\<close>

lemma read_head_href:
  assumes "href_at s href t" "rep B s t" "t = Node i st pp ks"
  shows "read_head s href = head (entry t)"
proof (cases href)
  case RootHead
  then show ?thesis using assms by (simp add: href_at_def node_rep_def)
next
  case (SlotHead p x)
  then show ?thesis using assms by (simp add: href_at_def node_head_eq)
qed

lemma frame_ok_same:
  assumes "href_at s href t" "entry t' = entry t"
    and "\<And>j. j \<notin> set (idxs t) \<Longrightarrow> j \<notin> avail s \<Longrightarrow> nodes s' j = nodes s j"
  shows "frame_ok s s' href t t'"
proof (cases href)
  case RootHead
  then show ?thesis using assms(3) by (simp add: frame_ok_def)
next
  case (SlotHead p x)
  then have "(data (nodes s p))[nat x := entry t'] = data (nodes s p)"
    using assms(1,2) by (simp add: href_at_def) (metis list_update_id)
  then show ?thesis using SlotHead assms(3) by (simp add: frame_ok_def)
qed

lemma write_head_count_nodes:
  assumes hr: "href_at s href (Node i st pp ks)" and kind: "(st' < 0) = (st < 0)"
    and cnt: "count (nodes s1 i) = int (length ks')"
    and par: "\<And>p x. href = SlotHead p x \<Longrightarrow> nodes s1 p = nodes s p"
  shows "nodes (write_head_count href (int (length ks')) s1) =
     (case href of
        RootHead \<Rightarrow> nodes s1
      | SlotHead p x \<Rightarrow>
          (nodes s1)(p := (nodes s p)\<lparr>data := (data (nodes s p))[nat x := entry (Node i st' pp ks')]\<rparr>))"
proof (cases href)
  case RootHead
  then have "i = 0" using hr by (simp add: href_at_def)
  then have "(nodes s1 0)\<lparr>count := int (length ks')\<rparr> = nodes s1 0" using cnt by simp
  then show ?thesis using RootHead by simp
next
  case (SlotHead p x)
  have e: "data (nodes s p) ! nat x = entry (Node i st pp ks)"
    using hr SlotHead by (simp add: href_at_def)
  show ?thesis using SlotHead par[OF SlotHead] kind by (simp add: e)
qed

lemma frame_ok_written:
  assumes "nodes s' = (case href of
        RootHead \<Rightarrow> nodes s1
      | SlotHead p x \<Rightarrow> (nodes s1)(p := (nodes s p)\<lparr>data := (data (nodes s p))[nat x := entry t']\<rparr>))"
    and "\<And>j. j \<notin> set (idxs t) \<Longrightarrow> j \<notin> avail s \<Longrightarrow> nodes s1 j = nodes s j"
  shows "frame_ok s s' href t t'"
  using assms by (cases href) (auto simp: frame_ok_def)

lemma cache_pointer_write_head_count [simp]:
  "cache_pointer (write_head_count href c s) = cache_pointer s"
  "free_blocks (write_head_count href c s) = free_blocks s"
  "next_block (write_head_count href c s) = next_block s"
  "avail (write_head_count href c s) = avail s"
  "alloc_wf (write_head_count href c s) = alloc_wf s"
  by (cases href; simp)+

lemma href_slot_not_in:
  assumes "href_at s href t" "href = SlotHead p x"
  shows "p \<notin> set (idxs t)" "p \<notin> avail s"
  using assms by (simp_all add: href_at_def)

section \<open>Inserting into a leaf\<close>

lemma singleton_concat: "\<forall>k \<in> set ks. f k = [g k] \<Longrightarrow> concat (map f ks) = map g ks"
  by (induction ks) auto

lemma empty_concat: "\<forall>k \<in> set ks. f k = [] \<Longrightarrow> concat (map f ks) = []"
  by (induction ks) auto

lemma items_inorder:
  assumes "\<forall>k \<in> set ks. wfb lo hi a b 0 k"
  shows "concat (map inorder ks) = map ppair ks" "concat (map idxs ks) = []"
    "\<forall>k \<in> set ks. rep B s k"
proof -
  have it: "\<exists>h p. k = Item h p" if "k \<in> set ks" for k
    using assms that by (cases k) auto
  have i1: "inorder k = [ppair k]" and i2: "idxs k = []" and i3: "rep B s k"
    if "k \<in> set ks" for k
    using it[OF that] by auto
  show "concat (map inorder ks) = map ppair ks" using i1 by (intro singleton_concat) blast
  show "concat (map idxs ks) = []" using i2 by (intro empty_concat) blast
  show "\<forall>k \<in> set ks. rep B s k" using i3 by blast
qed

lemma insert_outer_correct:
  fixes s :: "('k::linorder, 'v::linorder) tree"
  assumes ok: "sub_ok B s t" and t: "t = Node i st pp ks" and wf: "wfb lo hi a b 1 t"
    and b: "b \<le> nat B" and hr: "href_at s href t" and B0: "0 \<le> B"
  shows "\<exists>s' r t'. insert_outer s href key val = Some (s', r)
           \<and> ins_post B lo hi a b 1 (key, val) s href t s' r t'"
proof -
  have st: "st < 0" and len: "a \<le> length ks" "length ks \<le> b"
    and items: "\<forall>k \<in> set ks. wfb lo hi (Suc lo) hi 0 k"
    using wf by (auto simp: t)
  note it = items_inorder[OF items]
  have R: "node_rep B s i st ks" and srt: "sorted_wrt (<) (map ppair ks)"
    and i0: "0 \<le> i" and iav: "i \<notin> avail s" and awf: "alloc_wf s"
    using ok by (auto simp: sub_ok_def t it)
  note r = node_repD[OF R]
  have rp: "rep B s t" using ok by (simp add: sub_ok_def)
  have rh: "read_head s href = head (entry t)"
    by (rule read_head_href[OF hr rp t])
  have gp: "get_pointer (read_head s href) = i" "count (read_head s href) = int (length ks)"
    using i0 by (simp_all add: rh t get_pointer_entry del: entry.simps) simp
  from node_search[OF R srt, of key val]
  obtain bb where bs: "binary_search (data (nodes s i)) key val 0 (int (length ks)) = Some bb"
    and cases: "(0 \<le> bb \<and> nat bb \<le> length ks
              \<and> (\<forall>y < nat bb. ppair (ks ! y) < (key, val))
              \<and> (\<forall>y. nat bb \<le> y \<and> y < length ks \<longrightarrow> (key, val) < ppair (ks ! y)))
            \<or> (bb < 0 \<and> nat (NOT bb) < length ks \<and> ppair (ks ! nat (NOT bb)) = (key, val))"
    by blast
  have lv: "leaves t = [(i, NOT st)]" using st by (simp add: t)
  from cases show ?thesis
  proof
    assume h: "bb < 0 \<and> nat (NOT bb) < length ks \<and> ppair (ks ! nat (NOT bb)) = (key, val)"
    have e: "insert_outer s href key val = Some (s, False)"
      using h bs by (simp add: insert_outer_def Let_def gp)
    have mem: "(key, val) \<in> set (inorder t)"
      using h by (simp add: t it) (metis nth_mem image_eqI)
    have "step_ok B s href t s t"
      using ok hr by (auto simp: step_ok_def intro!: frame_ok_same)
    then have "ins_post B lo hi a b 1 (key, val) s href t s False t"
      using mem wf lv by (auto simp: ins_post_def chain_pres_def)
    then show ?thesis using e by blast
  next
    assume h: "0 \<le> bb \<and> nat bb \<le> length ks
              \<and> (\<forall>y < nat bb. ppair (ks ! y) < (key, val))
              \<and> (\<forall>y. nat bb \<le> y \<and> y < length ks \<longrightarrow> (key, val) < ppair (ks ! y))"
    define x where "x = nat bb"
    have bx: "bb = int x" and xl: "x \<le> length ks" using h by (simp_all add: x_def)
    have below: "\<And>y. y < x \<Longrightarrow> ppair (ks ! y) < (key, val)"
      and above: "\<And>y. x \<le> y \<Longrightarrow> y < length ks \<Longrightarrow> (key, val) < ppair (ks ! y)"
      using h by (simp_all add: x_def)
    have notin: "(key, val) \<notin> set (map ppair ks)"
    proof
      assume "(key, val) \<in> set (map ppair ks)"
      then obtain y where y: "y < length ks" "ppair (ks ! y) = (key, val)"
        by (auto simp: in_set_conv_nth)
      then show False using below[of y] above[of y] by (cases "y < x") auto
    qed
    have room: "length ks < nat (B + 1)" using len b B0 by linarith
    let ?dat = "data (nodes s i)"
    define s1 where "s1 = modify i s"
    define s2 where "s2 = set_data i (mmove (data (nodes s1 i)) (bb + 1) (data (nodes s1 i)) bb
                     (count (read_head s1 href) - bb)) s1"
    define s3 where "s3 = set_v i bb (key, val) s2"
    define s4 where "s4 = set_count i (count (nodes s3 i) + 1) s3"
    define s5 where "s5 = write_head_count href (count (nodes s4 i)) s4"
    define s' where "s' = s5\<lparr>cache_pointer := i\<rparr>"
    have e: "insert_outer s href key val = Some (s', True)"
      using h bs unfolding insert_outer_def gp Let_def s'_def s5_def s4_def s3_def s2_def s1_def
      by simp
    have rh1: "read_head s1 href = read_head s href" by (cases href) (simp_all add: s1_def node_head_eq)
    let ?m = "mmove ?dat (int x + 1) ?dat (int x) (int (length ks) - int x)"
    define hh where "hh = head (?dat ! x)"
    define ks' where "ks' = take x ks @ Item hh (key, val) # drop x ks"
    have n4: "nodes s4 = (nodes s)(i := (nodes s i)\<lparr>data := ?m[x := (?m ! x)\<lparr>v_pair := (key, val)\<rparr>],
                  count := int (length ks) + 1\<rparr>)"
      unfolding s4_def s3_def s2_def s1_def using r(2) gp(2) rh1[unfolded s1_def]
      by (simp add: bx)
    have ins: "take (Suc (length ks)) (?m[x := (?dat ! x)\<lparr>v_pair := (key, val)\<rparr>])
                = take x (map entry ks) @ (?dat ! x)\<lparr>v_pair := (key, val)\<rparr> # drop x (map entry ks)"
      and insl: "length (?m[x := (?dat ! x)\<lparr>v_pair := (key, val)\<rparr>]) = length ?dat"
      and mx: "?m ! x = ?dat ! x"
      using take_insert_at[OF r(4) r(5), where x = x and xi = "int x" and ni = "int (length ks)"]
        room r(3) xl by simp_all
    have en: "(?dat ! x)\<lparr>v_pair := (key, val)\<rparr> = entry (Item hh (key, val))"
      by (simp add: hh_def)
    have lks': "length ks' = Suc (length ks)" using xl by (simp add: ks'_def)
    have R4: "node_rep B s4 i st ks'"
    proof (rule node_repI)
      show "state (nodes s4 i) = st" using r(1) by (simp add: n4)
      show "count (nodes s4 i) = int (length ks')" by (simp add: n4 lks')
      show "length (data (nodes s4 i)) = nat (B + 1)" using insl r(3) by (simp add: n4 mx)
      show "take (length ks') (data (nodes s4 i)) = map entry ks'"
        unfolding lks' using ins by (simp add: n4 mx en ks'_def take_map drop_map)
    qed
    define t' where "t' = Node i st pp ks'"
    have o4: "nodes s4 j = nodes s j" if "j \<noteq> i" for j using that by (simp add: n4)
    have c4: "count (nodes s4 i) = int (length ks')" using R4 by (simp add: node_rep_def)
    have n5: "nodes s5 = (case href of
          RootHead \<Rightarrow> nodes s4
        | SlotHead p y \<Rightarrow>
            (nodes s4)(p := (nodes s p)\<lparr>data := (data (nodes s p))[nat y := entry t']\<rparr>))"
      unfolding s5_def c4 t'_def
    proof (rule write_head_count_nodes[OF hr[unfolded t] _ c4])
      show "(st < 0) = (st < 0)" by simp
      fix p y assume "href = SlotHead p y"
      then have "p \<noteq> i" using hr by (auto simp: href_at_def t)
      then show "nodes s4 p = nodes s p" by (rule o4)
    qed
    have pni: "p \<noteq> i" if "href = SlotHead p y" for p y
      using that hr by (auto simp: href_at_def t)
    have R': "node_rep B s' i st ks'"
    proof (rule node_rep_cong[OF R4])
      show "nodes s' i = nodes s4 i"
        using pni by (cases href) (auto simp: s'_def n5)
    qed
    have ino: "inorder t' = map ppair (take x ks) @ (key, val) # map ppair (drop x ks)"
    proof -
      have "\<forall>k \<in> set ks'. wfb lo hi (Suc lo) hi 0 k"
        using items by (auto simp: ks'_def dest: in_set_takeD in_set_dropD)
      from items_inorder(1)[OF this] show ?thesis by (simp add: t'_def ks'_def)
    qed
    have srt': "sorted_wrt (<) (inorder t')"
    proof -
      have a: "\<forall>p \<in> set (map ppair (take x ks)). p < (key, val)"
        using below xl by (auto simp: in_set_conv_nth)
      have z: "\<forall>p \<in> set (map ppair (drop x ks)). (key, val) < p"
        using above xl by (auto simp: in_set_conv_nth)
      have "sorted_wrt (<) (map ppair (take x ks) @ map ppair (drop x ks))"
        using srt by (metis append_take_drop_id map_append)
      then show ?thesis using a z unfolding ino
        by (auto simp: sorted_wrt_append)
    qed
    have setin: "set (inorder t') = insert (key, val) (set (inorder t))"
    proof -
      have "set (map ppair ks) = set (map ppair (take x ks)) \<union> set (map ppair (drop x ks))"
        by (metis append_take_drop_id map_append set_append)
      then show ?thesis unfolding ino by (simp add: t it)
    qed
    have rep': "rep B s' t'"
    proof -
      have "\<forall>k \<in> set ks'. wfb lo hi (Suc lo) hi 0 k"
        using items by (auto simp: ks'_def dest: in_set_takeD in_set_dropD)
      from items_inorder(3)[OF this] show ?thesis using R' by (simp add: t'_def)
    qed
    have idxs': "idxs t' = [i]" "idxs t = [i]"
    proof -
      have "\<forall>k \<in> set ks'. wfb lo hi (Suc lo) hi 0 k"
        using items by (auto simp: ks'_def dest: in_set_takeD in_set_dropD)
      from items_inorder(2)[OF this] show "idxs t' = [i]" by (simp add: t'_def)
      show "idxs t = [i]" using it by (simp add: t)
    qed
    have av: "avail s' = avail s" "alloc_wf s' = alloc_wf s"
      by (simp_all add: s'_def s5_def s4_def s3_def s2_def s1_def)
    have sok: "sub_ok B s' t'"
      using rep' srt' idxs' i0 iav awf av by (simp add: sub_ok_def)
    have fr: "frame_ok s s' href t t'"
    proof (rule frame_ok_written)
      show "nodes s' = (case href of RootHead \<Rightarrow> nodes s4
               | SlotHead p y \<Rightarrow> (nodes s4)(p := (nodes s p)\<lparr>data := (data (nodes s p))[nat y := entry t']\<rparr>))"
        by (simp add: s'_def n5)
      show "\<And>j. j \<notin> set (idxs t) \<Longrightarrow> j \<notin> avail s \<Longrightarrow> nodes s4 j = nodes s j"
        using o4 by (simp add: idxs')
    qed
    have stp: "step_ok B s href t s' t'"
      using sok fr av idxs' by (simp add: step_ok_def t t'_def)
    have wf': "wfb lo hi a (Suc b) 1 t'"
      using wf len xl by (auto simp: t t'_def ks'_def dest: in_set_takeD in_set_dropD)
    have "ins_post B lo hi a b 1 (key, val) s href t s' True t'"
      using stp setin notin wf' lv st lks'
      by (simp add: ins_post_def t it t'_def s'_def chain_pres_def)
    then show ?thesis using e by blast
  qed
qed

section \<open>Replacing adjacent children of a node\<close>

lemma pair_split:
  "Suc y < length ks \<Longrightarrow> ks = take y ks @ [ks ! y, ks ! Suc y] @ drop (Suc (Suc y)) ks"
  by (metis Cons_nth_drop_Suc Suc_lessD append_Cons append_Nil id_take_nth_drop)

lemma pair_update:
  "Suc y < length ks \<Longrightarrow> ks[y := k1, Suc y := k2] = take y ks @ [k1, k2] @ drop (Suc (Suc y)) ks"
proof -
  assume y: "Suc y < length ks"
  let ?ks = "ks[y := k1, Suc y := k2]"
  have "?ks = take y ?ks @ [?ks ! y, ?ks ! Suc y] @ drop (Suc (Suc y)) ?ks"
    using y by (intro pair_split) simp
  then show ?thesis using y by simp
qed

lemma single_split:
  "x < length ks \<Longrightarrow> ks = take x ks @ [ks ! x] @ drop (Suc x) ks"
  using id_take_nth_drop by fastforce

lemma single_update:
  "x < length ks \<Longrightarrow> ks[x := k] = take x ks @ [k] @ drop (Suc x) ks"
  by (simp add: upd_conv_take_nth_drop)

lemma segment_replace:
  fixes s :: "('k::linorder, 'v::linorder) tree"
  assumes ok: "sub_ok B s (Node p stp ppp (A @ old @ Z))"
    and srt': "sorted_wrt (<) (concat (map inorder (A @ new @ Z)))"
    and sub: "set (concat (map idxs new)) \<union> avail s' \<subseteq> set (concat (map idxs old)) \<union> avail s"
    and dis: "distinct (concat (map idxs new))" "set (concat (map idxs new)) \<inter> avail s' = {}"
    and nn: "\<forall>i \<in> set (concat (map idxs new)). 0 \<le> i"
    and awf: "alloc_wf s'"
    and reps: "\<forall>k \<in> set new. rep B s' k"
    and par: "node_rep B s' p stp (A @ new @ Z)"
    and frame: "\<And>j. j \<noteq> p \<Longrightarrow> j \<notin> set (concat (map idxs old)) \<Longrightarrow> j \<notin> avail s
                  \<Longrightarrow> nodes s' j = nodes s j"
  shows "sub_ok B s' (Node p stp ppp (A @ new @ Z))"
    and "set (idxs (Node p stp ppp (A @ new @ Z))) \<union> avail s'
           \<subseteq> set (idxs (Node p stp ppp (A @ old @ Z))) \<union> avail s"
proof -
  let ?iA = "concat (map idxs A)" and ?iZ = "concat (map idxs Z)"
  let ?io = "concat (map idxs old)" and ?in = "concat (map idxs new)"
  have d: "distinct (p # ?iA @ ?io @ ?iZ)" and av: "set (p # ?iA @ ?io @ ?iZ) \<inter> avail s = {}"
    and n0: "\<forall>i \<in> set (p # ?iA @ ?io @ ?iZ). 0 \<le> i"
    and rA: "\<forall>k \<in> set A. rep B s k" and rZ: "\<forall>k \<in> set Z. rep B s k"
    using ok by (auto simp: sub_ok_def)
  show s: "set (idxs (Node p stp ppp (A @ new @ Z))) \<union> avail s'
           \<subseteq> set (idxs (Node p stp ppp (A @ old @ Z))) \<union> avail s"
    using sub by auto
  have sA: "set ?iA \<inter> avail s = {}" "set ?iA \<inter> set ?io = {}" "p \<notin> set ?iA"
    and sZ: "set ?iZ \<inter> avail s = {}" "set ?iZ \<inter> set ?io = {}" "p \<notin> set ?iZ"
    and sp: "p \<notin> avail s" "p \<notin> set ?io" and sAZ: "set ?iA \<inter> set ?iZ = {}"
    and dA: "distinct ?iA" and dZ: "distinct ?iZ"
    using d av by auto
  have sub1: "set ?in \<subseteq> set ?io \<union> avail s" and sub2: "avail s' \<subseteq> set ?io \<union> avail s"
    using sub by blast+
  have pav: "p \<notin> avail s'" using sub2 sp by blast
  have Aav: "set ?iA \<inter> avail s' = {}" using sub2 sA by blast
  have Zav: "set ?iZ \<inter> avail s' = {}" using sub2 sZ by blast
  have An: "set ?iA \<inter> set ?in = {}" using sub1 sA by blast
  have Zn: "set ?iZ \<inter> set ?in = {}" using sub1 sZ by blast
  have pn: "p \<notin> set ?in" using sub1 sp by blast
  have d': "distinct (p # ?iA @ ?in @ ?iZ)"
    using dA dZ dis(1) An Zn pn sA(3) sZ(3) sAZ unfolding distinct.simps distinct_append set_append
    by blast
  have av': "set (p # ?iA @ ?in @ ?iZ) \<inter> avail s' = {}"
    using pav Aav Zav dis(2) unfolding set_append set_simps by blast
  have n0': "\<forall>i \<in> set (p # ?iA @ ?in @ ?iZ). 0 \<le> i"
    using n0 nn unfolding set_append set_simps by blast
  have rA': "rep B s' k" if "k \<in> set A" for k
  proof (rule rep_frame)
    show "rep B s k" using rA that by blast
    fix j assume "j \<in> set (idxs k)"
    then have "j \<in> set ?iA" using that by auto
    then show "nodes s' j = nodes s j" using sA by (intro frame) blast+
  qed
  have rZ': "rep B s' k" if "k \<in> set Z" for k
  proof (rule rep_frame)
    show "rep B s k" using rZ that by blast
    fix j assume "j \<in> set (idxs k)"
    then have "j \<in> set ?iZ" using that by auto
    then show "nodes s' j = nodes s j" using sZ by (intro frame) blast+
  qed
  have "rep B s' (Node p stp ppp (A @ new @ Z))"
    using par reps rA' rZ' by auto
  then show "sub_ok B s' (Node p stp ppp (A @ new @ Z))"
    using srt' d' av' n0' awf by (simp add: sub_ok_def)
qed

lemma segment_leaves:
  assumes "chain_pres (concat (map leaves old)) (concat (map leaves new))"
    and "concat (map leaves old) \<noteq> []" and "0 \<le> stp"
  shows "chain_pres (leaves (Node p stp ppp (A @ old @ Z))) (leaves (Node p stp ppp (A @ new @ Z)))"
  using chain_pres_mid[OF assms(1,2)] assms(3) by simp

lemma segment_wfb:
  assumes "\<forall>k \<in> set A \<union> set Z. wfb lo hi (Suc lo) hi h k \<and> minok k"
    and "\<forall>k \<in> set new. wfb lo hi (Suc lo) hi h k \<and> minok k"
    and "(stp < 0) = (h = 0)" "a \<le> length (A @ new @ Z)" "length (A @ new @ Z) \<le> b"
  shows "wfb lo hi a b (Suc h) (Node p stp ppp (A @ new @ Z))"
  using assms by auto

text \<open>Two adjacent nodes that share out their children anew.\<close>

lemma share_props:
  fixes K1 :: "('k::linorder, 'v::linorder) atree"
  assumes K1: "K1 = Node i1 st1 pp1 as1" and K2: "K2 = Node i2 st2 pp2 as2"
    and K1': "K1' = Node i1 st1' pp1 bs1" and K2': "K2' = Node i2 st2 (ppair (hd bs2)) bs2"
    and eq: "bs1 @ bs2 = as1 @ as2" and ne: "bs1 \<noteq> []" "bs2 \<noteq> []" "as1 \<noteq> []"
    and hd1: "hd bs1 = hd as1"
    and kind: "(st1' < 0) = (st1 < 0)"
    and w1: "wfb lo hi a1 b1 (Suc h) K1" and w2: "wfb lo hi a2 b2 (Suc h) K2"
    and m1: "minok K1"
    and l1: "Suc lo \<le> length bs1" "length bs1 \<le> hi" and l2: "Suc lo \<le> length bs2" "length bs2 \<le> hi"
  shows "concat (map inorder [K1', K2']) = concat (map inorder [K1, K2])"
    and "set (concat (map idxs [K1', K2'])) = set (concat (map idxs [K1, K2]))"
    and "distinct (concat (map idxs [K1, K2])) \<Longrightarrow> distinct (concat (map idxs [K1', K2']))"
    and "st1' = st1 \<Longrightarrow> concat (map leaves [K1', K2']) = concat (map leaves [K1, K2])"
    and "wfb lo hi (Suc lo) hi (Suc h) K1' \<and> minok K1'"
    and "wfb lo hi (Suc lo) hi (Suc h) K2' \<and> minok K2'"
proof -
  have e1: "concat (map f bs1) @ concat (map f bs2) = concat (map f as1) @ concat (map f as2)" for f :: "('k, 'v) atree \<Rightarrow> 'c list"
    using arg_cong[OF eq, of "\<lambda>xs. concat (map f xs)"] by simp
  show "concat (map inorder [K1', K2']) = concat (map inorder [K1, K2])"
    using e1[of inorder] by (simp add: K1 K2 K1' K2')
  have s2: "set (concat (map idxs bs1)) \<union> set (concat (map idxs bs2))
          = set (concat (map idxs as1)) \<union> set (concat (map idxs as2))"
    using arg_cong[OF e1[of idxs], of set] unfolding set_append .
  have "set (concat (map idxs [K1', K2']))
      = insert i1 (insert i2 (set (concat (map idxs bs1)) \<union> set (concat (map idxs bs2))))"
    unfolding K1' K2' by auto
  also have "\<dots> = insert i1 (insert i2 (set (concat (map idxs as1)) \<union> set (concat (map idxs as2))))"
    unfolding s2 ..
  also have "\<dots> = set (concat (map idxs [K1, K2]))"
    unfolding K1 K2 by auto
  finally show "set (concat (map idxs [K1', K2'])) = set (concat (map idxs [K1, K2]))" .
  have kk: "\<forall>k \<in> set (as1 @ as2). wfb lo hi (Suc lo) hi h k \<and> minok k"
    using w1 w2 by (auto simp: K1 K2)
  then have kk': "\<forall>k \<in> set bs1 \<union> set bs2. wfb lo hi (Suc lo) hi h k \<and> minok k"
    using arg_cong[OF eq, of set] unfolding set_append by simp
  have st: "(st1 < 0) = (h = 0)" "(st2 < 0) = (h = 0)" using w1 w2 by (auto simp: K1 K2)
  have hw: "wfb lo hi (Suc lo) hi h (hd bs1)" "wfb lo hi (Suc lo) hi h (hd bs2)"
    "wfb lo hi (Suc lo) hi h (hd as1)"
    using kk kk' ne by (simp_all add: hd_in_set)
  have ne1: "inorder (hd bs1) \<noteq> []" "inorder (hd bs2) \<noteq> []" "inorder (hd as1) \<noteq> []"
    using hw[THEN wfb_inorder_nonempty] by simp_all
  have hdc: "hd (concat (map inorder xs)) = hd (inorder (hd xs))"
    if "xs \<noteq> []" "inorder (hd xs) \<noteq> []" for xs :: "('k, 'v) atree list"
    using that by (cases xs) auto
  have nec: "concat (map inorder xs) \<noteq> []"
    if "xs \<noteq> []" "inorder (hd xs) \<noteq> []" for xs :: "('k, 'v) atree list"
    using that by (cases xs) auto
  have "pp1 = hd (concat (map inorder as1))"
    using m1 nec[OF ne(3) ne1(3)] by (simp add: K1 minok_hd)
  then have "pp1 = hd (inorder (hd bs1))" using hdc[OF ne(3) ne1(3)] hd1 by simp
  then have mk1: "minok K1'"
    using nec[OF ne(1) ne1(1)] hdc[OF ne(1) ne1(1)] by (simp add: K1' minok_hd)
  have "minok (hd bs2)" using kk' ne by (auto simp: hd_in_set)
  then have "ppair (hd bs2) = hd (inorder (hd bs2))" using ne1 by (simp add: minok_hd)
  then have mk2: "minok K2'"
    using nec[OF ne(2) ne1(2)] hdc[OF ne(2) ne1(2)] by (simp add: K2' minok_hd)
  show "wfb lo hi (Suc lo) hi (Suc h) K1' \<and> minok K1'"
    using kk' st l1 mk1 kind by (simp add: K1')
  show "wfb lo hi (Suc lo) hi (Suc h) K2' \<and> minok K2'"
    using kk' st l2 mk2 by (simp add: K2')
  show "concat (map leaves [K1', K2']) = concat (map leaves [K1, K2])" if "st1' = st1"
    using e1[of leaves] st that by (simp add: K1 K2 K1' K2')
  assume d: "distinct (concat (map idxs [K1, K2]))"
  have "distinct (concat (map idxs as1) @ concat (map idxs as2))" using d by (auto simp: K1 K2)
  then have d2: "distinct (concat (map idxs bs1) @ concat (map idxs bs2))"
    using e1[of idxs] by simp
  have d1: "i1 \<noteq> i2" "i1 \<notin> set (concat (map idxs as1)) \<union> set (concat (map idxs as2))"
    "i2 \<notin> set (concat (map idxs as1)) \<union> set (concat (map idxs as2))"
    using d by (auto simp: K1 K2)
  have d3: "distinct (concat (map idxs bs1))" "distinct (concat (map idxs bs2))"
    "set (concat (map idxs bs1)) \<inter> set (concat (map idxs bs2)) = {}"
    using d2 by simp_all
  have d4: "i1 \<notin> set (concat (map idxs bs1)) \<union> set (concat (map idxs bs2))"
    "i2 \<notin> set (concat (map idxs bs1)) \<union> set (concat (map idxs bs2))"
    using d1 unfolding s2 by blast+
  have "distinct (i1 # concat (map idxs bs1) @ i2 # concat (map idxs bs2))"
    using d1(1) d3 d4 unfolding distinct.simps distinct_append set_append set_simps by blast
  then show "distinct (concat (map idxs [K1', K2']))"
    by (simp add: K1' K2')
qed

lemma share_reps:
  assumes ks: "\<forall>k \<in> set (as1 @ as2). rep B s k"
    and eq: "bs1 @ bs2 = as1 @ as2"
    and fr: "\<And>j. j \<in> set (concat (map idxs (as1 @ as2))) \<Longrightarrow> nodes s' j = nodes s j"
    and n1: "node_rep B s' i1 st1 bs1" and n2: "node_rep B s' i2 st2 bs2"
  shows "rep B s' (Node i1 st1 pp1' bs1)" "rep B s' (Node i2 st2 pp2' bs2)"
proof -
  have k: "rep B s' k" if "k \<in> set (as1 @ as2)" for k
  proof (rule rep_frame)
    show "rep B s k" using ks that by blast
    fix j assume "j \<in> set (idxs k)"
    then have "j \<in> set (concat (map idxs (as1 @ as2)))" using that by auto
    then show "nodes s' j = nodes s j" by (rule fr)
  qed
  have "set bs1 \<union> set bs2 = set (as1 @ as2)"
    using arg_cong[OF eq, of set] unfolding set_append .
  then show "rep B s' (Node i1 st1 pp1' bs1)" "rep B s' (Node i2 st2 pp2' bs2)"
    using k n1 n2 by auto
qed

section \<open>Steps on a subtree\<close>

lemma sub_ok_frame:
  assumes "sub_ok B s t" "\<And>j. j \<in> set (idxs t) \<Longrightarrow> nodes s' j = nodes s j"
    "free_blocks s' = free_blocks s" "next_block s' = next_block s"
  shows "sub_ok B s' t"
  using assms rep_frame[of B s t s'] by (simp add: sub_ok_def avail_def alloc_wf_def)

lemma sub_ok_kid:
  fixes s :: "('k::linorder, 'v::linorder) tree"
  assumes "sub_ok B s (Node p stp ppp ks)" "x < length ks"
  shows "sub_ok B s (ks ! x)"
proof -
  have k: "ks ! x \<in> set ks" using assms(2) by simp
  have sub: "set (idxs (ks ! x)) \<subseteq> set (idxs (Node p stp ppp ks))"
    by (rule idxs_kid_subset[OF k])
  have "sorted_wrt (<) (concat (map inorder ks))" using assms(1) by (simp add: sub_ok_def)
  then have s: "sorted_wrt (<) (inorder (ks ! x))"
    unfolding concat_map_split[OF assms(2), of inorder] by (simp add: sorted_wrt_append)
  have "distinct (concat (map idxs ks))" using assms(1) by (simp add: sub_ok_def)
  then have d: "distinct (idxs (ks ! x))" using assms(2) by (rule distinct_concat_nth)
  have r: "rep B s (ks ! x)" using assms(1) k by (simp add: sub_ok_def)
  have "\<forall>i \<in> set (idxs (Node p stp ppp ks)). 0 \<le> i" "alloc_wf s"
    "set (idxs (Node p stp ppp ks)) \<inter> avail s = {}"
    using assms(1) unfolding sub_ok_def by blast+
  then show ?thesis using sub s d r unfolding sub_ok_def by blast
qed

lemma wfb_tighten:
  "wfb lo hi a b (Suc h) k \<Longrightarrow> a' \<le> length (kids k) \<Longrightarrow> length (kids k) \<le> b'
     \<Longrightarrow> wfb lo hi a' b' (Suc h) k"
  by (cases k) auto

lemma frame_ok_trans:
  assumes "frame_ok s s1 href t t1" "frame_ok s1 s' href t1 t'"
    and "set (idxs t1) \<union> avail s1 \<subseteq> set (idxs t) \<union> avail s"
  shows "frame_ok s s' href t t'"
proof (cases href)
  case RootHead
  show ?thesis unfolding frame_ok_def
  proof (intro allI impI)
    fix j assume j: "j \<notin> set (idxs t) \<and> j \<notin> avail s"
    then have j1: "j \<notin> set (idxs t1) \<and> j \<notin> avail s1" using assms(3) by blast
    have a: "nodes s1 j = nodes s j" using assms(1) j unfolding frame_ok_def RootHead by simp
    have b: "nodes s' j = nodes s1 j" using assms(2) j1 unfolding frame_ok_def RootHead by simp
    show "nodes s' j = (case href of RootHead \<Rightarrow> nodes s j
           | SlotHead p x \<Rightarrow> if j = p then (nodes s p)\<lparr>data := (data (nodes s p))[nat x := entry t']\<rparr>
               else nodes s j)"
      unfolding RootHead using a b by simp
  qed
next
  case (SlotHead q y)
  show ?thesis unfolding frame_ok_def
  proof (intro allI impI)
    fix j assume j: "j \<notin> set (idxs t) \<and> j \<notin> avail s"
    then have j1: "j \<notin> set (idxs t1) \<and> j \<notin> avail s1" using assms(3) by blast
    have a: "nodes s1 j = (if j = q then (nodes s q)\<lparr>data := (data (nodes s q))[nat y := entry t1]\<rparr>
               else nodes s j)"
      using assms(1) j unfolding frame_ok_def SlotHead by simp
    have b: "nodes s' j = (if j = q then (nodes s1 q)\<lparr>data := (data (nodes s1 q))[nat y := entry t']\<rparr>
               else nodes s1 j)"
      using assms(2) j1 unfolding frame_ok_def SlotHead by simp
    show "nodes s' j = (case href of RootHead \<Rightarrow> nodes s j
           | SlotHead p x \<Rightarrow> if j = p then (nodes s p)\<lparr>data := (data (nodes s p))[nat x := entry t']\<rparr>
               else nodes s j)"
      unfolding SlotHead using a b by (cases "j = q") simp_all
  qed
qed

lemma step_ok_trans:
  assumes "step_ok B s href t s1 t1" "step_ok B s1 href t1 s' t'"
  shows "step_ok B s href t s' t'"
proof -
  have sub: "set (idxs t1) \<union> avail s1 \<subseteq> set (idxs t) \<union> avail s"
    and sub': "set (idxs t') \<union> avail s' \<subseteq> set (idxs t1) \<union> avail s1"
    using assms unfolding step_ok_def by blast+
  have f: "frame_ok s s' href t t'"
    using assms frame_ok_trans[OF _ _ sub] unfolding step_ok_def by blast
  have "set (idxs t') \<union> avail s' \<subseteq> set (idxs t) \<union> avail s" using sub sub' by blast
  then show ?thesis using assms f unfolding step_ok_def by simp
qed

lemma step_ok_refl:
  assumes "sub_ok B s t" "href_at s href t"
  shows "step_ok B s href t s t"
  using assms by (auto simp: step_ok_def intro!: frame_ok_same)

lemma href_at_frame:
  assumes "href_at s href t" "\<And>p x. href = SlotHead p x \<Longrightarrow> nodes s' p = nodes s p"
    "avail s' = avail s"
  shows "href_at s' href t"
  using assms by (cases href) (simp_all add: href_at_def)

section \<open>Two adjacent children sharing out their entries\<close>

lemma share_step:
  fixes s :: "('k::linorder, 'v::linorder) tree"
  assumes ok: "sub_ok B s P" and P: "P = Node p stp ppp ks" and y: "Suc y < length ks"
    and stp: "0 \<le> stp" and hr: "href_at s href P"
    and K1: "ks ! y = Node i1 st1 pp1 as1" and K2: "ks ! Suc y = Node i2 st2 pp2 as2"
    and eq: "bs1 @ bs2 = as1 @ as2" and hd1: "hd bs1 = hd as1" and ne: "as1 \<noteq> []"
    and w1: "wfb lo hi a1 b1 (Suc h) (ks ! y)" and w2: "wfb lo hi a2 b2 (Suc h) (ks ! Suc y)"
    and m1: "minok (ks ! y)"
    and l1: "Suc lo \<le> length bs1" "length bs1 \<le> hi"
    and l2: "Suc lo \<le> length bs2" "length bs2 \<le> hi"
    and P': "P' = Node p stp ppp (ks[y := Node i1 st1 pp1 bs1,
                     Suc y := Node i2 st2 (ppair (hd bs2)) bs2])"
    and N: "node_rep B s' p stp (ks[y := Node i1 st1 pp1 bs1,
                     Suc y := Node i2 st2 (ppair (hd bs2)) bs2])"
       "node_rep B s' i1 st1 bs1" "node_rep B s' i2 st2 bs2"
    and fr: "\<And>j. j \<noteq> p \<Longrightarrow> j \<noteq> i1 \<Longrightarrow> j \<noteq> i2 \<Longrightarrow> nodes s' j = nodes s j"
    and al: "free_blocks s' = free_blocks s" "next_block s' = next_block s"
  shows "step_ok B s href P s' P'" "inorder P' = inorder P" "chain_pres (leaves P) (leaves P')"
    "wfb lo hi (Suc lo) hi (Suc h) (kids P' ! y) \<and> minok (kids P' ! y)"
    "wfb lo hi (Suc lo) hi (Suc h) (kids P' ! Suc y) \<and> minok (kids P' ! Suc y)"
    "length (kids P') = length ks"
    "\<And>j. j \<noteq> y \<Longrightarrow> j \<noteq> Suc y \<Longrightarrow> kids P' ! j = ks ! j"
proof -
  define K1' where "K1' = Node i1 st1 pp1 bs1"
  define K2' where "K2' = Node i2 st2 (ppair (hd bs2)) bs2"
  define A where "A = take y ks"
  define Z where "Z = drop (Suc (Suc y)) ks"
  define old where "old = [ks ! y, ks ! Suc y]"
  define new where "new = [K1', K2']"
  have ks: "ks = A @ old @ Z" unfolding A_def Z_def old_def by (rule pair_split[OF y])
  have ks': "ks[y := K1', Suc y := K2'] = A @ new @ Z"
    unfolding A_def Z_def new_def by (rule pair_update[OF y])
  have Pn: "P' = Node p stp ppp (A @ new @ Z)" unfolding P' ks'[symmetric] K1'_def K2'_def ..
  have Po: "P = Node p stp ppp (A @ old @ Z)" unfolding P using ks by simp
  have bne: "bs1 \<noteq> []" "bs2 \<noteq> []" using l1 l2 by auto
  have kind: "(st1 < 0) = (st1 < 0)" by simp
  note sp = share_props[OF K1 K2 K1'_def K2'_def eq bne ne hd1 kind w1 w2 m1 l1 l2]
  have spl: "concat (map leaves new) = concat (map leaves old)"
    unfolding new_def old_def by (rule sp(4)) simp
  have oks: "sub_ok B s (Node p stp ppp (A @ old @ Z))" using ok unfolding Po .
  have srt: "sorted_wrt (<) (concat (map inorder (A @ old @ Z)))"
    and dP: "distinct (p # concat (map idxs (A @ old @ Z)))"
    and avP: "set (p # concat (map idxs (A @ old @ Z))) \<inter> avail s = {}"
    and nnP: "\<forall>i \<in> set (p # concat (map idxs (A @ old @ Z))). 0 \<le> i"
    and awf: "alloc_wf s" and rP: "rep B s (Node p stp ppp (A @ old @ Z))"
    using oks unfolding sub_ok_def by simp_all
  have ino: "concat (map inorder new) = concat (map inorder old)"
    unfolding new_def old_def by (rule sp(1))
  have ids: "set (concat (map idxs new)) = set (concat (map idxs old))"
    unfolding new_def old_def by (rule sp(2))
  have dold: "distinct (concat (map idxs old))" using dP by simp
  have dnew: "distinct (concat (map idxs new))"
    using dold unfolding new_def old_def by (rule sp(3))
  have av: "avail s' = avail s" using al by (simp add: avail_def)
  have awf': "alloc_wf s'" using al awf by (simp add: alloc_wf_def)
  have io: "idxs (ks ! y) = i1 # concat (map idxs as1)" "idxs (ks ! Suc y) = i2 # concat (map idxs as2)"
    by (simp_all add: K1 K2)
  have cold: "concat (map idxs old) = i1 # concat (map idxs as1) @ i2 # concat (map idxs as2)"
    by (simp add: old_def io)
  have pin: "p \<notin> set (concat (map idxs old))" using dP by auto
  have frk: "nodes s' j = nodes s j" if "j \<in> set (concat (map idxs (as1 @ as2)))" for j
  proof (rule fr)
    have a: "j \<in> set (concat (map idxs as1)) \<union> set (concat (map idxs as2))" using that by simp
    show "j \<noteq> p" using a pin unfolding cold by auto
    show "j \<noteq> i1" using a dold unfolding cold by auto
    show "j \<noteq> i2" using a dold unfolding cold by auto
  qed
  have rold: "\<forall>k \<in> set (as1 @ as2). rep B s k"
  proof -
    have "rep B s (ks ! y)" "rep B s (ks ! Suc y)" using rP by (simp_all add: old_def)
    then show ?thesis by (auto simp: K1 K2)
  qed
  note sr = share_reps[OF rold eq frk N(2) N(3)]
  have reps: "\<forall>k \<in> set new. rep B s' k" using sr by (simp add: new_def K1'_def K2'_def)
  have par: "node_rep B s' p stp (A @ new @ Z)"
    using N(1) unfolding ks'[symmetric] K1'_def K2'_def .
  have i12: "i1 \<in> set (concat (map idxs old))" "i2 \<in> set (concat (map idxs old))"
    unfolding cold by simp_all
  have g1: "sorted_wrt (<) (concat (map inorder (A @ new @ Z)))" using srt ino by simp
  have g2: "set (concat (map idxs new)) \<union> avail s' \<subseteq> set (concat (map idxs old)) \<union> avail s"
    unfolding ids av by simp
  have g3: "set (concat (map idxs new)) \<inter> avail s' = {}" unfolding ids av using avP by auto
  have g4: "\<forall>i\<in>set (concat (map idxs new)). 0 \<le> i" unfolding ids using nnP by auto
  have g5: "nodes s' j = nodes s j"
    if "j \<noteq> p" "j \<notin> set (concat (map idxs old))" "j \<notin> avail s" for j
  proof (rule fr[OF that(1)])
    show "j \<noteq> i1" using that(2) i12 by blast
    show "j \<noteq> i2" using that(2) i12 by blast
  qed
  note seg = segment_replace[OF oks g1 g2 dnew g3 g4 awf' reps par g5]
  have sok: "sub_ok B s' (Node p stp ppp (A @ new @ Z))" by (rule seg(1))
  have ssub: "set (idxs (Node p stp ppp (A @ new @ Z))) \<union> avail s'
           \<subseteq> set (idxs (Node p stp ppp (A @ old @ Z))) \<union> avail s" by (rule seg(2))
  have len: "length (A @ new @ Z) = length (A @ old @ Z)" by (simp add: new_def old_def)
  have fo: "frame_ok s s' href P P'"
  proof (rule frame_ok_same[OF hr])
    show "entry P' = entry P" unfolding Pn Po using len by simp
    fix j assume "j \<notin> set (idxs P)" "j \<notin> avail s"
    then have "j \<noteq> p" "j \<notin> set (concat (map idxs old))" unfolding Po by auto
    then show "nodes s' j = nodes s j" using \<open>j \<notin> avail s\<close> by (rule g5)
  qed
  show "step_ok B s href P s' P'"
    unfolding step_ok_def using sok ssub fo unfolding Pn Po by simp
  show "inorder P' = inorder P" unfolding Pn Po using ino by simp
  have "1 \<le> length (kids (ks ! y))" "length (kids (ks ! y)) \<le> length (kids (ks ! y))"
    using ne by (simp_all add: K1 Suc_le_eq)
  then have w1': "wfb lo hi 1 (length (kids (ks ! y))) (Suc h) (ks ! y)"
    by (rule wfb_tighten[OF w1])
  have lne: "concat (map leaves old) \<noteq> []"
    using wfb_leaves_nonempty[OF w1'] by (simp add: old_def)
  have "chain_pres (concat (map leaves old)) (concat (map leaves new))"
    unfolding spl by (rule chain_pres_refl[OF lne])
  then show "chain_pres (leaves P) (leaves P')"
    unfolding Pn Po using lne stp by (rule segment_leaves)
  have kp: "kids P' = ks[y := K1', Suc y := K2']" unfolding Pn ks' by simp
  show "wfb lo hi (Suc lo) hi (Suc h) (kids P' ! y) \<and> minok (kids P' ! y)"
    using sp(5) y by (simp add: kp)
  show "wfb lo hi (Suc lo) hi (Suc h) (kids P' ! Suc y) \<and> minok (kids P' ! Suc y)"
    using sp(6) y by (simp add: kp)
  show "length (kids P') = length ks" by (simp add: kp)
  show "\<And>j. j \<noteq> y \<Longrightarrow> j \<noteq> Suc y \<Longrightarrow> kids P' ! j = ks ! j" by (simp add: kp)
qed

section \<open>Restoring the bound after an insertion below\<close>

lemma insert_amortize_none:
  assumes "\<not> (x \<noteq> count (nodes s p) - 1 \<and> count (node_head s p (x + 1)) < AMORT_SIZE B)"
    and "\<not> (x \<noteq> 0 \<and> count (node_head s p (x - 1)) < AMORT_SIZE B)"
  shows "insert_amortize B s p x = (s, False)"
  using assms unfolding insert_amortize_def by (auto simp: Let_def)

lemma insert_amortize_left_pair:
  assumes "x \<noteq> 0" "count (node_head s p (x - 1)) < AMORT_SIZE B"
    and "x \<noteq> count (nodes s p) - 1 \<and> count (node_head s p (x + 1)) < AMORT_SIZE B
         \<longrightarrow> \<not> count (node_head s p (x - 1)) > count (node_head s p (x + 1))"
    and cp: "cache_pointer s = get_pointer (node_head s p x)"
  shows "insert_amortize B s p x = (amortize_pair True s p (x - 1), True)"
  unfolding insert_amortize_left[OF assms(1-3)] amortize_pair_def cp Let_def by simp

lemma insert_amortize_right_pair:
  assumes "x \<noteq> count (nodes s p) - 1" "count (node_head s p (x + 1)) < AMORT_SIZE B"
    and "x \<noteq> 0 \<and> count (node_head s p (x - 1)) < AMORT_SIZE B
         \<longrightarrow> count (node_head s p (x - 1)) > count (node_head s p (x + 1))"
    and cp: "cache_pointer s = get_pointer (node_head s p x)"
  shows "insert_amortize B s p x = (amortize_pair False s p x, True)"
  unfolding insert_amortize_right[OF assms(1-3)] amortize_pair_def cp Let_def by simp

lemma step_ok_pre_cong:
  assumes "nodes s0 = nodes s" "avail s0 = avail s"
  shows "step_ok B s0 href t s' t' = step_ok B s href t s' t'"
  using assms by (cases href) (simp_all add: step_ok_def frame_ok_def)

lemma amortize_next_step:
  fixes s :: "('k::linorder, 'v::linorder) tree"
  assumes ok: "sub_ok B s P" and P: "P = Node p stp ppp ks" and y: "Suc y < length ks"
    and stp: "0 \<le> stp" and hr: "href_at s href P"
    and K1: "ks ! y = Node i1 st1 pp1 as1" and K2: "ks ! Suc y = Node i2 st2 pp2 as2"
    and w1: "wfb lo hi a1 b1 (Suc h) (ks ! y)" and w2: "wfb lo hi a2 b2 (Suc h) (ks ! Suc y)"
    and m1: "minok (ks ! y)" and ne: "as1 \<noteq> []"
    and le: "length as1 \<le> length as2" and d: "d = (length as2 - length as1) div 2"
    and l1: "Suc lo \<le> length as1 + d" "length as1 + d \<le> hi"
    and l2: "Suc lo \<le> length as2 - d" "length as2 - d \<le> hi"
    and hi: "hi \<le> nat B"
    and s': "s' = amortize_pair True s p (int y)"
  shows "\<exists>P'. step_ok B s href P s' P' \<and> inorder P' = inorder P
           \<and> chain_pres (leaves P) (leaves P') \<and> length (kids P') = length ks
           \<and> (wfb lo hi (Suc lo) hi (Suc h) (kids P' ! y) \<and> minok (kids P' ! y))
           \<and> (wfb lo hi (Suc lo) hi (Suc h) (kids P' ! Suc y) \<and> minok (kids P' ! Suc y))
           \<and> (\<forall>j. j \<noteq> y \<longrightarrow> j \<noteq> Suc y \<longrightarrow> kids P' ! j = ks ! j)
           \<and> cache_pointer s' = cache_pointer s"
proof -
  have oks: "sub_ok B s (Node p stp ppp ks)" using ok unfolding P .
  have R: "node_rep B s p stp ks" and rk: "\<forall>k \<in> set ks. rep B s k"
    and dP: "distinct (p # concat (map idxs ks))"
    and nnP: "\<forall>i \<in> set (p # concat (map idxs ks)). 0 \<le> i"
    using oks unfolding sub_ok_def by simp_all
  have y': "y < length ks" using y by simp
  have k1: "ks ! y \<in> set ks" and k2: "ks ! Suc y \<in> set ks" using y by simp_all
  have R1: "node_rep B s i1 st1 as1" using rk k1 by (auto simp: K1)
  have R2: "node_rep B s i2 st2 as2" using rk k2 by (auto simp: K2)
  have s1: "set (idxs (ks ! y)) \<subseteq> set (concat (map idxs ks))"
    and s2: "set (idxs (ks ! Suc y)) \<subseteq> set (concat (map idxs ks))"
    using k1 k2 by auto
  have i1: "i1 \<in> set (concat (map idxs ks))" using s1 by (simp add: K1)
  have i2: "i2 \<in> set (concat (map idxs ks))" using s2 by (simp add: K2)
  have "set (idxs (ks ! y)) \<inter> set (idxs (ks ! Suc y)) = {}"
    using dP y by (intro distinct_concat_disjoint) simp_all
  then have ne12: "i1 \<noteq> i2" by (auto simp: K1 K2)
  have nep: "p \<noteq> i1" "p \<noteq> i2" using dP i1 i2 by auto
  have nn: "0 \<le> i1" "0 \<le> i2" using nnP i1 i2 by auto
  have room: "length as1 + d \<le> nat (B + 1)" using l1 hi by linarith
  have d2: "d < length as2" using l2 by linarith
  note a = amortize_pair_next_rep[OF R y K1 K2 R1 R2 ne12 nep nn le d room d2, folded s']
  define bs1 where "bs1 = as1 @ take d as2"
  define bs2 where "bs2 = drop d as2"
  have hd2: "ppair (as2 ! d) = ppair (hd bs2)" using d2 by (simp add: bs2_def hd_drop_conv_nth)
  define P' where "P' = Node p stp ppp (ks[y := Node i1 st1 pp1 bs1,
                     Suc y := Node i2 st2 (ppair (hd bs2)) bs2])"
  have eq: "bs1 @ bs2 = as1 @ as2" by (simp add: bs1_def bs2_def)
  have hd1: "hd bs1 = hd as1" using ne by (simp add: bs1_def)
  have lb1: "length bs1 = length as1 + d" using d2 by (simp add: bs1_def)
  have lb2: "length bs2 = length as2 - d" by (simp add: bs2_def)
  note st = share_step[OF ok P y stp hr K1 K2 eq hd1 ne w1 w2 m1
      l1[folded lb1] l2[folded lb2] P'_def
      a(1)[unfolded hd2, folded bs1_def bs2_def] a(2)[folded bs1_def] a(3)[folded bs2_def]
      a(4) a(5) a(6)]
  show ?thesis using st a(7) by blast
qed

lemma amortize_prev_step:
  fixes s :: "('k::linorder, 'v::linorder) tree"
  assumes ok: "sub_ok B s P" and P: "P = Node p stp ppp ks" and y: "Suc y < length ks"
    and stp: "0 \<le> stp" and hr: "href_at s href P"
    and K1: "ks ! y = Node i1 st1 pp1 as1" and K2: "ks ! Suc y = Node i2 st2 pp2 as2"
    and w1: "wfb lo hi a1 b1 (Suc h) (ks ! y)" and w2: "wfb lo hi a2 b2 (Suc h) (ks ! Suc y)"
    and m1: "minok (ks ! y)"
    and le: "length as2 \<le> length as1" and d: "d = (length as1 - length as2) div 2"
    and l1: "Suc lo \<le> length as1 - d" "length as1 - d \<le> hi"
    and l2: "Suc lo \<le> length as2 + d" "length as2 + d \<le> hi"
    and hi: "hi \<le> nat B"
    and s': "s' = amortize_pair False s p (int y)"
  shows "\<exists>P'. step_ok B s href P s' P' \<and> inorder P' = inorder P
           \<and> chain_pres (leaves P) (leaves P') \<and> length (kids P') = length ks
           \<and> (wfb lo hi (Suc lo) hi (Suc h) (kids P' ! y) \<and> minok (kids P' ! y))
           \<and> (wfb lo hi (Suc lo) hi (Suc h) (kids P' ! Suc y) \<and> minok (kids P' ! Suc y))
           \<and> (\<forall>j. j \<noteq> y \<longrightarrow> j \<noteq> Suc y \<longrightarrow> kids P' ! j = ks ! j)
           \<and> cache_pointer s' = cache_pointer s"
proof -
  have oks: "sub_ok B s (Node p stp ppp ks)" using ok unfolding P .
  have R: "node_rep B s p stp ks" and rk: "\<forall>k \<in> set ks. rep B s k"
    and dP: "distinct (p # concat (map idxs ks))"
    and nnP: "\<forall>i \<in> set (p # concat (map idxs ks)). 0 \<le> i"
    using oks unfolding sub_ok_def by simp_all
  have y': "y < length ks" using y by simp
  have k1: "ks ! y \<in> set ks" and k2: "ks ! Suc y \<in> set ks" using y by simp_all
  have R1: "node_rep B s i1 st1 as1" using rk k1 by (auto simp: K1)
  have R2: "node_rep B s i2 st2 as2" using rk k2 by (auto simp: K2)
  have s1: "set (idxs (ks ! y)) \<subseteq> set (concat (map idxs ks))"
    and s2: "set (idxs (ks ! Suc y)) \<subseteq> set (concat (map idxs ks))"
    using k1 k2 by auto
  have i1: "i1 \<in> set (concat (map idxs ks))" using s1 by (simp add: K1)
  have i2: "i2 \<in> set (concat (map idxs ks))" using s2 by (simp add: K2)
  have "set (idxs (ks ! y)) \<inter> set (idxs (ks ! Suc y)) = {}"
    using dP y by (intro distinct_concat_disjoint) simp_all
  then have ne12: "i1 \<noteq> i2" by (auto simp: K1 K2)
  have nep: "p \<noteq> i1" "p \<noteq> i2" using dP i1 i2 by auto
  have nn: "0 \<le> i1" "0 \<le> i2" using nnP i1 i2 by auto
  have room: "length as2 + d \<le> nat (B + 1)" using l2 hi by linarith
  have ne: "as1 \<noteq> []" using l1 by auto
  have d1: "1 \<le> d \<or> as2 \<noteq> []" using l2 by (cases as2) auto
  note a = amortize_pair_prev_rep[OF R y K1 K2 R1 R2 ne12 nep nn le d room d1, folded s']
  define bs1 where "bs1 = take (length as1 - d) as1"
  define bs2 where "bs2 = drop (length as1 - d) as1 @ as2"
  define P' where "P' = Node p stp ppp (ks[y := Node i1 st1 pp1 bs1,
                     Suc y := Node i2 st2 (ppair (hd bs2)) bs2])"
  have eq: "bs1 @ bs2 = as1 @ as2" by (simp add: bs1_def bs2_def)
  have hd1: "hd bs1 = hd as1" using l1 ne by (simp add: bs1_def)
  have dle: "d \<le> length as1" using d by simp
  have lb1: "length bs1 = length as1 - d" by (simp add: bs1_def)
  have lb2: "length bs2 = length as2 + d" using dle by (simp add: bs2_def)
  note st = share_step[OF ok P y stp hr K1 K2 eq hd1 ne w1 w2 m1
      l1[folded lb1] l2[folded lb2] P'_def
      a(1)[folded bs1_def bs2_def] a(2)[folded bs1_def] a(3)[folded bs2_def]
      a(4) a(5) a(6)]
  show ?thesis using st a(7) by blast
qed

lemma split_step:
  fixes s :: "('k::linorder, 'v::linorder) tree"
  assumes ok: "sub_ok B s P" and P: "P = Node p stp ppp ks" and x: "x < length ks"
    and stp: "0 \<le> stp" and hr: "href_at s href P"
    and C: "ks ! x = Node c stc ppc ksc"
    and wC: "wfb lo hi aC bC (Suc h) (ks ! x)" and mC: "minok (ks ! x)"
    and cp: "cache_pointer s = c"
    and room: "length ks < nat (B + 1)"
    and m: "m = length ksc div 2"
    and l1: "Suc lo \<le> length ksc - m" "length ksc - m \<le> hi"
    and l2: "Suc lo \<le> m" "m \<le> hi"
    and s2: "s2 = set_count p (count (nodes (split_node B z s p (int x)) p) + 1)
                    (split_node B z s p (int x))"
    and s': "s' = (write_head_count href (count (nodes s2 p)) s2)\<lparr>cache_pointer := p\<rparr>"
  shows "\<exists>P' C1 C2. step_ok B s href P s' P' \<and> inorder P' = inorder P
           \<and> chain_pres (leaves P) (leaves P')
           \<and> kids P' = take x ks @ [C1, C2] @ drop (Suc x) ks
           \<and> (wfb lo hi (Suc lo) hi (Suc h) C1 \<and> minok C1)
           \<and> (wfb lo hi (Suc lo) hi (Suc h) C2 \<and> minok C2)
           \<and> length (kids C1) = length ksc - m \<and> length (kids C2) = m
           \<and> cache_pointer s' = p"
proof -
  obtain n s1 where al: "allocate B z s = (n, s1)" by (cases "allocate B z s") auto
  define A where "A = take x ks"
  define Z where "Z = drop (Suc x) ks"
  define old where "old = [ks ! x]"
  have ks: "ks = A @ old @ Z" unfolding A_def Z_def old_def by (rule single_split[OF x])
  have Po: "P = Node p stp ppp (A @ old @ Z)" unfolding P using ks by simp
  have oks: "sub_ok B s (Node p stp ppp (A @ old @ Z))" using ok unfolding Po .
  have okP: "sub_ok B s (Node p stp ppp ks)" using ok unfolding P .
  have R: "node_rep B s p stp ks" and rk: "\<forall>k \<in> set ks. rep B s k"
    and dP: "distinct (p # concat (map idxs ks))"
    and nnP: "\<forall>i \<in> set (p # concat (map idxs ks)). 0 \<le> i"
    and avP: "set (p # concat (map idxs ks)) \<inter> avail s = {}"
    and awf: "alloc_wf s"
    and srt: "sorted_wrt (<) (concat (map inorder ks))"
    using okP unfolding sub_ok_def by simp_all
  have kx: "ks ! x \<in> set ks" using x by simp
  have RC: "node_rep B s c stc ksc" and rold: "\<forall>k \<in> set (ksc @ []). rep B s k"
    using rk kx by (auto simp: C)
  have sC: "set (idxs (ks ! x)) \<subseteq> set (concat (map idxs ks))" using kx by auto
  have cin: "c \<in> set (concat (map idxs ks))" using sC by (simp add: C)
  have dC: "distinct (idxs (ks ! x))" using dP x distinct_concat_nth[of idxs ks x] by simp
  note ap = allocate_props[OF awf al]
  have ne: "n \<noteq> c" "n \<noteq> p" "p \<noteq> c" using ap(1) avP cin dP by auto
  have n0: "0 \<le> n" using ap(2) by simp
  have mlen: "m < length ksc" "1 \<le> m" using l1 l2 by linarith+
  note sn = split_node_rep[OF al R x C RC ne cp n0 room m mlen(2), folded s2]
  define st1 where "st1 = (if 0 \<le> stc then n else NOT n)"
  define bs1 where "bs1 = take (length ksc - m) ksc"
  define bs2 where "bs2 = drop (length ksc - m) ksc"
  define C1 where "C1 = Node c st1 ppc bs1"
  define C2 where "C2 = Node n stc (ppair (hd bs2)) bs2"
  define K2 where "K2 = Node n stc ppc ([] :: ('k, 'v) atree list)"
  define new where "new = [C1, C2]"
  have hd2: "ppair (ksc ! (length ksc - m)) = ppair (hd bs2)"
    using mlen by (simp add: bs2_def hd_drop_conv_nth)
  have eq: "bs1 @ bs2 = ksc @ []" by (simp add: bs1_def bs2_def)
  have lb1: "length bs1 = length ksc - m" by (simp add: bs1_def)
  have lb2: "length bs2 = m" using mlen by (simp add: bs2_def)
  have bne: "bs1 \<noteq> []" "bs2 \<noteq> []" "ksc \<noteq> []" using lb1 lb2 l1 l2 mlen by auto
  have hd1: "hd bs1 = hd ksc" using bne(1) by (simp add: bs1_def)
  have kind: "(st1 < 0) = (stc < 0)" using n0 by (simp add: st1_def not_int_def)
  have sth: "(stc < 0) = (h = 0)" using wC by (simp add: C)
  have w2: "wfb lo hi 0 0 (Suc h) K2" using sth by (simp add: K2_def)
  note sp = share_props[OF C K2_def C1_def C2_def eq bne hd1 kind wC w2 mC
      l1[folded lb1] l2[folded lb2]]
  have ino: "concat (map inorder new) = concat (map inorder old)"
    using sp(1) by (simp add: new_def old_def K2_def)
  have ids: "set (concat (map idxs new)) = insert n (set (concat (map idxs old)))"
    using sp(2) by (simp add: new_def old_def K2_def)
  have nold: "n \<notin> set (concat (map idxs old))" using ap(1) avP sC by (auto simp: old_def)
  have "distinct (concat (map idxs [ks ! x, K2]))" using dC nold by (simp add: K2_def old_def)
  then have dnew: "distinct (concat (map idxs new))" unfolding new_def by (rule sp(3))
  have av2: "avail s2 = avail s - {n}" using sn(5,6) ap(3) by (simp add: avail_def)
  have awf2: "alloc_wf s2" using sn(5,6) ap(4) by (simp add: alloc_wf_def)
  have oldsub: "set (concat (map idxs old)) \<subseteq> set (concat (map idxs ks))"
    using sC by (simp add: old_def)
  have g1: "sorted_wrt (<) (concat (map inorder (A @ new @ Z)))"
    using srt ino unfolding ks by simp
  have g2: "set (concat (map idxs new)) \<union> avail s2 \<subseteq> set (concat (map idxs old)) \<union> avail s"
    unfolding ids av2 using ap(1) by auto
  have g3: "set (concat (map idxs new)) \<inter> avail s2 = {}"
    unfolding ids av2 using avP oldsub by auto
  have g4: "\<forall>i\<in>set (concat (map idxs new)). 0 \<le> i"
    unfolding ids using nnP n0 oldsub by auto
  have g5: "nodes s2 j = nodes s j"
    if "j \<noteq> p" "j \<notin> set (concat (map idxs old))" "j \<notin> avail s" for j
  proof (rule sn(4)[OF that(1)])
    show "j \<noteq> c" using that(2) by (auto simp: old_def C)
    show "j \<noteq> n" using that(3) ap(1) by auto
  qed
  have frk: "nodes s2 j = nodes s j" if "j \<in> set (concat (map idxs (ksc @ [])))" for j
  proof (rule sn(4))
    have a: "j \<in> set (concat (map idxs ksc))" using that by simp
    then have b: "j \<in> set (concat (map idxs ks))" using sC by (auto simp: C)
    show "j \<noteq> p" using b dP by auto
    show "j \<noteq> c" using a dC by (auto simp: C)
    show "j \<noteq> n" using b ap(1) avP by auto
  qed
  note sr = share_reps[OF rold eq frk sn(2)[folded st1_def bs1_def] sn(3)[folded bs2_def]]
  have reps: "\<forall>k \<in> set new. rep B s2 k" using sr by (simp add: new_def C1_def C2_def)
  have par: "node_rep B s2 p stp (A @ new @ Z)"
    using sn(1) unfolding hd2 A_def Z_def new_def C1_def C2_def st1_def bs1_def bs2_def .
  note seg = segment_replace[OF oks g1 g2 dnew g3 g4 awf2 reps par g5]
  define P' where "P' = Node p stp ppp (A @ new @ Z)"
  have cnt: "count (nodes s2 p) = int (length (A @ new @ Z))" using par by (simp add: node_rep_def)
  have par': "nodes s2 q = nodes s q" if "href = SlotHead q y" for q y
  proof -
    have "q \<notin> set (idxs P)" "q \<notin> avail s" using hr that by (simp_all add: href_at_def)
    then show ?thesis using oldsub unfolding P by (intro g5) auto
  qed
  have kindp: "(stp < 0) = (stp < 0)" by simp
  have n3: "nodes (write_head_count href (int (length (A @ new @ Z))) s2) =
     (case href of RootHead \<Rightarrow> nodes s2
      | SlotHead q y \<Rightarrow> (nodes s2)(q := (nodes s q)\<lparr>data := (data (nodes s q))[nat y := entry P']\<rparr>))"
    unfolding P'_def by (rule write_head_count_nodes[OF hr[unfolded P] kindp cnt par'])
  have ns': "nodes s' = (case href of RootHead \<Rightarrow> nodes s2
      | SlotHead q y \<Rightarrow> (nodes s2)(q := (nodes s q)\<lparr>data := (data (nodes s q))[nat y := entry P']\<rparr>))"
    unfolding s' cnt using n3 by simp
  have fb: "free_blocks s' = free_blocks s2" "next_block s' = next_block s2"
    unfolding s' by simp_all
  have av': "avail s' = avail s2" using fb by (simp add: avail_def)
  have sok: "sub_ok B s' P'"
  proof (rule sub_ok_frame[OF seg(1)[folded P'_def] _ fb])
    fix j assume j: "j \<in> set (idxs P')"
    show "nodes s' j = nodes s2 j"
    proof (cases href)
      case RootHead
      then show ?thesis by (simp add: ns')
    next
      case (SlotHead q y)
      have "q \<notin> set (idxs P)" "q \<notin> avail s" using hr SlotHead by (simp_all add: href_at_def)
      then have "q \<notin> set (idxs P')" using seg(2) unfolding P'_def Po by blast
      then have "j \<noteq> q" using j by blast
      then show ?thesis by (simp add: ns' SlotHead)
    qed
  qed
  have fo: "frame_ok s s' href P P'"
  proof (rule frame_ok_written[OF ns'])
    fix j assume "j \<notin> set (idxs P)" "j \<notin> avail s"
    then show "nodes s2 j = nodes s j" using oldsub unfolding P by (intro g5) auto
  qed
  have st: "step_ok B s href P s' P'"
    unfolding step_ok_def using sok fo seg(2) unfolding av' P'_def Po by simp
  have i: "inorder P' = inorder P" unfolding P'_def Po using ino by simp
  have lne: "concat (map leaves old) \<noteq> []"
  proof -
    have "1 \<le> length (kids (ks ! x))" "length (kids (ks ! x)) \<le> length (kids (ks ! x))"
      using bne(3) by (simp_all add: C Suc_le_eq)
    then have "wfb lo hi 1 (length (kids (ks ! x))) (Suc h) (ks ! x)"
      by (rule wfb_tighten[OF wC])
    from wfb_leaves_nonempty[OF this] show ?thesis by (simp add: old_def)
  qed
  have cpl: "chain_pres (concat (map leaves old)) (concat (map leaves new))"
  proof (cases "stc < 0")
    case True
    then have "st1 = NOT n" using kind by (simp add: st1_def)
    then show ?thesis using True n0
      by (simp add: old_def new_def C C1_def C2_def chain_pres_def)
  next
    case False
    then have "\<not> st1 < 0" using kind by simp
    then have "concat (map leaves new) = concat (map leaves old)"
      using False arg_cong[OF eq, of "\<lambda>xs. concat (map leaves xs)"]
      by (simp add: old_def new_def C C1_def C2_def)
    then show ?thesis using chain_pres_refl[OF lne] by simp
  qed
  have ch: "chain_pres (leaves P) (leaves P')"
    unfolding P'_def Po using cpl lne stp by (rule segment_leaves)
  have kd: "kids P' = take x ks @ [C1, C2] @ drop (Suc x) ks"
    by (simp add: P'_def A_def Z_def new_def)
  have "cache_pointer s' = p" unfolding s' by simp
  moreover have "length (kids C1) = length ksc - m" "length (kids C2) = m"
    using lb1 lb2 by (simp_all add: C1_def C2_def)
  ultimately show ?thesis using st i ch kd sp(5) sp(6) by blast
qed

lemma insert_fixup_small:
  "count (nodes s (cache_pointer s)) \<le> B \<Longrightarrow> insert_fixup B z s href p x = (modify p s, False)"
  by (simp add: insert_fixup_def Let_def)

lemma insert_fixup_amort:
  "\<not> count (nodes s (cache_pointer s)) \<le> B \<Longrightarrow> insert_amortize B (modify p s) p x = (sa, True)
     \<Longrightarrow> insert_fixup B z s href p x = (sa, False)"
  by (simp add: insert_fixup_def Let_def)

lemma insert_fixup_split:
  "\<not> count (nodes s (cache_pointer s)) \<le> B \<Longrightarrow> insert_amortize B (modify p s) p x = (sa, False)
     \<Longrightarrow> s2 = set_count p (count (nodes (split_node B z sa p x) p) + 1) (split_node B z sa p x)
     \<Longrightarrow> insert_fixup B z s href p x
           = ((write_head_count href (count (nodes s2 p)) s2)\<lparr>cache_pointer := p\<rparr>, True)"
  by (simp add: insert_fixup_def Let_def)

lemma wfb_leaf_lo: "wfb lo hi a b (Suc 0) t \<Longrightarrow> wfb lo' hi a b (Suc 0) t"
  by (cases t) auto

lemma others_all:
  assumes "\<forall>j < length ks. j \<noteq> x \<longrightarrow> Q (ks ! j)"
  shows "\<forall>k \<in> set (take x ks) \<union> set (drop (Suc x) ks). Q k"
proof
  fix k assume "k \<in> set (take x ks) \<union> set (drop (Suc x) ks)"
  then show "Q k"
  proof
    assume "k \<in> set (take x ks)"
    then obtain j where "j < length (take x ks)" "take x ks ! j = k"
      by (auto simp: in_set_conv_nth)
    then show ?thesis using assms by auto
  next
    assume "k \<in> set (drop (Suc x) ks)"
    then obtain j where "j < length (drop (Suc x) ks)" "drop (Suc x) ks ! j = k"
      by (auto simp: in_set_conv_nth)
    then show ?thesis using assms by auto
  qed
qed

lemma kids_all_nth:
  assumes "length ks' = length ks" "Q (ks' ! y)" "Q (ks' ! Suc y)"
    "\<forall>j. j \<noteq> y \<longrightarrow> j \<noteq> Suc y \<longrightarrow> ks' ! j = ks ! j"
    "\<forall>j < length ks. j \<noteq> y \<and> j \<noteq> Suc y \<longrightarrow> Q (ks ! j)"
  shows "\<forall>k \<in> set ks'. Q k"
proof
  fix k assume "k \<in> set ks'"
  then obtain j where j: "j < length ks'" "ks' ! j = k" by (auto simp: in_set_conv_nth)
  show "Q k"
  proof (cases "j = y \<or> j = Suc y")
    case True
    then show ?thesis using assms(2,3) j by auto
  next
    case False
    then have "ks' ! j = ks ! j" "Q (ks ! j)" using assms(1,4,5) j by auto
    then show ?thesis using j by simp
  qed
qed

lemma step_node:
  assumes "step_ok B s href (Node p stp ppp ks) s' P'" "kids P' \<noteq> []" "0 \<le> stp"
  obtains pp' ks' st' where "P' = Node p st' pp' ks'" "0 \<le> st'"
proof (cases P')
  case (Item hh q)
  then show ?thesis using assms(2) by simp
next
  case (Node i st pp ks')
  then show ?thesis using assms(1,3) that by (auto simp: step_ok_def)
qed

lemma insert_fixup_correct:
  fixes s :: "('k::linorder, 'v::linorder) tree"
  assumes ok: "sub_ok B s P" and P: "P = Node p stp ppp ks" and x: "x < length ks"
    and stp: "0 \<le> stp" and hr: "href_at s href P"
    and kw: "\<forall>k \<in> set ks. wfb lo hi (Suc lo) (Suc hi) (Suc h) k \<and> minok k"
    and ko: "\<forall>j < length ks. j \<noteq> x \<longrightarrow> length (kids (ks ! j)) \<le> hi"
    and cp: "cache_pointer s = idx (ks ! x)"
    and top: "a \<le> length ks" "length ks \<le> b" "b \<le> nat B"
    and lo: "lo \<le> nat (MERGE_SIZE B)" and hi: "hi = nat B" and B: "1 \<le> B"
  shows "\<exists>s' r P'. insert_fixup B z s href p (int x) = (s', r) \<and> step_ok B s href P s' P'
      \<and> inorder P' = inorder P \<and> chain_pres (leaves P) (leaves P')
      \<and> (if r then cache_pointer s' = p \<and> length (kids P') = Suc (length ks)
              \<and> wfb lo hi a (Suc b) (Suc (Suc h)) P'
              \<and> (length ks = 1 \<and> h = 0 \<longrightarrow> wfb (nat (MERGE_SIZE B)) hi a (Suc b) (Suc (Suc h)) P')
         else length (kids P') = length ks \<and> wfb lo hi a b (Suc (Suc h)) P')"
proof -
  define s0 where "s0 = modify p s"
  have n0: "nodes s0 = nodes s" and av0: "avail s0 = avail s"
    and cp0: "cache_pointer s0 = cache_pointer s"
    and fb0: "free_blocks s0 = free_blocks s" "next_block s0 = next_block s"
    by (simp_all add: s0_def)
  have ok0: "sub_ok B s0 P" using ok n0 fb0 by (intro sub_ok_frame[OF ok]) simp_all
  have hr0: "href_at s0 href P" using hr n0 av0 by (intro href_at_frame[OF hr]) simp_all
  note pre = step_ok_pre_cong[OF n0 av0]
  have kx: "ks ! x \<in> set ks" using x by simp
  have wC: "wfb lo hi (Suc lo) (Suc hi) (Suc h) (ks ! x)" and mC: "minok (ks ! x)"
    using kw kx by blast+
  obtain c stc ppc ksc where C: "ks ! x = Node c stc ppc ksc"
    using wC by (cases "ks ! x") auto
  have lC: "Suc lo \<le> length ksc" "length ksc \<le> Suc hi" using wC by (simp_all add: C)
  have okP: "sub_ok B s0 (Node p stp ppp ks)" using ok0 unfolding P .
  have R: "node_rep B s0 p stp ks" and rk: "\<forall>k \<in> set ks. rep B s0 k"
    using okP unfolding sub_ok_def by simp_all
  have RC: "node_rep B s0 c stc ksc" using rk kx by (auto simp: C)
  have cc: "cache_pointer s = c" using cp by (simp add: C)
  have cntC: "count (nodes s (cache_pointer s)) = int (length ksc)"
    using RC n0 by (simp add: cc node_rep_def)
  have cntP: "count (nodes s0 p) = int (length ks)" using R by (simp add: node_rep_def)
  have hdj: "count (node_head s0 p (int j)) = int (length (kids (ks ! j)))"
    if "j < length ks" for j
  proof -
    have "wfb lo hi (Suc lo) (Suc hi) (Suc h) (ks ! j)" using kw that by simp
    then obtain i st pp as where K: "ks ! j = Node i st pp as"
      by (cases "ks ! j") auto
    show ?thesis using node_head_rep[OF R that refl] by (simp add: K)
  qed
  have c0': "0 \<le> c"
  proof -
    have "set (idxs (ks ! x)) \<subseteq> set (idxs (Node p stp ppp ks))" by (rule idxs_kid_subset[OF kx])
    then have "c \<in> set (idxs (Node p stp ppp ks))" by (auto simp: C)
    then show ?thesis using okP unfolding sub_ok_def by blast
  qed
  have gpx: "cache_pointer s0 = get_pointer (node_head s0 p (int x))"
    using node_head_rep[OF R x refl] c0' by (simp add: cp0 cc C get_pointer_entry del: entry.simps)
  have strict: "\<forall>j < length ks. j \<noteq> x \<longrightarrow> wfb lo hi (Suc lo) hi (Suc h) (ks ! j) \<and> minok (ks ! j)"
  proof (intro allI impI)
    fix j assume j: "j < length ks" "j \<noteq> x"
    then have w: "wfb lo hi (Suc lo) (Suc hi) (Suc h) (ks ! j)" and m: "minok (ks ! j)"
      using kw by auto
    have "Suc lo \<le> length (kids (ks ! j))" using w by (cases "ks ! j") auto
    then have "wfb lo hi (Suc lo) hi (Suc h) (ks ! j)"
      using ko j by (intro wfb_tighten[OF w]) auto
    then show "wfb lo hi (Suc lo) hi (Suc h) (ks ! j) \<and> minok (ks ! j)" using m by simp
  qed
  have hi1: "1 \<le> hi" "int hi = B" using hi B by simp_all
  have lo3: "lo \<le> hi div 3" using lo hi B by (simp add: MERGE_SIZE_def nat_div_distrib)
  have am: "AMORT_SIZE B = int (hi * 2 div 3)" using hi1 by (simp add: AMORT_SIZE_def zdiv_int)
  have sth: "(stp < 0) = (Suc h = 0)" using stp by simp
  show ?thesis
  proof (cases "int (length ksc) \<le> B")
    case True
    have e: "insert_fixup B z s href p (int x) = (s0, False)"
      unfolding s0_def using True cntC by (intro insert_fixup_small) simp
    have st: "step_ok B s href P s0 P"
      unfolding pre[symmetric] by (rule step_ok_refl[OF ok0 hr0])
    have "length ksc \<le> hi" using True hi1 by linarith
    then have "wfb lo hi (Suc lo) hi (Suc h) (ks ! x)"
      using lC by (intro wfb_tighten[OF wC]) (simp_all add: C)
    then have "\<forall>j < length ks. wfb lo hi (Suc lo) hi (Suc h) (ks ! j) \<and> minok (ks ! j)"
      using strict mC by (metis)
    then have "\<forall>k \<in> set ks. wfb lo hi (Suc lo) hi (Suc h) k \<and> minok k"
      by (simp add: all_set_conv_all_nth)
    then have w: "wfb lo hi a b (Suc (Suc h)) P" using top stp unfolding P by simp
    have "kids P \<noteq> []" using x by (auto simp: P)
    then have "leaves P \<noteq> []" using wfb_leaves_nonempty[OF wfb_tighten[OF w, of 1 "length ks"]] x
      by (simp add: P Suc_le_eq)
    then have ch: "chain_pres (leaves P) (leaves P)" by (rule chain_pres_refl)
    show ?thesis using e st w ch by (intro exI[of _ s0] exI[of _ False] exI[of _ P]) (simp add: P)
  next
    case False
    have nle: "\<not> count (nodes s (cache_pointer s)) \<le> B" using False cntC by simp
    have full: "length ksc = Suc hi" using False lC hi1 by linarith
    define f0 where "f0 \<longleftrightarrow> int x \<noteq> count (nodes s0 p) - 1
                        \<and> count (node_head s0 p (int x + 1)) < AMORT_SIZE B"
    define f1 where "f1 \<longleftrightarrow> int x \<noteq> 0 \<and> count (node_head s0 p (int x - 1)) < AMORT_SIZE B"
    define gt where "gt \<longleftrightarrow> count (node_head s0 p (int x - 1)) > count (node_head s0 p (int x + 1))"
    consider (L) "f1 \<and> (f0 \<longrightarrow> \<not> gt)" | (R) "f0 \<and> (f1 \<longrightarrow> gt)" | (S) "\<not> f0 \<and> \<not> f1"
      by blast
    then show ?thesis
    proof cases
      case L
      then have x0: "x \<noteq> 0" and c1: "count (node_head s0 p (int x - 1)) < AMORT_SIZE B"
        by (simp_all add: f1_def)
      define y where "y = x - 1"
      have xy: "x = Suc y" "int x - 1 = int y" using x0 by (simp_all add: y_def)
      have y: "Suc y < length ks" using x xy by simp
      have e1: "insert_amortize B s0 p (int x) = (amortize_pair True s0 p (int y), True)"
        unfolding xy(2)[symmetric] using L gpx
        by (intro insert_amortize_left_pair) (simp_all add: f0_def f1_def gt_def)
      define s' where "s' = amortize_pair True s0 p (int y)"
      have e: "insert_fixup B z s href p (int x) = (s', False)"
        using nle e1 unfolding s0_def s'_def by (rule insert_fixup_amort)
      have ky: "y < length ks" "y \<noteq> x" using y xy by simp_all
      have w1: "wfb lo hi (Suc lo) hi (Suc h) (ks ! y)" and m1: "minok (ks ! y)"
        using strict ky by blast+
      obtain i1 st1 pp1 as1 where K1: "ks ! y = Node i1 st1 pp1 as1"
        using w1 by (cases "ks ! y") auto
      have K2: "ks ! Suc y = Node c stc ppc ksc" using C xy by simp
      have l1: "Suc lo \<le> length as1" using w1 by (simp add: K1)
      have "int (length as1) < AMORT_SIZE B"
        using c1 hdj[OF ky(1)] by (simp add: xy K1)
      then have la: "length as1 < hi * 2 div 3" unfolding am by linarith
      define d where "d = (length ksc - length as1) div 2"
      have ne: "as1 \<noteq> []" using l1 by auto
      have le: "length as1 \<le> length ksc" using la full by linarith
      have b1: "Suc lo \<le> length as1 + d" "length as1 + d \<le> hi"
        using l1 la full unfolding d_def by (simp, arith)
      have b2: "Suc lo \<le> length ksc - d" "length ksc - d \<le> hi"
        using l1 la full lo3 unfolding d_def by arith+
      have hiB: "hi \<le> nat B" using hi by simp
      have w2: "wfb lo hi (Suc lo) (Suc hi) (Suc h) (ks ! Suc y)" using wC xy by simp
      from amortize_next_step[OF ok0 P y stp hr0 K1 K2 w1 w2 m1 ne le d_def b1 b2 hiB s'_def]
      obtain P' where st: "step_ok B s0 href P s' P'" and i: "inorder P' = inorder P"
        and ch: "chain_pres (leaves P) (leaves P')" and len: "length (kids P') = length ks"
        and ky1: "wfb lo hi (Suc lo) hi (Suc h) (kids P' ! y) \<and> minok (kids P' ! y)"
        and ky2: "wfb lo hi (Suc lo) hi (Suc h) (kids P' ! Suc y) \<and> minok (kids P' ! Suc y)"
        and oth: "\<forall>j. j \<noteq> y \<longrightarrow> j \<noteq> Suc y \<longrightarrow> kids P' ! j = ks ! j"
        by blast
      have rest: "\<forall>j < length ks. j \<noteq> y \<and> j \<noteq> Suc y \<longrightarrow>
                   wfb lo hi (Suc lo) hi (Suc h) (ks ! j) \<and> minok (ks ! j)"
        using strict xy by simp
      have all: "\<forall>k \<in> set (kids P'). wfb lo hi (Suc lo) hi (Suc h) k \<and> minok k"
        by (rule kids_all_nth[OF len ky1 ky2 oth rest])
      have kne: "kids P' \<noteq> []" using len x by auto
      from step_node[OF st[unfolded P] kne stp]
      obtain pp' ks' st' where P': "P' = Node p st' pp' ks'" "0 \<le> st'" by blast
      have w: "wfb lo hi a b (Suc (Suc h)) P'"
        using all len top P'(2) unfolding P' by simp
      show ?thesis using e st[unfolded pre] i ch len w
        by (intro exI[of _ s'] exI[of _ False] exI[of _ P']) simp
    next
      case R
      then have xl: "int x \<noteq> count (nodes s0 p) - 1"
        and c1: "count (node_head s0 p (int x + 1)) < AMORT_SIZE B"
        by (simp_all add: f0_def)
      have y: "Suc x < length ks" using xl x cntP by linarith
      have e1: "insert_amortize B s0 p (int x) = (amortize_pair False s0 p (int x), True)"
        using R gpx by (intro insert_amortize_right_pair) (simp_all add: f0_def f1_def gt_def)
      define s' where "s' = amortize_pair False s0 p (int x)"
      have e: "insert_fixup B z s href p (int x) = (s', False)"
        using nle e1 unfolding s0_def s'_def by (rule insert_fixup_amort)
      have ky: "Suc x < length ks" "Suc x \<noteq> x" using y by simp_all
      have w2: "wfb lo hi (Suc lo) hi (Suc h) (ks ! Suc x)" and m2: "minok (ks ! Suc x)"
        using strict ky by blast+
      obtain i2 st2 pp2 as2 where K2: "ks ! Suc x = Node i2 st2 pp2 as2"
        using w2 by (cases "ks ! Suc x") auto
      have l2: "Suc lo \<le> length as2" using w2 by (simp add: K2)
      have "int (length as2) < AMORT_SIZE B"
        using c1 hdj[OF ky(1)] by (simp add: K2 add.commute)
      then have la: "length as2 < hi * 2 div 3" unfolding am by linarith
      define d where "d = (length ksc - length as2) div 2"
      have le: "length as2 \<le> length ksc" using la full by linarith
      have b1: "Suc lo \<le> length ksc - d" "length ksc - d \<le> hi"
        using l2 la full lo3 unfolding d_def by arith+
      have b2: "Suc lo \<le> length as2 + d" "length as2 + d \<le> hi"
        using l2 la full unfolding d_def by (simp, arith)
      have hiB: "hi \<le> nat B" using hi by simp
      from amortize_prev_step[OF ok0 P y stp hr0 C K2 wC w2 mC le d_def b1 b2 hiB s'_def]
      obtain P' where st: "step_ok B s0 href P s' P'" and i: "inorder P' = inorder P"
        and ch: "chain_pres (leaves P) (leaves P')" and len: "length (kids P') = length ks"
        and ky1: "wfb lo hi (Suc lo) hi (Suc h) (kids P' ! x) \<and> minok (kids P' ! x)"
        and ky2: "wfb lo hi (Suc lo) hi (Suc h) (kids P' ! Suc x) \<and> minok (kids P' ! Suc x)"
        and oth: "\<forall>j. j \<noteq> x \<longrightarrow> j \<noteq> Suc x \<longrightarrow> kids P' ! j = ks ! j"
        by blast
      have rest: "\<forall>j < length ks. j \<noteq> x \<and> j \<noteq> Suc x \<longrightarrow>
                   wfb lo hi (Suc lo) hi (Suc h) (ks ! j) \<and> minok (ks ! j)"
        using strict by simp
      have all: "\<forall>k \<in> set (kids P'). wfb lo hi (Suc lo) hi (Suc h) k \<and> minok k"
        by (rule kids_all_nth[OF len ky1 ky2 oth rest])
      have kne: "kids P' \<noteq> []" using len x by auto
      from step_node[OF st[unfolded P] kne stp]
      obtain pp' ks' st' where P': "P' = Node p st' pp' ks'" "0 \<le> st'" by blast
      have w: "wfb lo hi a b (Suc (Suc h)) P'"
        using all len top P'(2) unfolding P' by simp
      show ?thesis using e st[unfolded pre] i ch len w
        by (intro exI[of _ s'] exI[of _ False] exI[of _ P']) simp
    next
      case S
      have e1: "insert_amortize B s0 p (int x) = (s0, False)"
        using S by (intro insert_amortize_none) (simp_all add: f0_def f1_def)
      define s2 where "s2 = set_count p (count (nodes (split_node B z s0 p (int x)) p) + 1)
                    (split_node B z s0 p (int x))"
      define s' where "s' = (write_head_count href (count (nodes s2 p)) s2)\<lparr>cache_pointer := p\<rparr>"
      have e: "insert_fixup B z s href p (int x) = (s', True)"
        unfolding s'_def using nle e1[unfolded s0_def] s2_def[unfolded s0_def]
        by (rule insert_fixup_split)
      define m where "m = length ksc div 2"
      have room: "length ks < nat (B + 1)" using top B by linarith
      have b1: "Suc lo \<le> length ksc - m" "length ksc - m \<le> hi"
        using full lo3 hi1 unfolding m_def by arith+
      have b2: "Suc lo \<le> m" "m \<le> hi"
        using full lo3 hi1 unfolding m_def by arith+
      have cc0: "cache_pointer s0 = c" using cc cp0 by simp
      from split_step[OF ok0 P x stp hr0 C wC mC cc0 room m_def b1 b2 s2_def s'_def]
      obtain P' C1 C2 where st: "step_ok B s0 href P s' P'" and i: "inorder P' = inorder P"
        and ch: "chain_pres (leaves P) (leaves P')"
        and kd: "kids P' = take x ks @ [C1, C2] @ drop (Suc x) ks"
        and k1: "wfb lo hi (Suc lo) hi (Suc h) C1 \<and> minok C1"
        and k2: "wfb lo hi (Suc lo) hi (Suc h) C2 \<and> minok C2"
        and ln: "length (kids C1) = length ksc - m" "length (kids C2) = m"
        and cp': "cache_pointer s' = p"
        by blast
      have len: "length (kids P') = Suc (length ks)" using x by (simp add: kd)
      have oth: "\<forall>k \<in> set (take x ks) \<union> set (drop (Suc x) ks).
                   wfb lo hi (Suc lo) hi (Suc h) k \<and> minok k"
        by (rule others_all[OF strict])
      have all: "\<forall>k \<in> set (kids P'). wfb lo hi (Suc lo) hi (Suc h) k \<and> minok k"
        unfolding kd using oth k1 k2 by auto
      have kne: "kids P' \<noteq> []" by (simp add: kd)
      from step_node[OF st[unfolded P] kne stp]
      obtain pp' ks' st' where P': "P' = Node p st' pp' ks'" "0 \<le> st'" by blast
      have w: "wfb lo hi a (Suc b) (Suc (Suc h)) P'"
        using all len top P'(2) unfolding P' by simp
      have w1: "wfb (nat (MERGE_SIZE B)) hi a (Suc b) (Suc (Suc h)) P'" if "length ks = 1" "h = 0"
      proof -
        define L where "L = nat (MERGE_SIZE B)"
        have L3: "L = hi div 3" using hi B by (simp add: L_def MERGE_SIZE_def nat_div_distrib)
        have x0: "x = 0" using x that by simp
        have kd': "kids P' = [C1, C2]" using that by (simp add: kd x0)
        have a1: "wfb L hi (Suc lo) hi (Suc 0) C1" "wfb L hi (Suc lo) hi (Suc 0) C2"
          using k1 k2 that wfb_leaf_lo by blast+
        have bb: "Suc L \<le> length (kids C1)" "length (kids C1) \<le> hi"
          "Suc L \<le> length (kids C2)" "length (kids C2) \<le> hi"
          using ln full L3 hi1 unfolding m_def by arith+
        have "wfb L hi (Suc L) hi (Suc 0) C1" "wfb L hi (Suc L) hi (Suc 0) C2"
          by (rule wfb_tighten[OF a1(1) bb(1,2)], rule wfb_tighten[OF a1(2) bb(3,4)])
        then show ?thesis
          using k1 k2 len top P'(2) kd' that unfolding P' L_def[symmetric] by simp
      qed
      show ?thesis using e st[unfolded pre] i ch len w w1 cp'
        by (intro exI[of _ s'] exI[of _ True] exI[of _ P']) simp
    qed
  qed
qed

section \<open>A step below, seen from the parent\<close>

lemma step_href:
  assumes "href_at s href t" "frame_ok s s' href t t'"
    "set (idxs t') \<union> avail s' \<subseteq> set (idxs t) \<union> avail s"
    "idx t' = idx t" "nstate t' = 0 \<longleftrightarrow> nstate t = 0"
  shows "href_at s' href t'"
proof (cases href)
  case RootHead
  then show ?thesis using assms by (simp add: href_at_def)
next
  case (SlotHead q y)
  have q: "0 \<le> y" "nat y < length (data (nodes s q))" "q \<notin> set (idxs t)" "q \<notin> avail s"
    using assms(1) SlotHead by (simp_all add: href_at_def)
  have n: "nodes s' q = (nodes s q)\<lparr>data := (data (nodes s q))[nat y := entry t']\<rparr>"
    using assms(2) q unfolding frame_ok_def SlotHead by simp
  have "q \<notin> set (idxs t')" "q \<notin> avail s'" using assms(3) q by blast+
  then show ?thesis using q n by (simp add: href_at_def SlotHead)
qed

lemma child_step:
  fixes s :: "('k::linorder, 'v::linorder) tree"
  assumes ok: "sub_ok B s P" and P: "P = Node p stp ppp ks" and x: "x < length ks"
    and hr: "href_at s href P"
    and cok: "sub_ok B s' t'"
    and csub: "set (idxs t') \<union> avail s' \<subseteq> set (idxs (ks ! x)) \<union> avail s"
    and cfr: "frame_ok s s' (SlotHead p (int x)) (ks ! x) t'"
    and srt: "sorted_wrt (<) (concat (map inorder (ks[x := t'])))"
    and P': "P' = Node p stp ppp (ks[x := t'])"
  shows "step_ok B s href P s' P'"
proof -
  define A where "A = take x ks"
  define Z where "Z = drop (Suc x) ks"
  define old where "old = [ks ! x]"
  define new where "new = [t']"
  have ks: "ks = A @ old @ Z" unfolding A_def Z_def old_def by (rule single_split[OF x])
  have ks': "ks[x := t'] = A @ new @ Z" unfolding A_def Z_def new_def by (rule single_update[OF x])
  have Po: "P = Node p stp ppp (A @ old @ Z)" unfolding P using ks by simp
  have Pn: "P' = Node p stp ppp (A @ new @ Z)" unfolding P' ks' ..
  have oks: "sub_ok B s (Node p stp ppp (A @ old @ Z))" using ok unfolding Po .
  have okP: "sub_ok B s (Node p stp ppp ks)" using ok unfolding P .
  have R: "node_rep B s p stp ks" and dP: "distinct (p # concat (map idxs ks))"
    and avP: "set (p # concat (map idxs ks)) \<inter> avail s = {}"
    using okP unfolding sub_ok_def by simp_all
  have kx: "ks ! x \<in> set ks" using x by simp
  have sC: "set (idxs (ks ! x)) \<subseteq> set (concat (map idxs ks))" using kx by auto
  have pk: "p \<notin> set (idxs (ks ! x))" "p \<notin> avail s" using sC dP avP by auto
  have np: "nodes s' p = (nodes s p)\<lparr>data := (data (nodes s p))[x := entry t']\<rparr>"
    using cfr pk unfolding frame_ok_def by simp
  have g1: "sorted_wrt (<) (concat (map inorder (A @ new @ Z)))" using srt unfolding ks' .
  have g2: "set (concat (map idxs new)) \<union> avail s' \<subseteq> set (concat (map idxs old)) \<union> avail s"
    using csub by (simp add: new_def old_def)
  have dnew: "distinct (concat (map idxs new))" using cok by (simp add: new_def sub_ok_def)
  have g3: "set (concat (map idxs new)) \<inter> avail s' = {}" using cok by (simp add: new_def sub_ok_def)
  have g4: "\<forall>i\<in>set (concat (map idxs new)). 0 \<le> i" using cok by (simp add: new_def sub_ok_def)
  have awf: "alloc_wf s'" using cok by (simp add: sub_ok_def)
  have reps: "\<forall>k \<in> set new. rep B s' k" using cok by (simp add: new_def sub_ok_def)
  have par: "node_rep B s' p stp (A @ new @ Z)"
    unfolding ks'[symmetric] by (rule node_rep_update_entry[OF R x np])
  have g5: "nodes s' j = nodes s j"
    if "j \<noteq> p" "j \<notin> set (concat (map idxs old))" "j \<notin> avail s" for j
    using cfr that unfolding frame_ok_def by (simp add: old_def)
  note seg = segment_replace[OF oks g1 g2 dnew g3 g4 awf reps par g5]
  have fo: "frame_ok s s' href P P'"
  proof (rule frame_ok_same[OF hr])
    show "entry P' = entry P" unfolding P P' by simp
    fix j assume "j \<notin> set (idxs P)" "j \<notin> avail s"
    then show "nodes s' j = nodes s j" using kx unfolding P by (intro g5) (auto simp: old_def)
  qed
  show ?thesis unfolding step_ok_def using seg fo unfolding Pn Po by simp
qed

lemma child_leaves:
  assumes "chain_pres (leaves (ks ! x)) (leaves t')" "leaves (ks ! x) \<noteq> []" "x < length ks"
    "0 \<le> stp"
  shows "chain_pres (leaves (Node p stp ppp ks)) (leaves (Node p stp ppp (ks[x := t'])))"
proof -
  have a: "chain_pres (concat (map leaves [ks ! x])) (concat (map leaves [t']))"
    "concat (map leaves [ks ! x]) \<noteq> []" using assms by simp_all
  have "chain_pres (leaves (Node p stp ppp (take x ks @ [ks ! x] @ drop (Suc x) ks)))
          (leaves (Node p stp ppp (take x ks @ [t'] @ drop (Suc x) ks)))"
    using a assms(4) by (rule segment_leaves)
  moreover have "leaves (Node p stp ppp (take x ks @ [ks ! x] @ drop (Suc x) ks))
      = leaves (Node p stp ppp ks)"
    by (rule arg_cong[OF single_split[OF assms(3), symmetric],
          where f = "\<lambda>k. leaves (Node p stp ppp k)"])
  moreover have "leaves (Node p stp ppp (take x ks @ [t'] @ drop (Suc x) ks))
      = leaves (Node p stp ppp (ks[x := t']))"
    by (rule arg_cong[OF single_update[OF assms(3), symmetric],
          where f = "\<lambda>k. leaves (Node p stp ppp k)"])
  ultimately show ?thesis by simp
qed

lemma set_min_frame:
  fixes s :: "('k::linorder, 'v::linorder) tree"
  assumes ok: "sub_ok B s (Node p stp ppp ks)" and x: "x < length ks"
    and K: "ks ! x = Node i st pp as" and xi: "xi = int x"
    and s0_def: "s0 = set_v p xi q (modify p s)"
  shows "sub_ok B s0 (set_ppair q (ks ! x))"
    "set (idxs (set_ppair q (ks ! x))) \<union> avail s0 \<subseteq> set (idxs (ks ! x)) \<union> avail s"
    "frame_ok s s0 (SlotHead p xi) (ks ! x) (set_ppair q (ks ! x))"
proof -
  have R: "node_rep B s p stp ks" and dP: "distinct (p # concat (map idxs ks))"
    using ok unfolding sub_ok_def by simp_all
  have kx: "ks ! x \<in> set ks" using x by simp
  have sC: "set (idxs (ks ! x)) \<subseteq> set (concat (map idxs ks))" using kx by auto
  have pk: "p \<notin> set (idxs (ks ! x))" using sC dP by auto
  have e: "data (nodes s p) ! x = entry (ks ! x)" by (rule node_rep_nth[OF R x])
  have n0: "nodes s0 = (nodes s)(p := (nodes s p)\<lparr>data := (data (nodes s p))[x := entry (set_ppair q (ks ! x))]\<rparr>)"
    unfolding s0_def xi by (simp add: e)
  have av: "avail s0 = avail s" by (simp add: s0_def)
  have fb: "free_blocks s0 = free_blocks s" "next_block s0 = next_block s" by (simp_all add: s0_def)
  have okk: "sub_ok B s (ks ! x)" by (rule sub_ok_kid[OF ok x])
  have okq: "sub_ok B s (set_ppair q (ks ! x))" using okk by (simp add: sub_ok_def K)
  show "sub_ok B s0 (set_ppair q (ks ! x))"
  proof (rule sub_ok_frame[OF okq _ fb])
    fix j assume "j \<in> set (idxs (set_ppair q (ks ! x)))"
    then have "j \<noteq> p" using pk by auto
    then show "nodes s0 j = nodes s j" by (simp add: n0)
  qed
  show "set (idxs (set_ppair q (ks ! x))) \<union> avail s0 \<subseteq> set (idxs (ks ! x)) \<union> avail s"
    by (simp add: av)
  show "frame_ok s s0 (SlotHead p xi) (ks ! x) (set_ppair q (ks ! x))"
    unfolding frame_ok_def xi by (simp add: n0)
qed

section \<open>Where a pair belongs among the children\<close>

lemma above_all:
  fixes k :: "('k::linorder, 'v::linorder) atree"
  assumes "sorted_wrt (<) (inorder k)" "minok k" "inorder k \<noteq> []" "kv < ppair k"
  shows "\<forall>e \<in> set (inorder k). kv < e"
proof
  fix e assume "e \<in> set (inorder k)"
  then have "hd (inorder k) \<le> e" by (rule sorted_hd_le[OF assms(1)])
  moreover have "ppair k = hd (inorder k)" using assms(2,3) by (simp add: minok_hd)
  ultimately show "kv < e" using assms(4) by simp
qed

lemma kid_sorted:
  fixes ks :: "('k::linorder, 'v::linorder) atree list"
  assumes "sorted_wrt (<) (concat (map inorder ks))" "x < length ks"
  shows "sorted_wrt (<) (inorder (ks ! x))"
    "\<forall>a \<in> set (concat (map inorder (take x ks))). \<forall>e \<in> set (inorder (ks ! x)). a < e"
    "\<forall>e \<in> set (inorder (ks ! x)). \<forall>z \<in> set (concat (map inorder (drop (Suc x) ks))). e < z"
    "\<forall>a \<in> set (concat (map inorder (take x ks))).
        \<forall>z \<in> set (concat (map inorder (drop (Suc x) ks))). a < z"
proof -
  let ?A = "concat (map inorder (take x ks))" and ?X = "inorder (ks ! x)"
  let ?Z = "concat (map inorder (drop (Suc x) ks))"
  have s: "sorted_wrt (<) (?A @ ?X @ ?Z)"
    using assms(1) unfolding concat_map_split[OF assms(2), of inorder] .
  then have a: "\<forall>a \<in> set ?A. \<forall>e \<in> set (?X @ ?Z). a < e" and b: "sorted_wrt (<) (?X @ ?Z)"
    unfolding sorted_wrt_append[of _ ?A] by blast+
  show "sorted_wrt (<) ?X" using b unfolding sorted_wrt_append by blast
  show "\<forall>e \<in> set ?X. \<forall>z \<in> set ?Z. e < z" using b unfolding sorted_wrt_append by blast
  show "\<forall>a \<in> set ?A. \<forall>e \<in> set ?X. a < e" using a unfolding set_append by blast
  show "\<forall>a \<in> set ?A. \<forall>z \<in> set ?Z. a < z" using a unfolding set_append by blast
qed

lemma after_all:
  fixes ks :: "('k::linorder, 'v::linorder) atree list"
  assumes srt: "sorted_wrt (<) (concat (map inorder ks))"
    and km: "\<forall>k \<in> set ks. inorder k \<noteq> [] \<and> minok k"
    and ab: "\<forall>y. x < y \<and> y < length ks \<longrightarrow> kv < ppair (ks ! y)"
  shows "\<forall>z \<in> set (concat (map inorder (drop (Suc x) ks))). kv < z"
proof
  fix z assume "z \<in> set (concat (map inorder (drop (Suc x) ks)))"
  then obtain k where k: "k \<in> set (drop (Suc x) ks)" "z \<in> set (inorder k)" by auto
  then obtain j where j: "j < length (drop (Suc x) ks)" "drop (Suc x) ks ! j = k"
    by (auto simp: in_set_conv_nth)
  define y where "y = Suc x + j"
  have y: "x < y" "y < length ks" "ks ! y = k" using j by (auto simp: y_def)
  have "sorted_wrt (<) (inorder (ks ! y))" by (rule kid_sorted(1)[OF srt y(2)])
  then show "kv < z" using above_all[of k kv] km ab y k(2) by auto
qed

lemma before_all:
  fixes ks :: "('k::linorder, 'v::linorder) atree list"
  assumes srt: "sorted_wrt (<) (concat (map inorder ks))" and x: "x < length ks"
    and km: "inorder (ks ! x) \<noteq> []" "minok (ks ! x)"
    and bl: "ppair (ks ! x) < kv"
  shows "\<forall>a \<in> set (concat (map inorder (take x ks))). a < kv"
proof
  fix a assume a: "a \<in> set (concat (map inorder (take x ks)))"
  have "hd (inorder (ks ! x)) \<in> set (inorder (ks ! x))" using km(1) by simp
  then have "a < hd (inorder (ks ! x))" using kid_sorted(2)[OF srt x] a by blast
  moreover have "ppair (ks ! x) = hd (inorder (ks ! x))" using km by (simp add: minok_hd)
  ultimately show "a < kv" using bl by simp
qed

lemma hd_insert_sorted:
  fixes X :: "'a::linorder list"
  assumes "sorted_wrt (<) X'" "set X' = insert kv (set X)" "q \<in> insert kv (set X)"
    "\<forall>e \<in> insert kv (set X). q \<le> e"
  shows "hd X' = q"
proof -
  have ne: "X' \<noteq> []" using assms(2) by auto
  have "hd X' = Min (set X')" by (rule sorted_hd_Min[OF assms(1) ne])
  also have "\<dots> = q" using assms(2,3,4) by (intro Min_eqI) auto
  finally show ?thesis .
qed

section \<open>Unfolding the recursive insertion\<close>

lemma insert_inner_leaf:
  "\<not> is_inner (read_head s href) \<Longrightarrow> insert_inner B z s href key val = insert_outer s href key val"
  by (subst insert_inner.simps) (simp add: Let_def)

lemma insert_inner_found:
  assumes "is_inner (read_head s href)"
    "binary_search (data (nodes s (get_pointer (read_head s href)))) key val 0
        (count (read_head s href)) = Some bb" "bb < 0"
  shows "insert_inner B z s href key val = Some (s, False)"
  using assms by (subst insert_inner.simps) (simp add: Let_def)

lemma insert_inner_rec:
  assumes "is_inner (read_head s href)" "p = get_pointer (read_head s href)"
    "binary_search (data (nodes s p)) key val 0 (count (read_head s href)) = Some bb" "0 \<le> bb"
    "s0 = (if bb > 0 then s else set_v p 0 (key, val) (modify p s))"
    "x = (if bb > 0 then bb - 1 else 0)"
    "insert_inner B z s0 (SlotHead p x) key val = Some (s1, r)"
  shows "insert_inner B z s href key val
           = (if r then Some (insert_fixup B z s1 href p x) else Some (s1, False))"
  using assms by (subst insert_inner.simps) (auto simp: Let_def)

section \<open>The recursive insertion\<close>

lemma href_kid:
  fixes s :: "('k::linorder, 'v::linorder) tree"
  assumes ok: "sub_ok B s (Node p stp ppp ks)" and x: "x < length ks"
  shows "href_at s (SlotHead p (int x)) (ks ! x)"
proof -
  have R: "node_rep B s p stp ks" and dP: "distinct (p # concat (map idxs ks))"
    and avP: "set (p # concat (map idxs ks)) \<inter> avail s = {}"
    using ok unfolding sub_ok_def by simp_all
  have kx: "ks ! x \<in> set ks" using x by simp
  have sC: "set (idxs (ks ! x)) \<subseteq> set (concat (map idxs ks))" using kx by auto
  have pk: "p \<notin> set (idxs (ks ! x))" "p \<notin> avail s" using sC dP avP by auto
  have e: "data (nodes s p) ! x = entry (ks ! x)" by (rule node_rep_nth[OF R x])
  have "length ks \<le> length (data (nodes s p))"
    using node_rep_length_nat[OF R] R by (simp add: node_rep_def)
  then have "x < length (data (nodes s p))" using x by simp
  then show ?thesis using pk e by (simp add: href_at_def)
qed

lemma set_ppair_same: "set_ppair (ppair k) k = k"
  by (cases k) simp_all

lemma inorder_set_ppair_any [simp]: "inorder (set_ppair q k) = (case k of Item h p \<Rightarrow> [q] | _ \<Rightarrow> inorder k)"
  by (cases k) simp_all

lemma insert_inner_correct:
  fixes s :: "('k::linorder, 'v::linorder) tree"
  assumes lo: "lo \<le> nat (MERGE_SIZE B)" and hi: "hi = nat B" and B: "1 \<le> B"
  shows "sub_ok B s t \<Longrightarrow> wfb lo hi a b (Suc h) t \<Longrightarrow> href_at s href t \<Longrightarrow> 1 \<le> a \<Longrightarrow> b \<le> nat B
     \<Longrightarrow> \<exists>s' r t'. insert_inner B z s href key val = Some (s', r)
            \<and> ins_post B lo hi a b (Suc h) (key, val) s href t s' r t'"
proof (induction h arbitrary: s t href a b)
  case 0
  obtain i st pp ks where t: "t = Node i st pp ks" using "0.prems"(2) by (cases t) auto
  have st: "st < 0" using "0.prems"(2) by (simp add: t)
  have rp: "rep B s t" and i0: "0 \<le> i" using "0.prems"(1) by (simp_all add: sub_ok_def t)
  have rh: "read_head s href = head (entry t)" by (rule read_head_href[OF "0.prems"(3) rp t])
  have "\<not> is_inner (read_head s href)"
    unfolding rh t using st by (simp add: is_inner_entry[OF i0] del: entry.simps)
  then have e: "insert_inner B z s href key val = insert_outer s href key val"
    by (rule insert_inner_leaf)
  have B0: "0 \<le> B" using B by simp
  have w: "wfb lo hi a b 1 t" using "0.prems"(2) by simp
  show ?case unfolding e
    using insert_outer_correct[OF "0.prems"(1) t w "0.prems"(5) "0.prems"(3) B0, of key val]
    by simp
next
  case (Suc h)
  note ok = Suc.prems(1) and wf = Suc.prems(2) and hr = Suc.prems(3)
    and a1 = Suc.prems(4) and bB = Suc.prems(5)
  define kv where "kv = (key, val)"
  obtain p stp ppp ks where t: "t = Node p stp ppp ks" using wf by (cases t) auto
  have stp: "0 \<le> stp" and len: "a \<le> length ks" "length ks \<le> b"
    and kw: "\<forall>k \<in> set ks. wfb lo hi (Suc lo) hi (Suc h) k \<and> minok k"
    using wf by (auto simp: t)
  have okP: "sub_ok B s (Node p stp ppp ks)" using ok unfolding t .
  have R: "node_rep B s p stp ks" and srtI: "sorted_wrt (<) (concat (map inorder ks))"
    and p0: "0 \<le> p" and rp: "rep B s t"
    using okP unfolding sub_ok_def t by simp_all
  have rh: "read_head s href = head (entry t)" by (rule read_head_href[OF hr rp t])
  have inn: "is_inner (read_head s href)"
    unfolding rh t using stp by (simp add: is_inner_entry[OF p0] del: entry.simps)
  have gp: "get_pointer (read_head s href) = p" unfolding rh t by (rule get_pointer_entry[OF p0])
  have cnt: "count (read_head s href) = int (length ks)" unfolding rh t by simp
  have srt: "sorted_wrt (<) (map ppair ks)"
    using wfb_kids_sorted[OF wf[unfolded t]] srtI by simp
  have kne: "\<forall>k \<in> set ks. inorder k \<noteq> [] \<and> minok k"
    using kw wfb_inorder_nonempty[of lo hi "Suc lo" hi "Suc h"] by auto
  have lne: "leaves t \<noteq> []"
    using wfb_leaves_nonempty[OF wfb_bounds[OF wf a1 order_refl]] by simp
  have ks1: "1 \<le> length ks" using a1 len by simp
  from node_search[OF R srt, of key val, folded kv_def]
  obtain bb where bs: "binary_search (data (nodes s p)) key val 0 (int (length ks)) = Some bb"
    and cases: "(0 \<le> bb \<and> nat bb \<le> length ks
              \<and> (\<forall>y < nat bb. ppair (ks ! y) < kv)
              \<and> (\<forall>y. nat bb \<le> y \<and> y < length ks \<longrightarrow> kv < ppair (ks ! y)))
            \<or> (bb < 0 \<and> nat (NOT bb) < length ks \<and> ppair (ks ! nat (NOT bb)) = kv)"
    by blast
  from cases show ?case
  proof
    assume c: "bb < 0 \<and> nat (NOT bb) < length ks \<and> ppair (ks ! nat (NOT bb)) = kv"
    have e: "insert_inner B z s href key val = Some (s, False)"
      using inn bs c by (intro insert_inner_found[where bb = bb]) (simp_all add: gp cnt)
    define j where "j = nat (NOT bb)"
    have j: "j < length ks" "ppair (ks ! j) = kv" using c by (simp_all add: j_def)
    have kj: "ks ! j \<in> set ks" using j by simp
    have nj: "inorder (ks ! j) \<noteq> []" and mj: "minok (ks ! j)" using kne kj by blast+
    have "ppair (ks ! j) = hd (inorder (ks ! j))" using mj nj by (simp add: minok_hd)
    then have "kv \<in> set (inorder (ks ! j))" using nj j(2) hd_in_set[OF nj] by simp
    then have mem: "kv \<in> set (inorder t)" using kj unfolding t by auto
    have "step_ok B s href t s t" by (rule step_ok_refl[OF ok hr])
    then have "ins_post B lo hi a b (Suc (Suc h)) kv s href t s False t"
      unfolding ins_post_def using mem wf chain_pres_refl[OF lne] by auto
    then show ?thesis using e unfolding kv_def by blast
  next
    assume c: "0 \<le> bb \<and> nat bb \<le> length ks
              \<and> (\<forall>y < nat bb. ppair (ks ! y) < kv)
              \<and> (\<forall>y. nat bb \<le> y \<and> y < length ks \<longrightarrow> kv < ppair (ks ! y))"
    define xb where "xb = nat bb"
    have bx: "bb = int xb" and xbl: "xb \<le> length ks" using c by (simp_all add: xb_def)
    have below: "\<And>y. y < xb \<Longrightarrow> ppair (ks ! y) < kv"
      and above: "\<And>y. xb \<le> y \<Longrightarrow> y < length ks \<Longrightarrow> kv < ppair (ks ! y)"
      using c by (simp_all add: xb_def)
    define x where "x = (if 0 < xb then xb - 1 else 0)"
    define q where "q = (if 0 < xb then ppair (ks ! x) else kv)"
    define s0 where "s0 = (if bb > 0 then s else set_v p 0 kv (modify p s))"
    define t0 where "t0 = set_ppair q (ks ! x)"
    define ks0 where "ks0 = ks[x := t0]"
    define P0 where "P0 = Node p stp ppp ks0"
    have x: "x < length ks" using xbl ks1 by (auto simp: x_def)
    have xi: "(if bb > 0 then bb - 1 else 0) = int x" by (auto simp: x_def bx)
    have kx: "ks ! x \<in> set ks" using x by simp
    have wx: "wfb lo hi (Suc lo) hi (Suc h) (ks ! x)" and mx: "minok (ks ! x)"
      and nex: "inorder (ks ! x) \<noteq> []"
      using kw kne kx by blast+
    obtain i st pp as where K: "ks ! x = Node i st pp as" using wx by (cases "ks ! x") auto
    have it0: "inorder t0 = inorder (ks ! x)" and lt0: "leaves t0 = leaves (ks ! x)"
      and wt0: "wfb lo hi (Suc lo) hi (Suc h) t0" and pt0: "ppair t0 = q"
      using wx by (simp_all add: t0_def K)
    have sx: "sorted_wrt (<) (inorder (ks ! x))" by (rule kid_sorted(1)[OF srtI x])
    have hdx: "ppair (ks ! x) = hd (inorder (ks ! x))" using mx nex by (simp add: minok_hd)
    have Af: "\<forall>a \<in> set (concat (map inorder (take x ks))). a < kv"
    proof (cases "0 < xb")
      case True
      then have "ppair (ks ! x) < kv" using below[of x] by (simp add: x_def)
      then show ?thesis by (rule before_all[OF srtI x nex mx])
    next
      case False
      then show ?thesis by (simp add: x_def)
    qed
    have Zf: "\<forall>z \<in> set (concat (map inorder (drop (Suc x) ks))). kv < z"
    proof (rule after_all[OF srtI kne], intro allI impI)
      fix y assume "x < y \<and> y < length ks"
      then show "kv < ppair (ks ! y)" using above[of y] by (auto simp: x_def split: if_splits)
    qed
    have qin: "q \<in> insert kv (set (inorder (ks ! x)))"
      using nex hdx by (auto simp: q_def)
    have qle: "\<forall>e \<in> insert kv (set (inorder (ks ! x))). q \<le> e"
    proof (cases "0 < xb")
      case True
      then have "ppair (ks ! x) < kv" using below[of x] by (simp add: x_def)
      moreover have "\<forall>e \<in> set (inorder (ks ! x)). ppair (ks ! x) \<le> e"
        unfolding hdx using sorted_hd_le[OF sx] by blast
      ultimately show ?thesis using True by (simp add: q_def)
    next
      case False
      then have "kv < ppair (ks ! x)" using above[of x] x by (simp add: x_def)
      then have "\<forall>e \<in> set (inorder (ks ! x)). kv < e" by (rule above_all[OF sx mx nex])
      then show ?thesis using False by (auto simp: q_def)
    qed
    have notin0: "kv \<notin> set (inorder (ks ! x))" if "\<not> 0 < xb"
    proof -
      have "kv < ppair (ks ! x)" using that above[of x] x by (simp add: x_def)
      then have "\<forall>e \<in> set (inorder (ks ! x)). kv < e" by (rule above_all[OF sx mx nex])
      then show ?thesis by auto
    qed
    have iP0: "inorder P0 = inorder t"
      unfolding P0_def ks0_def t
      using concat_map_update[OF x, of inorder t0] concat_map_split[OF x, of inorder]
      by (simp add: it0)
    have lP0: "leaves P0 = leaves t"
      unfolding P0_def ks0_def t
      using concat_map_update[OF x, of leaves t0] concat_map_split[OF x, of leaves]
      by (simp add: lt0)
    have step0: "step_ok B s href t s0 P0"
    proof (cases "0 < xb")
      case True
      then have "t0 = ks ! x" by (simp add: t0_def q_def set_ppair_same)
      then have "P0 = t" by (simp add: P0_def ks0_def t)
      moreover have "s0 = s" using True by (simp add: s0_def bx)
      ultimately show ?thesis using step_ok_refl[OF ok hr] by simp
    next
      case False
      then have s0: "s0 = set_v p (int x) q (modify p s)" by (simp add: s0_def bx x_def q_def)
      note f = set_min_frame[OF okP x K refl s0, folded t0_def]
      have "sorted_wrt (<) (concat (map inorder (ks[x := t0])))"
        using srtI concat_map_update[OF x, of inorder t0] concat_map_split[OF x, of inorder]
        by (simp add: it0)
      then show ?thesis
        using child_step[OF ok t x hr f] unfolding P0_def ks0_def by blast
    qed
    have ok0: "sub_ok B s0 P0" using step0 by (simp add: step_ok_def)
    have hr0: "href_at s0 href P0"
      using step0 unfolding step_ok_def by (intro step_href[OF hr]) (simp_all add: P0_def t)
    have x0: "x < length ks0" using x by (simp add: ks0_def)
    have k0x: "ks0 ! x = t0" using x by (simp add: ks0_def)
    have okc: "sub_ok B s0 t0" using sub_ok_kid[OF ok0[unfolded P0_def] x0] by (simp add: k0x)
    have hrc: "href_at s0 (SlotHead p (int x)) t0"
      using href_kid[OF ok0[unfolded P0_def] x0] by (simp add: k0x)
    have hiB: "hi \<le> nat B" using hi by simp
    from Suc.IH[OF okc wt0 hrc _ hiB, folded kv_def]
    obtain s1 r t1 where e1: "insert_inner B z s0 (SlotHead p (int x)) key val = Some (s1, r)"
      and ip: "ins_post B lo hi (Suc lo) hi (Suc h) kv s0 (SlotHead p (int x)) t0 s1 r t1"
      by auto
    have st1: "step_ok B s0 (SlotHead p (int x)) t0 s1 t1"
      and set1: "set (inorder t1) = insert kv (set (inorder t0))"
      and ch1: "chain_pres (leaves t0) (leaves t1)"
      and same1: "kv \<in> set (inorder t0) \<longrightarrow> s1 = s0 \<and> \<not> r"
      using ip unfolding ins_post_def by blast+
    have cok: "sub_ok B s1 t1"
      and csub: "set (idxs t1) \<union> avail s1 \<subseteq> set (idxs (ks0 ! x)) \<union> avail s0"
      and cfr: "frame_ok s0 s1 (SlotHead p (int x)) (ks0 ! x) t1"
      and idx1: "idx t1 = idx t0" and pp1: "ppair t1 = q"
      using st1 unfolding step_ok_def k0x by (simp_all add: pt0)
    define ks1 where "ks1 = ks0[x := t1]"
    define P1 where "P1 = Node p stp ppp ks1"
    have tk0: "take x ks0 = take x ks" "drop (Suc x) ks0 = drop (Suc x) ks"
      by (simp_all add: ks0_def)
    have s_t1: "sorted_wrt (<) (inorder t1)" using cok by (simp add: sub_ok_def)
    have "sorted_wrt (<) (concat (map inorder (take x ks)) @ inorder (ks ! x)
              @ concat (map inorder (drop (Suc x) ks)))"
      using srtI concat_map_split[OF x, of inorder] by simp
    then have "sorted_wrt (<) (concat (map inorder (take x ks)) @ inorder t1
              @ concat (map inorder (drop (Suc x) ks)))"
      using s_t1 set1[unfolded it0] Af Zf by (rule sorted_insert_mid)
    then have srt1: "sorted_wrt (<) (concat (map inorder (ks0[x := t1])))"
      unfolding concat_map_update[OF x0, of inorder t1] tk0 .
    have stepc: "step_ok B s0 href P0 s1 P1"
      unfolding P1_def ks1_def
      by (rule child_step[OF ok0 P0_def x0 hr0 cok csub cfr srt1 refl])
    have step01: "step_ok B s href t s1 P1" by (rule step_ok_trans[OF step0 stepc])
    have iP1: "inorder P1 = concat (map inorder (take x ks)) @ inorder t1
              @ concat (map inorder (drop (Suc x) ks))"
      unfolding P1_def ks1_def using concat_map_update[OF x0, of inorder t1] tk0 by simp
    have it: "inorder t = concat (map inorder (take x ks)) @ inorder (ks ! x)
              @ concat (map inorder (drop (Suc x) ks))"
      unfolding t using concat_map_split[OF x, of inorder] by simp
    have setP1: "set (inorder P1) = insert kv (set (inorder t))"
      unfolding iP1 it using set1[unfolded it0] by auto
    have lne0: "leaves (ks0 ! x) \<noteq> []"
      unfolding k0x using wfb_leaves_nonempty[OF wt0] by simp
    have chP: "chain_pres (leaves t) (leaves P1)"
      unfolding lP0[symmetric] unfolding P0_def P1_def ks1_def
      by (rule child_leaves[OF ch1[folded k0x] lne0 x0 stp])
    have ne1: "inorder t1 \<noteq> []" using set1 by auto
    have "hd (inorder t1) = q" by (rule hd_insert_sorted[OF s_t1 set1[unfolded it0] qin qle])
    then have mk1: "minok t1" using ne1 pp1 by (simp add: minok_hd)
    have same: "s1 = s \<and> \<not> r" if "kv \<in> set (inorder t)"
    proof -
      have "kv \<in> set (inorder (ks ! x))" using that Af Zf unfolding it by auto
      then have "0 < xb" "s1 = s0 \<and> \<not> r" using notin0 same1 it0 by auto
      then show ?thesis by (simp add: s0_def bx)
    qed
    have bs': "binary_search (data (nodes s p)) key val 0 (count (read_head s href)) = Some bb"
      using bs cnt by simp
    have bb0: "0 \<le> bb" using c by simp
    have e: "insert_inner B z s href key val
           = (if r then Some (insert_fixup B z s1 href p (int x)) else Some (s1, False))"
      by (rule insert_inner_rec[OF inn gp[symmetric] bs' bb0 s0_def[unfolded kv_def] xi[symmetric] e1])
    have lk1: "length ks1 = length ks" by (simp add: ks1_def ks0_def)
    have k1x: "ks1 ! x = t1" using x0 by (simp add: ks1_def)
    have k1o: "ks1 ! j = ks ! j" if "j \<noteq> x" for j using that by (simp add: ks1_def ks0_def)
    show ?thesis
    proof (cases r)
      case False
      have w1: "wfb lo hi (Suc lo) hi (Suc h) t1"
        using ip False unfolding ins_post_def by simp
      have "\<forall>j < length ks1. wfb lo hi (Suc lo) hi (Suc h) (ks1 ! j) \<and> minok (ks1 ! j)"
      proof (intro allI impI)
        fix j assume j: "j < length ks1"
        show "wfb lo hi (Suc lo) hi (Suc h) (ks1 ! j) \<and> minok (ks1 ! j)"
        proof (cases "j = x")
          case True
          then show ?thesis using w1 mk1 k1x by simp
        next
          case False
          then show ?thesis using kw j lk1 k1o by simp
        qed
      qed
      then have "\<forall>k \<in> set ks1. wfb lo hi (Suc lo) hi (Suc h) k \<and> minok k"
        by (simp add: all_set_conv_all_nth)
      then have w: "wfb lo hi a b (Suc (Suc h)) P1"
        using len lk1 stp by (simp add: P1_def)
      have "ins_post B lo hi a b (Suc (Suc h)) kv s href t s1 False P1"
        unfolding ins_post_def using step01 setP1 chP same w lk1 False
        by (simp add: P1_def t)
      then show ?thesis using e False unfolding kv_def by auto
    next
      case True
      have cp1: "cache_pointer s1 = idx t0" and w1: "wfb lo hi (Suc lo) (Suc hi) (Suc h) t1"
        using ip True unfolding ins_post_def by simp_all
      have ok1: "sub_ok B s1 P1" using stepc by (simp add: step_ok_def)
      have hr1: "href_at s1 href P1"
        using stepc unfolding step_ok_def by (intro step_href[OF hr0]) (simp_all add: P0_def P1_def)
      have x1: "x < length ks1" using x lk1 by simp
      have kw1: "\<forall>k \<in> set ks1. wfb lo hi (Suc lo) (Suc hi) (Suc h) k \<and> minok k"
      proof -
        have "\<forall>j < length ks1. wfb lo hi (Suc lo) (Suc hi) (Suc h) (ks1 ! j) \<and> minok (ks1 ! j)"
        proof (intro allI impI)
          fix j assume j: "j < length ks1"
          show "wfb lo hi (Suc lo) (Suc hi) (Suc h) (ks1 ! j) \<and> minok (ks1 ! j)"
          proof (cases "j = x")
            case True
            then show ?thesis using w1 mk1 k1x by simp
          next
            case False
            then have "wfb lo hi (Suc lo) hi (Suc h) (ks1 ! j)" "minok (ks1 ! j)"
              using kw j lk1 k1o by simp_all
            then show ?thesis using wfb_bounds[of lo hi "Suc lo" hi "Suc h" "ks1 ! j" "Suc lo" "Suc hi"]
              by simp
          qed
        qed
        then show ?thesis by (simp add: all_set_conv_all_nth)
      qed
      have ko1: "\<forall>j < length ks1. j \<noteq> x \<longrightarrow> length (kids (ks1 ! j)) \<le> hi"
      proof (intro allI impI)
        fix j assume j: "j < length ks1" "j \<noteq> x"
        then have "wfb lo hi (Suc lo) hi (Suc h) (ks ! j)" using kw lk1 by simp
        then show "length (kids (ks1 ! j)) \<le> hi" using k1o[OF j(2)] by (cases "ks ! j") auto
      qed
      have cpx: "cache_pointer s1 = idx (ks1 ! x)" using cp1 idx1 k1x by simp
      have top1: "a \<le> length ks1" "length ks1 \<le> b" using len lk1 by simp_all
      from insert_fixup_correct[OF ok1 P1_def x1 stp hr1 kw1 ko1 cpx top1 bB lo hi B, of z]
      obtain s' r' P' where ef: "insert_fixup B z s1 href p (int x) = (s', r')"
        and stf: "step_ok B s1 href P1 s' P'" and inf: "inorder P' = inorder P1"
        and chf: "chain_pres (leaves P1) (leaves P')"
        and pf: "if r' then cache_pointer s' = p \<and> length (kids P') = Suc (length ks1)
              \<and> wfb lo hi a (Suc b) (Suc (Suc h)) P'
              \<and> (length ks1 = 1 \<and> h = 0 \<longrightarrow> wfb (nat (MERGE_SIZE B)) hi a (Suc b) (Suc (Suc h)) P')
         else length (kids P') = length ks1 \<and> wfb lo hi a b (Suc (Suc h)) P'"
        by blast
      have stp': "step_ok B s href t s' P'" by (rule step_ok_trans[OF step01 stf])
      have nin: "kv \<notin> set (inorder t)" using same True by blast
      have "ins_post B lo hi a b (Suc (Suc h)) kv s href t s' r' P'"
        unfolding ins_post_def using stp' setP1 inf chain_pres_trans[OF chP chf] nin pf lk1
        by (cases r') (simp_all add: t)
      then show ?thesis using e True ef unfolding kv_def by auto
    qed
  qed
qed

section \<open>The first pair and the split of the root\<close>

lemma insert_root_nodes:
  assumes al: "allocate B z s = (n, s1)" and n: "n \<noteq> 0"
  shows "nodes (insert_root B z s key val) =
      (nodes s)(n := (zero_node B z)\<lparr>state := NOT MAXN_SIZE, count := 1,
                   data := (data (zero_node B z))[0 := (data (zero_node B z) ! 0)\<lparr>v_pair := (key, val)\<rparr>]\<rparr>,
                0 := (nodes s 0)\<lparr>count := 1,
                   data := (data (nodes s 0))[0 := \<lparr>head = \<lparr>state = NOT n, count = 1\<rparr>, v_pair = (key, val)\<rparr>]\<rparr>)"
    and "free_blocks (insert_root B z s key val) = free_blocks s1"
    and "next_block (insert_root B z s key val) = next_block s1"
proof -
  define s2 where "s2 = modify 0 s1"
  define s3 where "s3 = set_count 0 1 s2"
  define s4 where "s4 = set_tuple 0 0 \<lparr>head = \<lparr>state = NOT n, count = 1\<rparr>, v_pair = (key, val)\<rparr> s3"
  define s5 where "s5 = modify n s4"
  define s6 where "s6 = upd_node n (set_index MAXN_SIZE OUTER) s5"
  define s7 where "s7 = set_count n 1 s6"
  define s8 where "s8 = set_v n 0 (key, val) s7"
  have e: "insert_root B z s key val = s8"
    unfolding insert_root_def s8_def s7_def s6_def s5_def s4_def s3_def s2_def Let_def al prod.case
    by (rule refl)
  have n1: "nodes s1 = (nodes s)(n := zero_node B z)" using allocate_nodes[OF al] by simp
  have n3: "nodes s3 = (nodes s)(n := zero_node B z, 0 := (nodes s 0)\<lparr>count := 1\<rparr>)"
    using n by (simp add: s3_def s2_def n1)
  have n4: "nodes s4 = (nodes s)(n := zero_node B z, 0 := (nodes s 0)\<lparr>count := 1,
                   data := (data (nodes s 0))[0 := \<lparr>head = \<lparr>state = NOT n, count = 1\<rparr>, v_pair = (key, val)\<rparr>]\<rparr>)"
    by (simp add: s4_def n3)
  define R where "R = (nodes s 0)\<lparr>count := 1,
                   data := (data (nodes s 0))[0 := \<lparr>head = \<lparr>state = NOT n, count = 1\<rparr>, v_pair = (key, val)\<rparr>]\<rparr>"
  have n4': "nodes s4 = (nodes s)(n := zero_node B z, 0 := R)" unfolding n4 R_def ..
  have n6: "nodes s6 = (nodes s)(n := (zero_node B z)\<lparr>state := NOT MAXN_SIZE\<rparr>, 0 := R)"
    using n by (simp add: s6_def s5_def n4' set_index_def fun_upd_twist)
  have n7: "nodes s7 = (nodes s)(n := (zero_node B z)\<lparr>state := NOT MAXN_SIZE, count := 1\<rparr>, 0 := R)"
    using n by (simp add: s7_def n6 fun_upd_twist)
  have n8: "nodes s8 = (nodes s)(n := (zero_node B z)\<lparr>state := NOT MAXN_SIZE, count := 1,
                   data := (data (zero_node B z))[0 := (data (zero_node B z) ! 0)\<lparr>v_pair := (key, val)\<rparr>]\<rparr>, 0 := R)"
    using n by (simp add: s8_def n7 fun_upd_twist)
  show "nodes (insert_root B z s key val) =
      (nodes s)(n := (zero_node B z)\<lparr>state := NOT MAXN_SIZE, count := 1,
                   data := (data (zero_node B z))[0 := (data (zero_node B z) ! 0)\<lparr>v_pair := (key, val)\<rparr>]\<rparr>,
                0 := (nodes s 0)\<lparr>count := 1,
                   data := (data (nodes s 0))[0 := \<lparr>head = \<lparr>state = NOT n, count = 1\<rparr>, v_pair = (key, val)\<rparr>]\<rparr>)"
    unfolding e n8 R_def ..
  show "free_blocks (insert_root B z s key val) = free_blocks s1"
    "next_block (insert_root B z s key val) = next_block s1"
    unfolding e s8_def s7_def s6_def s5_def s4_def s3_def s2_def by simp_all
qed

lemma MAXN_neg: "NOT MAXN_SIZE < 0" "NOT (NOT MAXN_SIZE) = MAXN_SIZE" "0 \<le> MAXN_SIZE"
  by (simp_all add: MAXN_SIZE_def not_int_def)

lemma insert_root_correct:
  fixes s :: "('k::linorder, 'v::linorder) tree"
  assumes inv: "tree_inv B s t" and em: "kids t = []" and B: "1 \<le> B"
  shows "\<exists>t'. tree_inv B (insert_root B z s key val) t' \<and> inorder t' = [(key, val)]"
proof -
  obtain pp where t: "t = Node 0 0 pp []"
    using inv em by (cases t) (auto simp: tree_inv_def)
  have ok: "sub_ok B s t" using inv by (simp add: tree_inv_def)
  have R: "node_rep B s 0 0 []" and awf: "alloc_wf s" and av: "0 \<notin> avail s"
    using ok by (simp_all add: sub_ok_def t)
  obtain n s1 where al: "allocate B z s = (n, s1)" by (cases "allocate B z s") auto
  note ap = allocate_props[OF awf al]
  have n0: "n \<noteq> 0" "0 \<le> n" using ap(2) by simp_all
  define s' where "s' = insert_root B z s key val"
  note ir = insert_root_nodes[OF al n0(1), of key val, folded s'_def]
  define leaf where "leaf = Node n (NOT MAXN_SIZE) (key, val) [Item (head z) (key, val)]"
  define t' where "t' = Node 0 0 pp [leaf]"
  have B1: "nat (B + 1) = Suc (nat B)" using B by simp
  have zt: "z\<lparr>v_pair := (key, val)\<rparr> = \<lparr>head = head z, v_pair = (key, val)\<rparr>"
    by (cases z) simp
  have Rn: "node_rep B s' n (NOT MAXN_SIZE) [Item (head z) (key, val)]"
    using n0 by (simp add: node_rep_def ir(1) zero_node_def B1 zt)
  have R0: "node_rep B s' 0 0 [leaf]"
    using R n0 MAXN_neg by (simp add: node_rep_def ir(1) leaf_def B1 take_Suc_conv_app_nth)
  have rp: "rep B s' t'" using Rn R0 by (simp add: t'_def leaf_def)
  have av': "avail s' = avail s - {n}" using ir(2,3) ap(3) by (simp add: avail_def)
  have awf': "alloc_wf s'" using ir(2,3) ap(4) by (simp add: alloc_wf_def)
  have ok': "sub_ok B s' t'"
    unfolding sub_ok_def using rp awf' av' av n0 by (simp add: t'_def leaf_def)
  have w: "wfb 0 (nat B) 1 1 2 t'"
    using B MAXN_neg by (simp add: t'_def leaf_def minok_def eval_nat_numeral)
  have l: "linked (leaves t') MAXN_SIZE" using MAXN_neg by (simp add: t'_def leaf_def)
  have "tree_inv B s' t'"
    unfolding tree_inv_def root_wf_def using ok' w l by (simp add: t'_def)
  moreover have "inorder t' = [(key, val)]" by (simp add: t'_def leaf_def)
  ultimately show ?thesis unfolding s'_def by blast
qed

lemma split_root_rep:
  assumes al1: "allocate B z s = (prev, s1)" and al2: "allocate B z s1 = (nxt, s2)"
    and ne: "prev \<noteq> nxt" "prev \<noteq> 0" "nxt \<noteq> 0" and nn: "0 \<le> prev" "0 \<le> nxt"
    and R: "node_rep B s 0 st0 ks" and len: "2 \<le> length ks"
    and m1: "m1 = length ks div 2"
  defines "s' \<equiv> split_root B z s"
  shows "node_rep B s' 0 st0 [Node prev nxt (ppair (ks ! 0)) (take m1 ks),
                               Node nxt MAXN_SIZE (ppair (ks ! m1)) (drop m1 ks)]"
    and "node_rep B s' prev nxt (take m1 ks)"
    and "node_rep B s' nxt MAXN_SIZE (drop m1 ks)"
    and "\<And>j. j \<noteq> 0 \<Longrightarrow> j \<noteq> prev \<Longrightarrow> j \<noteq> nxt \<Longrightarrow> nodes s' j = nodes s j"
    and "free_blocks s' = free_blocks s2" "next_block s' = next_block s2"
proof -
  note r = node_repD[OF R]
  define m2 where "m2 = length ks - m1"
  define Rt where "Rt = nodes s 0"
  define d0 where "d0 = data Rt"
  have c0: "count Rt = int (length ks)" and l0: "length d0 = nat (B + 1)"
    and t0: "take (length ks) d0 = map entry ks"
    using r by (simp_all add: Rt_def d0_def)
  have lk: "length ks \<le> length d0" by (rule length_entries[OF t0]) simp
  have mm: "m1 + m2 = length ks" "1 \<le> m1" "m1 < length ks" "1 \<le> m2"
    using len m1 unfolding m2_def by linarith+
  have dv1: "drop_bit 1 (int (length ks)) = int m1"
    using m1 by (simp add: drop_bit_1_int zdiv_int)
  have dv2: "drop_bit 1 (int (length ks) + 1) = int m2"
    using m1 unfolding m2_def by (simp add: drop_bit_1_int)
  define s3 where "s3 = set_state prev nxt s2"
  define s4 where "s4 = set_state nxt MAXN_SIZE s3"
  define s5 where "s5 = set_count prev (drop_bit 1 (count (nodes s4 0))) s4"
  define s6 where "s6 = set_count nxt (drop_bit 1 (count (nodes s5 0) + 1)) s5"
  define s7 where "s7 = set_data prev (mmove (data (nodes s6 prev)) 0 (data (nodes s6 0)) 0
                (count (nodes s6 prev))) s6"
  define s8 where "s8 = set_data nxt (mmove (data (nodes s7 nxt)) 0 (data (nodes s7 0))
                (count (nodes s7 prev)) (count (nodes s7 nxt))) s7"
  define s9 where "s9 = set_count 0 2 s8"
  define s10 where "s10 = set_head 0 0 \<lparr>state = prev, count = count (nodes s9 prev)\<rparr> s9"
  define s11 where "s11 = set_head 0 1 \<lparr>state = nxt, count = count (nodes s10 nxt)\<rparr> s10"
  define s12 where "s12 = set_v 0 1 (v_pair (get_tuple s11 nxt 0)) s11"
  have e: "s' = s12"
    unfolding s'_def split_root_def s12_def s11_def s10_def s9_def s8_def s7_def s6_def
      s5_def s4_def s3_def Let_def al1 prod.case al2 by (rule refl)
  define zd where "zd = data (zero_node B z)"
  have lz: "length zd = nat (B + 1)" by (simp add: zd_def)
  define PN where "PN = (zero_node B z)\<lparr>state := nxt, count := int m1,
                          data := mmove zd 0 d0 0 (int m1)\<rparr>"
  define NN where "NN = (zero_node B z)\<lparr>state := MAXN_SIZE, count := int m2,
                          data := mmove zd 0 d0 (int m1) (int m2)\<rparr>"
  have n2: "nodes s2 = (nodes s)(prev := zero_node B z, nxt := zero_node B z)"
    using allocate_nodes[OF al1] allocate_nodes[OF al2] by simp
  have n4: "nodes s4 = (nodes s)(prev := (zero_node B z)\<lparr>state := nxt\<rparr>,
                                  nxt := (zero_node B z)\<lparr>state := MAXN_SIZE\<rparr>)"
    using ne by (simp add: s4_def s3_def n2 fun_upd_twist)
  have n4r: "nodes s4 0 = Rt" using ne by (simp add: n4 Rt_def)
  have n5: "nodes s5 = (nodes s)(prev := (zero_node B z)\<lparr>state := nxt, count := int m1\<rparr>,
                                  nxt := (zero_node B z)\<lparr>state := MAXN_SIZE\<rparr>)"
    using ne unfolding s5_def n4r c0 dv1 by (simp add: n4 fun_upd_twist)
  have n5r: "nodes s5 0 = Rt" using ne by (simp add: n5 Rt_def)
  have n6: "nodes s6 = (nodes s)(prev := (zero_node B z)\<lparr>state := nxt, count := int m1\<rparr>,
                                  nxt := (zero_node B z)\<lparr>state := MAXN_SIZE, count := int m2\<rparr>)"
    using ne unfolding s6_def n5r c0 dv2 by (simp add: n5 fun_upd_twist)
  have n6r: "nodes s6 0 = Rt" "nodes s6 prev = (zero_node B z)\<lparr>state := nxt, count := int m1\<rparr>"
    using ne by (simp_all add: n6 Rt_def)
  have n7: "nodes s7 = (nodes s)(prev := PN,
                                  nxt := (zero_node B z)\<lparr>state := MAXN_SIZE, count := int m2\<rparr>)"
    using ne unfolding s7_def n6r by (simp add: n6 fun_upd_twist PN_def zd_def d0_def)
  have n7r: "nodes s7 0 = Rt" "nodes s7 prev = PN"
    "nodes s7 nxt = (zero_node B z)\<lparr>state := MAXN_SIZE, count := int m2\<rparr>"
    using ne by (simp_all add: n7 Rt_def)
  have n8: "nodes s8 = (nodes s)(prev := PN, nxt := NN)"
    using ne unfolding s8_def n7r by (simp add: n7 fun_upd_twist PN_def NN_def zd_def d0_def)
  have n9: "nodes s9 = (nodes s)(prev := PN, nxt := NN, 0 := Rt\<lparr>count := 2\<rparr>)"
    using ne by (simp add: s9_def n8 Rt_def)
  have n9p: "count (nodes s9 prev) = int m1" using ne by (simp add: n9 PN_def)
  define d10 where "d10 = d0[0 := (d0 ! 0)\<lparr>head := \<lparr>state = prev, count = int m1\<rparr>\<rparr>]"
  have n10: "nodes s10 = (nodes s)(prev := PN, nxt := NN, 0 := Rt\<lparr>count := 2, data := d10\<rparr>)"
    unfolding s10_def n9p by (simp add: n9 d10_def d0_def)
  have n10n: "count (nodes s10 nxt) = int m2" using ne by (simp add: n10 NN_def)
  define d11 where "d11 = d10[1 := (d10 ! 1)\<lparr>head := \<lparr>state = nxt, count = int m2\<rparr>\<rparr>]"
  have n11: "nodes s11 = (nodes s)(prev := PN, nxt := NN, 0 := Rt\<lparr>count := 2, data := d11\<rparr>)"
    unfolding s11_def n10n by (simp add: n10 d11_def)
  have g11: "get_tuple s11 nxt 0 = data NN ! 0" using ne by (simp add: get_tuple_eq n11)
  define d12 where "d12 = d11[1 := (d11 ! 1)\<lparr>v_pair := v_pair (data NN ! 0)\<rparr>]"
  have n12: "nodes s12 = (nodes s)(prev := PN, nxt := NN, 0 := Rt\<lparr>count := 2, data := d12\<rparr>)"
    unfolding s12_def g11 by (simp add: n11 d12_def)
  have tP: "take m1 (mmove zd 0 d0 0 (int m1)) = take m1 d0"
    and lP: "length (mmove zd 0 d0 0 (int m1)) = length zd"
    using mm lk lz l0 take_mmove_int[of 0 m1 zd 0 d0] length_mmove_int[of 0 m1 zd 0 d0]
    by simp_all
  have tN: "take m2 (mmove zd 0 d0 (int m1) (int m2)) = take m2 (drop m1 d0)"
    and lN: "length (mmove zd 0 d0 (int m1) (int m2)) = length zd"
    using mm lk lz l0 take_mmove_int[of 0 m2 zd m1 d0] length_mmove_int[of 0 m2 zd m1 d0]
    by simp_all
  have e1: "take m1 d0 = map entry (take m1 ks)"
    using take_entries_prefix[OF t0, of m1] mm by (simp add: take_map)
  have e2: "take m2 (drop m1 d0) = map entry (drop m1 ks)"
    using take_drop_entries[OF t0, of m1 m2] mm by (simp add: drop_map m2_def)
  show "node_rep B s' prev nxt (take m1 ks)"
    unfolding e using ne mm tP lP lz e1 by (simp add: node_rep_def n12 PN_def min_def)
  show "node_rep B s' nxt MAXN_SIZE (drop m1 ks)"
    unfolding e using ne mm tN lN lz e2 by (simp add: node_rep_def n12 NN_def m2_def)
  show "\<And>j. j \<noteq> 0 \<Longrightarrow> j \<noteq> prev \<Longrightarrow> j \<noteq> nxt \<Longrightarrow> nodes s' j = nodes s j"
    unfolding e by (simp add: n12)
  show "free_blocks s' = free_blocks s2" "next_block s' = next_block s2"
    unfolding e s12_def s11_def s10_def s9_def s8_def s7_def s6_def s5_def s4_def s3_def
    by simp_all
  have l2: "2 \<le> length d0" using len lk by simp
  have x0: "d0 ! 0 = entry (ks ! 0)" and x1: "d0 ! 1 = entry (ks ! 1)"
    and xm: "d0 ! m1 = entry (ks ! m1)"
  proof -
    have a: "0 < length ks" "1 < length ks" using len by linarith+
    show "d0 ! 0 = entry (ks ! 0)" using nth_entries[OF t0 a(1)] a(1) by simp
    show "d0 ! 1 = entry (ks ! 1)" using nth_entries[OF t0 a(2)] a(2) by simp
    show "d0 ! m1 = entry (ks ! m1)" using nth_entries[OF t0 mm(3)] mm(3) by simp
  qed
  have nn0: "data NN ! 0 = d0 ! m1"
  proof -
    have "take m2 (data NN) ! 0 = take m2 (drop m1 d0) ! 0" using tN by (simp add: NN_def)
    then show ?thesis using mm lk by simp
  qed
  have eh: "(entry k)\<lparr>head := h\<rparr> = \<lparr>head = h, v_pair = ppair k\<rparr>"
    for k :: "('a, 'b) atree" and h
    by (cases k) simp_all
  have l10: "1 < length d10" "d10 ! 1 = d0 ! 1" using l2 by (simp_all add: d10_def)
  have d11x: "d11 ! 1 = \<lparr>head = \<lparr>state = nxt, count = int m2\<rparr>, v_pair = ppair (ks ! 1)\<rparr>"
    using l10 x1 unfolding d11_def by (simp add: eh del: entry.simps)
  have d12x: "d12 = d0[0 := \<lparr>head = \<lparr>state = prev, count = int m1\<rparr>, v_pair = ppair (ks ! 0)\<rparr>,
                       1 := \<lparr>head = \<lparr>state = nxt, count = int m2\<rparr>, v_pair = ppair (ks ! m1)\<rparr>]"
    unfolding d12_def d11x nn0 xm unfolding d11_def d10_def x0 eh by simp
  have t2: "take 2 (d[0 := a, 1 := b]) = [a, b]" if "2 \<le> length d"
    for d :: "('a, 'b) value_tuple list" and a b
    using that by (cases d; cases "tl d") (simp_all add: eval_nat_numeral)
  have d12e: "take 2 d12 = [\<lparr>head = \<lparr>state = prev, count = int m1\<rparr>, v_pair = ppair (ks ! 0)\<rparr>,
                            \<lparr>head = \<lparr>state = nxt, count = int m2\<rparr>, v_pair = ppair (ks ! m1)\<rparr>]"
    unfolding d12x by (rule t2[OF l2])
  have l12: "length d12 = nat (B + 1)" by (simp add: d12_def d11_def d10_def l0)
  show "node_rep B s' 0 st0 [Node prev nxt (ppair (ks ! 0)) (take m1 ks),
                               Node nxt MAXN_SIZE (ppair (ks ! m1)) (drop m1 ks)]"
    unfolding e using r(1) nn mm MAXN_neg d12e[unfolded numeral_2_eq_2] l12
    by (simp add: node_rep_def n12 Rt_def m2_def min_def)
qed

lemma minok_first:
  assumes "ks \<noteq> []" "inorder (hd ks) \<noteq> []" "minok (hd ks)"
  shows "minok (Node i st (ppair (hd ks)) ks)"
proof -
  obtain k r where ks: "ks = k # r" using assms(1) by (cases ks) auto
  have "ppair k = hd (inorder k)" using assms(2,3) by (simp add: ks minok_hd)
  then show ?thesis using assms(2) by (simp add: ks minok_hd)
qed

lemma split_root_correct:
  fixes s :: "('k::linorder, 'v::linorder) tree"
  assumes ok: "sub_ok B s t" and t: "t = Node 0 0 pp ks"
    and wf: "wfb L hi 2 (Suc hi) (Suc (Suc h)) t" and full: "length ks = Suc hi"
    and hi: "hi = nat B" and L: "L = nat (MERGE_SIZE B)" and B: "2 \<le> B"
    and lk: "linked (leaves t) MAXN_SIZE"
  shows "\<exists>t'. tree_inv B (split_root B z s) t' \<and> inorder t' = inorder t"
proof -
  have okP: "sub_ok B s (Node 0 0 pp ks)" using ok unfolding t .
  have R: "node_rep B s 0 0 ks" and rk: "\<forall>k \<in> set ks. rep B s k"
    and dP: "distinct (0 # concat (map idxs ks))"
    and nnP: "\<forall>i \<in> set (0 # concat (map idxs ks)). 0 \<le> i"
    and avP: "set (0 # concat (map idxs ks)) \<inter> avail s = {}"
    and awf: "alloc_wf s"
    and srt: "sorted_wrt (<) (concat (map inorder ks))"
    using okP unfolding sub_ok_def by simp_all
  have kw: "\<forall>k \<in> set ks. wfb L hi (Suc L) hi (Suc h) k \<and> minok k"
    using wf by (simp add: t)
  obtain prev s1 where al1: "allocate B z s = (prev, s1)" by (cases "allocate B z s") auto
  obtain nxt s2 where al2: "allocate B z s1 = (nxt, s2)" by (cases "allocate B z s1") auto
  note a1 = allocate_props[OF awf al1]
  note a2 = allocate_props[OF a1(4) al2]
  have ne: "prev \<noteq> nxt" "prev \<noteq> 0" "nxt \<noteq> 0" and nn: "0 \<le> prev" "0 \<le> nxt"
    using a1(1,2) a2(1,2) unfolding a1(3) by auto
  have pin: "prev \<notin> set (concat (map idxs ks))" "nxt \<notin> set (concat (map idxs ks))"
    using a1(1) a2(1) avP unfolding a1(3) by auto
  define m1 where "m1 = length ks div 2"
  have len2: "2 \<le> length ks" using full hi B by simp
  define s' where "s' = split_root B z s"
  note sr = split_root_rep[OF al1 al2 ne nn R len2 m1_def, folded s'_def]
  define K1 where "K1 = Node prev nxt (ppair (ks ! 0)) (take m1 ks)"
  define K2 where "K2 = Node nxt MAXN_SIZE (ppair (ks ! m1)) (drop m1 ks)"
  define t' where "t' = Node 0 0 pp [K1, K2]"
  have hi1: "1 \<le> hi" using hi B by simp
  have L3: "L = hi div 3" using hi L B by (simp add: MERGE_SIZE_def nat_div_distrib)
  have mb: "Suc L \<le> m1" "m1 \<le> hi" "Suc L \<le> length ks - m1" "length ks - m1 \<le> hi"
    "m1 < length ks" "1 \<le> m1"
    using full L3 hi1 unfolding m1_def by arith+
  have fr: "nodes s' j = nodes s j" if "j \<in> set (concat (map idxs ks))" for j
  proof (rule sr(4))
    show "j \<noteq> 0" using that dP by auto
    show "j \<noteq> prev" "j \<noteq> nxt" using that pin by auto
  qed
  have rk': "rep B s' k" if "k \<in> set ks" for k
  proof (rule rep_frame)
    show "rep B s k" using rk that by blast
    fix j assume "j \<in> set (idxs k)"
    then have "j \<in> set (concat (map idxs ks))" using that by auto
    then show "nodes s' j = nodes s j" by (rule fr)
  qed
  have tk: "set (take m1 ks) \<subseteq> set ks" "set (drop m1 ks) \<subseteq> set ks"
    by (simp_all add: set_take_subset set_drop_subset)
  have rp: "rep B s' t'"
    using sr(1,2,3) rk' tk by (auto simp: t'_def K1_def K2_def)
  have cc: "concat (map f (take m1 ks)) @ concat (map f (drop m1 ks)) = concat (map f ks)"
    for f :: "('k, 'v) atree \<Rightarrow> 'c list"
  proof -
    have "concat (map f (take m1 ks @ drop m1 ks)) = concat (map f ks)" by simp
    then show ?thesis unfolding map_append concat_append .
  qed
  have ino: "inorder t' = inorder t" using cc[of inorder] by (simp add: t'_def K1_def K2_def t)
  have lv: "leaves t' = leaves t"
    using cc[of leaves] nn MAXN_neg by (simp add: t'_def K1_def K2_def t)
  have ids: "set (concat (map idxs (take m1 ks))) \<union> set (concat (map idxs (drop m1 ks)))
                = set (concat (map idxs ks))"
    using arg_cong[OF cc[of idxs], of set] by simp
  have dd: "distinct (concat (map idxs (take m1 ks)) @ concat (map idxs (drop m1 ks)))"
    unfolding cc using dP by simp
  have pin': "prev \<notin> set (concat (map idxs (take m1 ks))) \<union> set (concat (map idxs (drop m1 ks)))"
    "nxt \<notin> set (concat (map idxs (take m1 ks))) \<union> set (concat (map idxs (drop m1 ks)))"
    "0 \<notin> set (concat (map idxs (take m1 ks))) \<union> set (concat (map idxs (drop m1 ks)))"
    unfolding ids using pin dP by simp_all
  have dd3: "distinct (concat (map idxs (take m1 ks)))" "distinct (concat (map idxs (drop m1 ks)))"
    "set (concat (map idxs (take m1 ks))) \<inter> set (concat (map idxs (drop m1 ks))) = {}"
    using dd by simp_all
  have "distinct (0 # prev # concat (map idxs (take m1 ks)) @ nxt # concat (map idxs (drop m1 ks)))"
    using dd3 pin' ne unfolding distinct.simps distinct_append set_append set_simps by blast
  then have d': "distinct (idxs t')" by (simp add: t'_def K1_def K2_def)
  have av': "avail s' = avail s - {prev, nxt}"
    using sr(5,6) a1(3) a2(3) by (auto simp: avail_def)
  have awf': "alloc_wf s'" using sr(5,6) a2(4) by (simp add: alloc_wf_def)
  have si: "set (idxs t') = insert prev (insert nxt (set (idxs t)))"
    unfolding t'_def K1_def K2_def t using ids by auto
  have nn': "\<forall>i \<in> set (idxs t'). 0 \<le> i" unfolding si using nnP nn by (simp add: t)
  have dj: "set (idxs t') \<inter> avail s' = {}" unfolding si av' using avP by (auto simp: t)
  have srt': "sorted_wrt (<) (inorder t')" unfolding ino using srt by (simp add: t)
  have ok': "sub_ok B s' t'"
    unfolding sub_ok_def using rp srt' d' awf' nn' dj by blast
  have kne: "ks \<noteq> []" "0 < length ks" using mb(5) by auto
  have k0: "take m1 ks \<noteq> []" "hd (take m1 ks) = ks ! 0" "ks ! 0 \<in> set ks"
    using mb kne by (simp_all add: hd_conv_nth)
  have km: "drop m1 ks \<noteq> []" "hd (drop m1 ks) = ks ! m1" "ks ! m1 \<in> set ks"
    using mb by (auto simp: hd_drop_conv_nth)
  have ne0: "inorder (ks ! 0) \<noteq> []" "inorder (ks ! m1) \<noteq> []"
    using kw k0(3) km(3) wfb_inorder_nonempty[of L hi "Suc L" hi "Suc h"] by auto
  have mk1: "minok K1" unfolding K1_def k0(2)[symmetric]
    using k0 ne0 kw by (intro minok_first) auto
  have mk2: "minok K2" unfolding K2_def km(2)[symmetric]
    using km ne0 kw by (intro minok_first) auto
  have kw1: "\<forall>k \<in> set (take m1 ks). wfb L hi (Suc L) hi (Suc h) k \<and> minok k"
    and kw2: "\<forall>k \<in> set (drop m1 ks). wfb L hi (Suc L) hi (Suc h) k \<and> minok k"
    using kw tk by blast+
  have lt: "length (take m1 ks) = m1" using mb by simp
  have w1: "wfb L hi (Suc L) hi (Suc (Suc h)) K1"
    using kw1 mb(1,2) nn(2) unfolding K1_def wfb.simps atree.case lt by simp
  have w2: "wfb L hi (Suc L) hi (Suc (Suc h)) K2"
    using kw2 mb(3,4) MAXN_neg(3) unfolding K2_def wfb.simps atree.case length_drop by simp
  have hi2: "2 \<le> hi" using hi B by simp
  have w: "wfb L hi 2 hi (Suc (Suc (Suc h))) t'"
    using w1 w2 mk1 mk2 hi2 by (simp add: t'_def)
  have rw: "root_wf B t'" unfolding root_wf_def using w L hi by blast
  have "tree_inv B s' t'"
    unfolding tree_inv_def using ok' rw lk lv by (simp add: t'_def)
  then show ?thesis using ino unfolding s'_def by blast
qed

section \<open>Queries leave the tree alone\<close>

lemma find_if_frame: "find_if s key out func = Some (s', out') \<Longrightarrow> s' = s"
  unfolding find_if_def
  by (auto split: if_splits bind_splits prod.splits simp: Let_def)

lemma find_list_frame: "find_list s key out = Some (s', out') \<Longrightarrow> s' = s"
  unfolding find_list_def by (rule find_if_frame)

end
